(* ===== verification/Lsm_Prelude.thy ===== *)
theory Lsm_Prelude
  imports
    Main
    "HOL-Library.Word"
    "HOL-Library.Char_ord"
    "HOL-Library.List_Lexorder"
    "HOL-Library.Product_Lexorder"
    "HOL-Library.Sublist"
    "HOL-Library.Multiset"
begin

text \<open>
  Shared vocabulary of the development: names for the C++ types the sources use,
  the outcome type of operations that may block or fail, a model of \<open>std::map\<close> as a
  strictly sorted association list, decimal printing, little-endian integers, and
  the generic lemmas on sorted lists and on the lexicographic order of byte strings.

  A \<open>std::string\<close> is a \<^typ>\<open>string\<close>: a list of 8-bit \<^typ>\<open>char\<close>s.
  The order that \<open>HOL-Library.List_Lexorder\<close> and \<open>Char_ord\<close> put on it is the one
  of \<open>std::string::operator<\<close>, which compares bytes as unsigned values.
\<close>

section \<open>Names for the source's types\<close>

type_synonym u32 = "32 word"
type_synonym u64 = "64 word"
type_synonym key = string
type_synonym val = string

named_theorems lsm_defs \<open>unfolding rules of the model's small definitions\<close>
named_theorems lsm_laws \<open>laws of the containers and operations the proofs rewrite with\<close>

text \<open>
  What a call may do besides returning: wait on a condition variable whose predicate
  does not hold, throw, run into undefined behaviour (a null or moved-from pointer), or end the
  process with an exit code: \<open>exit\<close>, or \<open>LOG(FATAL)\<close>, which aborts it (134 to the shell).
\<close>

datatype 'a outcome = Returns 'a | Blocks | Throws string | Undefined | Exits int

fun bind_outcome :: "'a outcome \<Rightarrow> ('a \<Rightarrow> 'b outcome) \<Rightarrow> 'b outcome" where
  "bind_outcome (Returns x) f = f x"
| "bind_outcome Blocks f = Blocks"
| "bind_outcome (Throws e) f = Throws e"
| "bind_outcome Undefined f = Undefined"
| "bind_outcome (Exits c) f = Exits c"

definition ABORT_CODE :: int where "ABORT_CODE = 134"

lemma bind_outcome_Returns_iff:
  "bind_outcome r f = Returns y \<longleftrightarrow> (\<exists>x. r = Returns x \<and> f x = Returns y)"
  by (cases r) auto

section \<open>\<open>std::map\<close> as a strictly sorted association list\<close>

text \<open>Iteration over a \<open>std::map\<close> is in key order, so the list itself is the iteration.\<close>

type_synonym ('k, 'v) omap = "('k \<times> 'v) list"

definition omap_ok :: "('k::linorder, 'v) omap \<Rightarrow> bool" where
  "omap_ok m = sorted_wrt (<) (map fst m)"

fun omap_put :: "'k::linorder \<Rightarrow> 'v \<Rightarrow> ('k, 'v) omap \<Rightarrow> ('k, 'v) omap" where
  "omap_put k v [] = [(k, v)]"
| "omap_put k v ((k', v') # m) =
     (if k < k' then (k, v) # (k', v') # m
      else if k = k' then (k, v) # m
      else (k', v') # omap_put k v m)"

fun omap_erase :: "'k::linorder \<Rightarrow> ('k, 'v) omap \<Rightarrow> ('k, 'v) omap" where
  "omap_erase k [] = []"
| "omap_erase k ((k', v') # m) = (if k = k' then m else (k', v') # omap_erase k m)"

lemma omap_ok_Nil [simp]: "omap_ok []"
  by (simp add: omap_ok_def)

lemma omap_ok_Cons [simp]:
  "omap_ok ((k, v) # m) \<longleftrightarrow> (\<forall>k' \<in> fst ` set m. k < k') \<and> omap_ok m"
  by (auto simp: omap_ok_def)

lemma omap_ok_distinct: "omap_ok m \<Longrightarrow> distinct (map fst m)"
  by (simp add: omap_ok_def strict_sorted_iff)

lemma keys_omap_put [simp]: "fst ` set (omap_put k v m) = insert k (fst ` set m)"
  by (induction k v m rule: omap_put.induct) auto

lemma keys_omap_erase: "fst ` set (omap_erase k m) \<subseteq> fst ` set m"
  by (induction k m rule: omap_erase.induct) auto

lemma omap_ok_put [simp]: "omap_ok m \<Longrightarrow> omap_ok (omap_put k v m)"
  by (induction k v m rule: omap_put.induct) auto

lemma omap_ok_erase [simp]: "omap_ok m \<Longrightarrow> omap_ok (omap_erase k m)"
  by (induction k m rule: omap_erase.induct) (use keys_omap_erase in fastforce)+

lemma map_of_omap_put [simp]: "map_of (omap_put k v m) = (map_of m)(k \<mapsto> v)"
  by (induction k v m rule: omap_put.induct) auto

lemma map_of_notin: "k \<notin> fst ` set m \<Longrightarrow> map_of m k = None"
  by (simp add: map_of_eq_None_iff)

lemma map_of_omap_erase [simp]:
  "omap_ok m \<Longrightarrow> map_of (omap_erase k m) = (map_of m)(k := None)"
proof (induction k m rule: omap_erase.induct)
  case (2 k k' v' m)
  then have "k' \<notin> fst ` set m" by auto
  with 2 show ?case by (auto simp: fun_eq_iff map_of_notin)
qed simp

text \<open>Two \<open>std::map\<close>s with the same lookups are the same container.\<close>

lemma omap_ext:
  assumes "omap_ok m" and "omap_ok m'" and "map_of m = map_of m'"
  shows "m = m'"
proof -
  from assms(1,2) have d: "distinct (map fst m)" "distinct (map fst m')"
    by (auto intro: omap_ok_distinct)
  with assms(3) have "set m = set m'" by (simp add: map_of_inject_set)
  moreover from this d(1) have "inj_on fst (set m \<union> set m')"
    by (simp add: distinct_map)
  ultimately show ?thesis
    using assms(1,2) d by (simp add: omap_ok_def strict_sorted_iff map_sorted_distinct_set_unique)
qed

section \<open>Decimal printing and parsing\<close>

definition digit_char :: "nat \<Rightarrow> char" where
  "digit_char d = char_of (48 + d)"

definition is_digit :: "char \<Rightarrow> bool" where
  "is_digit c = (48 \<le> (of_char c :: nat) \<and> (of_char c :: nat) \<le> 57)"

definition digit_value :: "char \<Rightarrow> nat" where
  "digit_value c = of_char c - 48"

text \<open>\<open>std::to_string\<close> of a non-negative integer, and of an \<open>int\<close>.\<close>

fun dec :: "nat \<Rightarrow> string" where
  "dec n = (if n < 10 then [digit_char n] else dec (n div 10) @ [digit_char (n mod 10)])"

declare dec.simps [simp del]

definition to_string_int :: "int \<Rightarrow> string" where
  "to_string_int i = (if i < 0 then CHR ''-'' # dec (nat (- i)) else dec (nat i))"

definition dec_value :: "string \<Rightarrow> nat" where
  "dec_value s = foldl (\<lambda>a c. 10 * a + digit_value c) 0 s"

lemma of_char_digit: "d < 10 \<Longrightarrow> (of_char (digit_char d) :: nat) = 48 + d"
  by (simp add: digit_char_def)

lemma is_digit_digit_char [simp]: "d < 10 \<Longrightarrow> is_digit (digit_char d)"
  by (simp add: is_digit_def of_char_digit)

lemma digit_value_digit_char [simp]: "d < 10 \<Longrightarrow> digit_value (digit_char d) = d"
  by (simp add: digit_value_def of_char_digit)

lemma dec_not_Nil [simp]: "dec n \<noteq> []"
  by (subst dec.simps) simp

lemma dec_is_digit: "c \<in> set (dec n) \<Longrightarrow> is_digit c"
proof (induction n rule: dec.induct)
  case (1 n)
  then show ?case by (cases "n < 10") (auto simp: dec.simps [of n])
qed

lemma dec_value_append_digit: "dec_value (s @ [c]) = 10 * dec_value s + digit_value c"
  by (simp add: dec_value_def)

lemma dec_value_dec [simp]: "dec_value (dec n) = n"
proof (induction n rule: dec.induct)
  case (1 n)
  show ?case
  proof (cases "n < 10")
    case True
    then show ?thesis by (simp add: dec.simps [of n] dec_value_def)
  next
    case False
    with 1 have "dec_value (dec (n div 10)) = n div 10" by simp
    with False show ?thesis by (simp add: dec.simps [of n] dec_value_append_digit)
  qed
qed

lemma dec_inj: "dec m = dec n \<longleftrightarrow> m = n"
  by (metis dec_value_dec)

lemma dec_value_zeros [simp]: "dec_value (replicate k (CHR ''0'') @ s) = dec_value s"
  by (induction k) (simp_all add: dec_value_def digit_value_def)

lemma not_is_digit [simp]: "\<not> is_digit (CHR '':'')" "\<not> is_digit (CHR ''.'')" "\<not> is_digit (CHR '';'')"
    "\<not> is_digit (CHR ''/'')" "\<not> is_digit (CHR ''-'')" "is_digit (CHR ''0'')"
  by (simp_all add: is_digit_def)

lemma dec_no_char: "\<not> is_digit c \<Longrightarrow> c \<notin> set (dec n)"
  using dec_is_digit by blast

section \<open>Little-endian integers\<close>

text \<open>
  The byte image of an unsigned integer, as \<open>reinterpret_cast<const char*>\<close> sees it on the
  little-endian machines the project targets.
\<close>

fun le_bytes :: "nat \<Rightarrow> nat \<Rightarrow> char list" where
  "le_bytes 0 n = []"
| "le_bytes (Suc k) n = char_of (n mod 256) # le_bytes k (n div 256)"

fun le_value :: "char list \<Rightarrow> nat" where
  "le_value [] = 0"
| "le_value (c # cs) = of_char c + 256 * le_value cs"

lemma length_le_bytes [simp]: "length (le_bytes k n) = k"
  by (induction k n rule: le_bytes.induct) auto

lemma le_value_le_bytes: "le_value (le_bytes k n) = n mod 256 ^ k"
  by (induction k n rule: le_bytes.induct) (simp_all add: mod_mult2_eq)

definition u32_bytes :: "u32 \<Rightarrow> char list" where
  "u32_bytes w = le_bytes 4 (unat w)"

definition u32_value :: "char list \<Rightarrow> u32" where
  "u32_value cs = word_of_nat (le_value cs)"

lemma length_u32_bytes [simp]: "length (u32_bytes w) = 4"
  by (simp add: u32_bytes_def)

lemma u32_value_bytes [simp]: "u32_value (u32_bytes w) = w"
proof -
  have "unat w < 256 ^ 4" using unsigned_less [of w] by simp
  then show ?thesis by (simp add: u32_bytes_def u32_value_def le_value_le_bytes)
qed

section \<open>Fixed-width integers\<close>

lemma unat_u32_of_nat [simp]: "n < 2 ^ 32 \<Longrightarrow> unat (word_of_nat n :: u32) = n"
  by (simp add: unat_of_nat)

lemma unat_u64_of_nat [simp]: "n < 2 ^ 64 \<Longrightarrow> unat (word_of_nat n :: u64) = n"
  by (simp add: unat_of_nat)

lemma sint_u64_of_nat: "n < 2 ^ 63 \<Longrightarrow> \<not> sint (word_of_nat n :: u64) < 0"
  by (simp add: sint_uint unsigned_of_nat take_bit_nat_eq_self signed_take_bit_nonnegative_iff
      not_less bit_iff_odd div_pos_pos_trivial)

lemma u64_less_Suc: "(x :: u64) < - 1 \<Longrightarrow> x < x + 1"
  by (simp add: word_less_nat_alt unat_word_ariths unsigned_minus_1_eq_mask mask_eq_exp_minus_1)

section \<open>Prefixes and the lexicographic order\<close>

lemma prefix_le: "prefix p (k :: string) \<Longrightarrow> p \<le> k"
proof (induction p arbitrary: k)
  case (Cons c p)
  then show ?case by (cases k) auto
qed simp

text \<open>
  The keys with a prefix are contiguous: they start at the prefix, and after the first
  key past it that lacks the prefix there is no other.
\<close>

lemma prefix_interval:
  "p \<le> k \<Longrightarrow> \<not> prefix p (k :: string) \<Longrightarrow> k \<le> k' \<Longrightarrow> \<not> prefix p k'"
proof (induction p arbitrary: k k')
  case (Cons c p)
  then show ?case
    by (cases k; cases k') auto
qed simp

lemma take_prefix_iff: "take (length p) k = p \<longleftrightarrow> prefix p k"
  by (metis append_eq_conv_conj prefix_def append_take_drop_id)

section \<open>Runs of bounded length\<close>

lemma bounded_run_stops:
  assumes "\<And>k y. (R ^^ k) x y \<Longrightarrow> k \<le> N"
  shows "\<exists>k y. (R ^^ k) x y \<and> (\<forall>z. \<not> R y z)"
proof (rule ccontr)
  assume "\<not> ?thesis"
  then have go: "\<exists>z. R y z" if "(R ^^ k) x y" for k y using that by blast
  have "\<exists>y. (R ^^ k) x y" for k
  proof (induction k)
    case (Suc k)
    then obtain y where "(R ^^ k) x y" by blast
    with go [OF this] show ?case by auto
  qed auto
  then obtain y where "(R ^^ Suc N) x y" by blast
  from assms [OF this] show False by simp
qed

end
