(* ===== verification/Kv_Levels.thy ===== *)
theory Kv_Levels
  imports Lsm_Prelude
begin

text \<open>
  The interface between the layers of the LSM tree and the code that searches them.
  A level (a memtable, an indexed SSTable) answers a point lookup; the store and the
  SSTable manager search a list of levels from the newest to the oldest and stop at the
  first hit. The locale states the contract of one level once and derives what the search
  over many of them returns; Memtable, Sst_Manager and Store_Native interpret it.
\<close>

section \<open>Searching levels, newest first\<close>

fun search_levels :: "('l \<Rightarrow> 'k \<Rightarrow> 'v option) \<Rightarrow> 'l list \<Rightarrow> 'k \<Rightarrow> 'v option" where
  "search_levels look [] k = None"
| "search_levels look (l # ls) k =
     (case look l k of Some v \<Rightarrow> Some v | None \<Rightarrow> search_levels look ls k)"

fun merge_levels :: "('l \<Rightarrow> 'k \<rightharpoonup> 'v) \<Rightarrow> 'l list \<Rightarrow> 'k \<rightharpoonup> 'v" where
  "merge_levels content [] = Map.empty"
| "merge_levels content (l # ls) = merge_levels content ls ++ content l"

lemma merge_levels_append:
  "merge_levels content (ls @ ls') = merge_levels content ls' ++ merge_levels content ls"
  by (induction ls) simp_all

lemma search_levels_append:
  "search_levels look (ls @ ls') k =
     (case search_levels look ls k of Some v \<Rightarrow> Some v | None \<Rightarrow> search_levels look ls' k)"
  by (induction ls) (simp_all split: option.split)

lemma search_levels_cong:
  "(\<And>l. l \<in> set ls \<Longrightarrow> look l k = look' l k) \<Longrightarrow> search_levels look ls k = search_levels look' ls k"
  by (induction ls) (auto split: option.splits)

locale kv_level =
  fixes look :: "'l \<Rightarrow> 'k \<Rightarrow> 'v option"
    and content :: "'l \<Rightarrow> 'k \<rightharpoonup> 'v"
    and ok :: "'l \<Rightarrow> bool"
  assumes look_content: "ok l \<Longrightarrow> look l k = content l k"
begin

lemma search_content:
  "\<forall>l \<in> set ls. ok l \<Longrightarrow> search_levels look ls k = merge_levels content ls k"
  by (induction ls) (auto simp: look_content map_add_def split: option.split)

lemma search_newest_wins:
  assumes "ok l" and "content l k = Some v"
  shows "search_levels look (l # ls) k = Some v"
  using assms by (simp add: look_content)

lemma search_miss:
  "\<forall>l \<in> set ls. ok l \<and> content l k = None \<Longrightarrow> search_levels look ls k = None"
  by (induction ls) (auto simp: look_content)

text \<open>A level that knows nothing of a key can be dropped or inserted anywhere.\<close>

lemma search_skip:
  assumes "ok l" and "content l k = None"
  shows "search_levels look (ls @ l # ls') k = search_levels look (ls @ ls') k"
  using assms by (simp add: search_levels_append look_content split: option.split)

end

section \<open>Prefix scans over levels\<close>

text \<open>
  A scan accumulates in two containers, as the code does: a \<open>std::map\<close> of live results
  and a \<open>std::set\<close> of deleted keys. Read together they are one partial map, in which a
  deleted key carries the tombstone.
\<close>

definition MEMTABLE_TOMBSTONE :: val where
  "MEMTABLE_TOMBSTONE = ''__LSM_TOMBSTONE_v1__''"

type_synonym scan_state = "(key, val) omap \<times> key set"

definition scan_view :: "scan_state \<Rightarrow> key \<rightharpoonup> val" where
  "scan_view st = (\<lambda>k. if k \<in> snd st then Some MEMTABLE_TOMBSTONE else map_of (fst st) k)"

definition scan_ok :: "scan_state \<Rightarrow> bool" where
  "scan_ok st \<longleftrightarrow> omap_ok (fst st)
     \<and> (\<forall>e \<in> set (fst st). fst e \<notin> snd st \<and> snd e \<noteq> MEMTABLE_TOMBSTONE)"

lemma scan_ok_init [simp]: "scan_ok ([], {})"
  by (simp add: scan_ok_def)

lemma scan_view_init [simp]: "scan_view ([], {}) = Map.empty"
  by (simp add: scan_view_def)

definition with_prefix :: "string \<Rightarrow> key set" where
  "with_prefix p = {k. prefix p k}"

text \<open>The live entries of a map: those that are not deleted.\<close>

definition live :: "(key \<rightharpoonup> val) \<Rightarrow> key \<rightharpoonup> val" where
  "live m = (\<lambda>k. if m k = Some MEMTABLE_TOMBSTONE then None else m k)"

lemma scan_view_live:
  assumes "scan_ok st"
  shows "map_of (fst st) = live (scan_view st)"
proof
  fix k
  have "map_of (fst st) k = None" if "k \<in> snd st"
    using assms that by (auto simp: scan_ok_def map_of_eq_None_iff)
  moreover have "map_of (fst st) k \<noteq> Some MEMTABLE_TOMBSTONE"
    using assms by (auto simp: scan_ok_def dest!: map_of_SomeD)
  ultimately show "map_of (fst st) k = live (scan_view st) k"
    by (simp add: live_def scan_view_def)
qed

lemma live_put [simp]: "v \<noteq> MEMTABLE_TOMBSTONE \<Longrightarrow> live (m(k \<mapsto> v)) = (live m)(k \<mapsto> v)"
  by (auto simp: live_def)

lemma live_del [simp]: "live (m(k \<mapsto> MEMTABLE_TOMBSTONE)) = (live m)(k := None)"
  by (auto simp: live_def)

lemma live_empty [simp]: "live Map.empty = Map.empty"
  by (simp add: live_def)

end
