(* ===== verification/Memtable.thy ===== *)
theory Memtable
  imports Kv_Levels
begin

text \<open>
  The in-memory table of \<open>lib/manager/store/native/memtable.cpp\<close>: an append-only vector of
  key/value pairs with a running size. A deletion is the value \<open>MEMTABLE_TOMBSTONE\<close>.
  The functional content of a memtable is \<open>mt_map\<close>, where the youngest entry of a key
  wins; the lemmas relate every operation to it.
\<close>

section \<open>State and operations\<close>

record memtable =
  mt_data :: "(key \<times> val) list"
  mt_size_bytes :: u64

definition mt_new :: memtable where
  "mt_new = \<lparr>mt_data = [], mt_size_bytes = 0\<rparr>"

text \<open>\<open>Memtable::add\<close>: the size counter is a \<open>size_t\<close> and wraps.\<close>

definition mt_add :: "key \<Rightarrow> val \<Rightarrow> memtable \<Rightarrow> memtable" where
  "mt_add k v m = m\<lparr>mt_data := mt_data m @ [(k, v)],
     mt_size_bytes := mt_size_bytes m + (word_of_nat (length k) + word_of_nat (length v))\<rparr>"

text \<open>\<open>Memtable::get\<close>: the loop over \<open>rbegin() .. rend()\<close>, stopping at the first hit.\<close>

fun find_entry :: "(key \<times> val) list \<Rightarrow> key \<Rightarrow> val option" where
  "find_entry [] k = None"
| "find_entry ((k', v) # es) k = (if k' = k then Some v else find_entry es k)"

definition mt_get :: "memtable \<Rightarrow> key \<Rightarrow> val option" where
  "mt_get m k = find_entry (rev (mt_data m)) k"

text \<open>\<open>Memtable::scan\<close>: the forward loop over the entries.\<close>

fun scan_entries :: "string \<Rightarrow> (key \<times> val) list \<Rightarrow> scan_state \<Rightarrow> scan_state" where
  "scan_entries p [] st = st"
| "scan_entries p ((k, v) # es) (results, deleted) =
     scan_entries p es
       (if take (length p) k = p then
          (if v = MEMTABLE_TOMBSTONE then (omap_erase k results, insert k deleted)
           else (omap_put k v results, deleted - {k}))
        else (results, deleted))"

definition mt_scan :: "string \<Rightarrow> memtable \<Rightarrow> scan_state \<Rightarrow> scan_state" where
  "mt_scan p m st = scan_entries p (mt_data m) st"

definition mt_sizeBytes :: "memtable \<Rightarrow> u64" where
  "mt_sizeBytes m = mt_size_bytes m"

definition mt_empty :: "memtable \<Rightarrow> bool" where
  "mt_empty m = (mt_data m = [])"

definition mt_count :: "memtable \<Rightarrow> nat" where
  "mt_count m = length (mt_data m)"

definition mt_getData :: "memtable \<Rightarrow> (key \<times> val) list" where
  "mt_getData m = mt_data m"

lemmas mt_defs [lsm_defs] = mt_new_def mt_add_def mt_sizeBytes_def mt_empty_def mt_count_def
  mt_getData_def

section \<open>The content of a memtable\<close>

definition entries_map :: "(key \<times> val) list \<Rightarrow> key \<rightharpoonup> val" where
  "entries_map es = map_of (rev es)"

definition mt_map :: "memtable \<Rightarrow> key \<rightharpoonup> val" where
  "mt_map m = entries_map (mt_data m)"

lemma find_entry_map_of: "find_entry es k = map_of es k"
  by (induction es k rule: find_entry.induct) auto

lemma entries_map_Nil [simp]: "entries_map [] = Map.empty"
  by (simp add: entries_map_def)

lemma entries_map_snoc [simp]: "entries_map (es @ [(k, v)]) = (entries_map es)(k \<mapsto> v)"
  by (simp add: entries_map_def)

lemma entries_map_Cons [simp]:
  "entries_map ((k, v) # es) = [k \<mapsto> v] ++ entries_map es"
  by (simp add: entries_map_def map_add_def fun_eq_iff split: option.split)

lemma mt_get_map: "mt_get m k = mt_map m k"
  by (simp add: mt_get_def mt_map_def entries_map_def find_entry_map_of)

lemma mt_map_new [simp]: "mt_map mt_new = Map.empty"
  by (simp add: mt_map_def mt_new_def)

lemma mt_map_add [simp]: "mt_map (mt_add k v m) = (mt_map m)(k \<mapsto> v)"
  by (simp add: mt_map_def mt_add_def)

lemma mt_map_empty: "mt_empty m \<Longrightarrow> mt_map m = Map.empty"
  by (simp add: mt_map_def mt_empty_def)

interpretation memtable_level: kv_level mt_get mt_map "\<lambda>_. True"
  by unfold_locales (rule mt_get_map)

section \<open>The size counter\<close>

definition entry_bytes :: "key \<times> val \<Rightarrow> nat" where
  "entry_bytes e = length (fst e) + length (snd e)"

definition mt_ok :: "memtable \<Rightarrow> bool" where
  "mt_ok m \<longleftrightarrow> mt_size_bytes m = word_of_nat (sum_list (map entry_bytes (mt_data m)))"

lemma mt_ok_new [simp]: "mt_ok mt_new"
  by (simp add: mt_ok_def mt_new_def)

lemma mt_ok_add [simp]: "mt_ok m \<Longrightarrow> mt_ok (mt_add k v m)"
  by (simp add: mt_ok_def mt_add_def entry_bytes_def)

section \<open>The prefix scan\<close>

lemma set_omap_erase: "set (omap_erase k r) \<subseteq> set r"
  by (induction k r rule: omap_erase.induct) auto

lemma omap_erase_removes: "omap_ok r \<Longrightarrow> e \<in> set (omap_erase k r) \<Longrightarrow> fst e \<noteq> k"
  by (induction k r rule: omap_erase.induct) (auto split: if_splits)

lemma scan_ok_erase: "scan_ok (r, d) \<Longrightarrow> scan_ok (omap_erase k r, insert k d)"
  using set_omap_erase [of k r] omap_erase_removes [of r _ k]
  by (auto simp: scan_ok_def)

lemma set_omap_put: "set (omap_put k v r) \<subseteq> insert (k, v) (set r)"
  by (induction k v r rule: omap_put.induct) auto

lemma scan_ok_put:
  "scan_ok (r, d) \<Longrightarrow> v \<noteq> MEMTABLE_TOMBSTONE \<Longrightarrow> scan_ok (omap_put k v r, d - {k})"
  using set_omap_put [of k v r] by (auto simp: scan_ok_def)

lemma scan_view_erase:
  "scan_ok (r, d) \<Longrightarrow>
    scan_view (omap_erase k r, insert k d) = (scan_view (r, d))(k \<mapsto> MEMTABLE_TOMBSTONE)"
  by (auto simp: scan_view_def scan_ok_def fun_eq_iff)

lemma scan_view_put:
  "scan_view (omap_put k v r, d - {k}) = (scan_view (r, d))(k \<mapsto> v)"
  by (auto simp: scan_view_def fun_eq_iff)

lemma scan_entries_spec:
  "scan_ok st \<Longrightarrow> scan_ok (scan_entries p es st)
     \<and> scan_view (scan_entries p es st) = scan_view st ++ (entries_map es |` with_prefix p)"
proof (induction p es st rule: scan_entries.induct)
  case (1 p st)
  then show ?case by simp
next
  case (2 p k v es r d)
  let ?st = "if take (length p) k = p then
       (if v = MEMTABLE_TOMBSTONE then (omap_erase k r, insert k d)
        else (omap_put k v r, d - {k}))
     else (r, d)"
  have ok: "scan_ok ?st" using 2 by (simp add: scan_ok_erase scan_ok_put)
  have view: "scan_view ?st =
      (if prefix p k then (scan_view (r, d))(k \<mapsto> v) else scan_view (r, d))"
    using "2.prems" by (simp add: scan_view_erase scan_view_put take_prefix_iff)
  have "(entries_map ((k, v) # es) |` with_prefix p) =
      (if prefix p k then [k \<mapsto> v] else Map.empty) ++ (entries_map es |` with_prefix p)"
    by (auto simp: restrict_map_def with_prefix_def map_add_def fun_eq_iff split: option.split)
  with "2.IH" ok view show ?case by (auto simp: map_add_def fun_eq_iff split: option.split)
qed

lemma scan_ok_mt_scan [simp]: "scan_ok st \<Longrightarrow> scan_ok (mt_scan p m st)"
  by (simp add: mt_scan_def scan_entries_spec)

lemma scan_view_mt_scan:
  "scan_ok st \<Longrightarrow> scan_view (mt_scan p m st) = scan_view st ++ (mt_map m |` with_prefix p)"
  by (simp add: mt_scan_def mt_map_def scan_entries_spec)

section \<open>Properties\<close>

lemma memtable_of_entries:
  "mt_data (foldl (\<lambda>m e. mt_add (fst e) (snd e) m) m0 es) = mt_data m0 @ es"
  "mt_ok m0 \<Longrightarrow> mt_ok (foldl (\<lambda>m e. mt_add (fst e) (snd e) m) m0 es)"
proof -
  show "mt_data (foldl (\<lambda>m e. mt_add (fst e) (snd e) m) m0 es) = mt_data m0 @ es"
    by (induction es arbitrary: m0) (simp_all add: mt_add_def)
  show "mt_ok m0 \<Longrightarrow> mt_ok (foldl (\<lambda>m e. mt_add (fst e) (snd e) m) m0 es)"
    by (induction es arbitrary: m0) simp_all
qed

text \<open>
  C28. A memtable answers the last value added for a key, keeps its entries in order of arrival, and its
  size is the sum of the lengths of all keys and values, modulo 2^64.
\<close>

theorem memtable_last_write:
  "let m = foldl (\<lambda>m e. mt_add (fst e) (snd e) m) mt_new es
   in mt_get m k = map_of (rev es) k \<and> mt_getData m = es \<and> mt_count m = length es
     \<and> mt_sizeBytes m = word_of_nat (sum_list (map entry_bytes es))"
  using memtable_of_entries(2) [OF mt_ok_new, of es]
  by (simp add: Let_def mt_get_map mt_map_def entries_map_def mt_getData_def mt_count_def mt_sizeBytes_def
      mt_ok_def memtable_of_entries(1)) (simp add: mt_new_def)

text \<open>
  A scan into an empty result holds, in key order, the live entries under the prefix, and the deleted
  keys apart.
\<close>

theorem memtable_scan:
  "case mt_scan p m ([], {}) of (results, deleted) \<Rightarrow>
     omap_ok results \<and> map_of results = live (mt_map m) |` with_prefix p
     \<and> deleted = {k \<in> with_prefix p. mt_map m k = Some MEMTABLE_TOMBSTONE}"
proof -
  obtain r d where rd: "mt_scan p m ([], {}) = (r, d)" by (cases "mt_scan p m ([], {})")
  have ok: "scan_ok (r, d)" and view: "scan_view (r, d) = mt_map m |` with_prefix p"
    using scan_ok_mt_scan [of "([], {})" p m] scan_view_mt_scan [of "([], {})" p m] by (simp_all add: rd)
  have "map_of r = live (mt_map m) |` with_prefix p"
    using scan_view_live [OF ok] by (auto simp: view live_def restrict_map_def fun_eq_iff)
  moreover have "k \<in> d \<longleftrightarrow> (mt_map m |` with_prefix p) k = Some MEMTABLE_TOMBSTONE" for k
  proof -
    have "k \<notin> d \<Longrightarrow> map_of r k \<noteq> Some MEMTABLE_TOMBSTONE"
      using ok by (fastforce simp: scan_ok_def dest: map_of_SomeD)
    then show ?thesis unfolding view [symmetric] by (auto simp: scan_view_def)
  qed
  ultimately show ?thesis using ok by (auto simp: rd scan_ok_def restrict_map_def split: if_splits)
qed

end
