(* ===== verification/Std_Io.thy ===== *)
theory Std_Io
  imports Lsm_Prelude
begin

text \<open>
  The part of the C++ standard library's file interface that the native store uses:
  a file system of directories and files, \<open>std::ifstream\<close> with its position and state
  bits (\<open>read\<close>, \<open>seekg\<close>, \<open>peek\<close>, \<open>tellg\<close>), \<open>std::ofstream\<close> (\<open>write\<close>, \<open>tellp\<close>), and
  \<open>std::filesystem\<close> (\<open>path /\<close>, \<open>directory_iterator\<close>, \<open>create_directories\<close>,
  \<open>remove_all\<close>). Files are listed in the order the directory iterator yields them, which
  the standard leaves open; nothing below depends on it.

  Writes reach the file system at once: the code flushes a stream before it publishes the
  file, so no reader sees a state in between.
\<close>

section \<open>The file system\<close>

record fs =
  fs_dirs :: "string list"
  fs_files :: "(string \<times> char list) list"

definition fs_empty :: fs where
  "fs_empty = \<lparr>fs_dirs = [], fs_files = []\<rparr>"

definition fs_read :: "fs \<Rightarrow> string \<Rightarrow> char list option" where
  "fs_read f p = map_of (fs_files f) p"

fun file_put :: "string \<Rightarrow> char list \<Rightarrow> (string \<times> char list) list \<Rightarrow> (string \<times> char list) list" where
  "file_put p d [] = [(p, d)]"
| "file_put p d ((q, e) # fl) = (if q = p then (p, d) # fl else (q, e) # file_put p d fl)"

definition fs_write :: "string \<Rightarrow> char list \<Rightarrow> fs \<Rightarrow> fs" where
  "fs_write p d f = f\<lparr>fs_files := file_put p d (fs_files f)\<rparr>"

definition fs_ok :: "fs \<Rightarrow> bool" where
  "fs_ok f = distinct (map fst (fs_files f))"

text \<open>Files are smaller than the largest stream offset.\<close>

definition fs_small :: "fs \<Rightarrow> bool" where
  "fs_small f \<longleftrightarrow> (\<forall>q c. fs_read f q = Some c \<longrightarrow> length c < 2 ^ 63)"

lemma map_of_file_put [simp]: "map_of (file_put p d fl) = (map_of fl)(p \<mapsto> d)"
  by (induction p d fl rule: file_put.induct) (auto simp: fun_eq_iff)

lemma fs_read_write [simp]: "fs_read (fs_write p d f) q = (if q = p then Some d else fs_read f q)"
  by (simp add: fs_read_def fs_write_def)

lemma keys_file_put: "fst ` set (file_put p d fl) = insert p (fst ` set fl)"
  by (induction p d fl rule: file_put.induct) auto

lemma fs_ok_write [simp]: "fs_ok f \<Longrightarrow> fs_ok (fs_write p d f)"
proof -
  have "distinct (map fst fl) \<Longrightarrow> distinct (map fst (file_put p d fl))" for fl
    by (induction p d fl rule: file_put.induct) (use keys_file_put in fastforce)+
  then show "fs_ok f \<Longrightarrow> fs_ok (fs_write p d f)" by (simp add: fs_ok_def fs_write_def)
qed

lemma fs_small_update:
  assumes "fs_small f" and "\<And>q. q \<noteq> p \<Longrightarrow> fs_read f' q = fs_read f q"
    and "\<And>c. fs_read f' p = Some c \<Longrightarrow> length c < 2 ^ 63"
  shows "fs_small f'"
proof -
  have "length c < 2 ^ 63" if "fs_read f' q = Some c" for q c
    using assms that by (cases "q = p") (auto simp: fs_small_def)
  then show ?thesis by (simp add: fs_small_def)
qed

lemma fs_dirs_write [simp]: "fs_dirs (fs_write p d f) = fs_dirs f"
  by (simp add: fs_write_def)

text \<open>\<open>std::filesystem::path::operator/\<close> on a directory and a relative name.\<close>

definition path_dir :: "string \<Rightarrow> string" where
  "path_dir d = (if d = [] \<or> last d = CHR ''/'' then d else d @ ''/'')"

definition path_join :: "string \<Rightarrow> string \<Rightarrow> string" where
  "path_join d n = path_dir d @ n"

lemma path_join_inj [simp]: "path_join d m = path_join d n \<longleftrightarrow> m = n"
  by (simp add: path_join_def)

definition fs_exists :: "string \<Rightarrow> fs \<Rightarrow> bool" where
  "fs_exists p f \<longleftrightarrow> p \<in> set (fs_dirs f) \<or> fs_read f p \<noteq> None"

definition create_directories :: "string \<Rightarrow> fs \<Rightarrow> fs" where
  "create_directories d f = (if d \<in> set (fs_dirs f) then f else f\<lparr>fs_dirs := d # fs_dirs f\<rparr>)"

definition remove_all :: "string \<Rightarrow> fs \<Rightarrow> fs" where
  "remove_all d f = f\<lparr>
     fs_dirs := filter (\<lambda>q. q \<noteq> d \<and> \<not> prefix (path_dir d) q) (fs_dirs f),
     fs_files := filter (\<lambda>e. fst e \<noteq> d \<and> \<not> prefix (path_dir d) (fst e)) (fs_files f)\<rparr>"

text \<open>\<open>directory_iterator\<close>: the (file name, path) pairs of the files directly in \<open>d\<close>.\<close>

definition in_dir :: "string \<Rightarrow> string \<Rightarrow> bool" where
  "in_dir d p \<longleftrightarrow> take (length (path_dir d)) p = path_dir d
     \<and> drop (length (path_dir d)) p \<noteq> []
     \<and> CHR ''/'' \<notin> set (drop (length (path_dir d)) p)"

definition dir_entries :: "string \<Rightarrow> fs \<Rightarrow> (string \<times> string) list" where
  "dir_entries d f = map (\<lambda>e. (drop (length (path_dir d)) (fst e), fst e))
     (filter (\<lambda>e. in_dir d (fst e)) (fs_files f))"

lemma in_dir_join: "in_dir d (path_join d n) \<longleftrightarrow> n \<noteq> [] \<and> CHR ''/'' \<notin> set n"
  by (simp add: in_dir_def path_join_def)

lemma in_dirE: "in_dir d p \<Longrightarrow> \<exists>n. p = path_join d n \<and> n \<noteq> [] \<and> CHR ''/'' \<notin> set n"
  by (metis append_take_drop_id in_dir_def path_join_def)

section \<open>Input streams\<close>

record istream =
  is_data :: "char list"
  is_pos :: nat
  is_eof :: bool
  is_fail :: bool

definition ifs_open :: "fs \<Rightarrow> string \<Rightarrow> istream" where
  "ifs_open f p = (case fs_read f p of
       None \<Rightarrow> \<lparr>is_data = [], is_pos = 0, is_eof = False, is_fail = True\<rparr>
     | Some d \<Rightarrow> \<lparr>is_data = d, is_pos = 0, is_eof = False, is_fail = False\<rparr>)"

definition ifs_good :: "istream \<Rightarrow> bool" where
  "ifs_good s \<longleftrightarrow> \<not> is_eof s \<and> \<not> is_fail s"

definition ifs_read :: "nat \<Rightarrow> istream \<Rightarrow> char list \<times> istream" where
  "ifs_read n s =
     (if \<not> ifs_good s then ([], s\<lparr>is_fail := True\<rparr>)
      else let d = take n (drop (is_pos s) (is_data s))
           in if length d < n
              then (d, s\<lparr>is_pos := is_pos s + length d, is_eof := True, is_fail := True\<rparr>)
              else (d, s\<lparr>is_pos := is_pos s + n\<rparr>))"

text \<open>The position argument is an unsigned 64-bit value converted to the signed \<open>streamoff\<close>.\<close>

definition ifs_seekg :: "u64 \<Rightarrow> istream \<Rightarrow> istream" where
  "ifs_seekg off s =
     (if is_fail s then s\<lparr>is_eof := False\<rparr>
      else if sint off < 0 then s\<lparr>is_eof := False, is_fail := True\<rparr>
      else s\<lparr>is_eof := False, is_pos := unat off\<rparr>)"

definition ifs_seek_cur :: "u32 \<Rightarrow> istream \<Rightarrow> istream" where
  "ifs_seek_cur n s =
     (if is_fail s then s\<lparr>is_eof := False\<rparr>
      else s\<lparr>is_eof := False, is_pos := is_pos s + unat n\<rparr>)"

definition ifs_peek :: "istream \<Rightarrow> char option \<times> istream" where
  "ifs_peek s =
     (if \<not> ifs_good s then (None, s\<lparr>is_fail := True\<rparr>)
      else if is_pos s < length (is_data s) then (Some (is_data s ! is_pos s), s)
      else (None, s\<lparr>is_eof := True\<rparr>))"

definition ifs_tellg :: "istream \<Rightarrow> u64" where
  "ifs_tellg s = (if is_fail s then - 1 else word_of_nat (is_pos s))"

lemmas ifs_defs [lsm_defs] = ifs_open_def ifs_good_def ifs_seekg_def ifs_seek_cur_def
  ifs_peek_def ifs_tellg_def

text \<open>A read that finds the bytes it wants at the position.\<close>

lemma ifs_read_exact:
  assumes "ifs_good s" and "is_data s = pre @ d @ post" and "is_pos s = length pre"
  shows "ifs_read (length d) s = (d, s\<lparr>is_pos := is_pos s + length d\<rparr>)"
  using assms by (simp add: ifs_read_def)

section \<open>Output streams\<close>

record ofstream =
  os_path :: string
  os_pos :: nat
  os_is_open :: bool
  os_good :: bool

text \<open>Overwrite from a position on; a gap past the end reads as zero bytes.\<close>

definition overwrite :: "nat \<Rightarrow> char list \<Rightarrow> char list \<Rightarrow> char list" where
  "overwrite pos d c = take pos c @ replicate (pos - length c) (char_of (0::nat)) @ d @ drop (pos + length d) c"

definition os_write :: "char list \<Rightarrow> ofstream \<Rightarrow> fs \<Rightarrow> ofstream \<times> fs" where
  "os_write d os f =
     (if os_is_open os \<and> os_good os
      then (os\<lparr>os_pos := os_pos os + length d\<rparr>,
            fs_write (os_path os)
              (overwrite (os_pos os) d (case fs_read f (os_path os) of None \<Rightarrow> [] | Some c \<Rightarrow> c)) f)
      else (os, f))"

definition os_tellp :: "ofstream \<Rightarrow> u64" where
  "os_tellp os = (if os_is_open os \<and> os_good os then word_of_nat (os_pos os) else - 1)"

definition os_close :: "ofstream \<Rightarrow> ofstream" where
  "os_close os = os\<lparr>os_is_open := False\<rparr>"

lemma overwrite_append:
  "overwrite (length c) d (c @ e) = c @ d @ drop (length d) e"
  by (simp add: overwrite_def)

end
