(* ===== verification/Sst_Index.thy ===== *)
theory Sst_Index
  imports Kv_Levels
begin

text \<open>
  The in-memory index of one SSTable: the vector of (key, file offset) pairs that
  \<open>flushMemtable\<close> and \<open>recoverState\<close> of \<open>sstable_manager.cpp\<close> build with \<open>std::sort\<close> and
  \<open>std::unique\<close>, and that \<open>get\<close> and \<open>scan\<close> search with \<open>std::lower_bound\<close>.
  The lemmas show that the built index is strictly sorted, that it maps a key to its
  largest offset (its last write in the file), and that the binary search finds exactly
  the keys it holds.
\<close>

section \<open>The entries and their order\<close>

type_synonym offsets = "(key \<times> u64) list"

record l0_index =
  l0_path :: string
  l0_offsets :: offsets

text \<open>The comparator passed to \<open>std::sort\<close>: key ascending, then offset descending.\<close>

definition offset_before :: "key \<times> u64 \<Rightarrow> key \<times> u64 \<Rightarrow> bool" where
  "offset_before a b = (if fst a \<noteq> fst b then fst a < fst b else snd a > snd b)"

definition offset_rank :: "key \<times> u64 \<Rightarrow> key \<times> int" where
  "offset_rank a = (fst a, - uint (snd a))"

text \<open>The comparator is the strict order of a rank, so sorting by the rank is \<open>std::sort\<close>.\<close>

lemma offset_before_rank: "offset_before a b \<longleftrightarrow> offset_rank a < offset_rank b"
  by (auto simp: offset_before_def offset_rank_def less_prod_def word_less_def)

lemma offset_rank_inj: "inj offset_rank"
  by (rule injI) (simp add: offset_rank_def prod_eq_iff word_eq_iff_unsigned [where 'a = int])

definition sort_offsets :: "offsets \<Rightarrow> offsets" where
  "sort_offsets xs = sort_key offset_rank xs"

text \<open>\<open>std::unique\<close> with equality of keys, then \<open>erase\<close>: the first of each run stays.\<close>

fun unique_by_key :: "offsets \<Rightarrow> offsets" where
  "unique_by_key [] = []"
| "unique_by_key [e] = [e]"
| "unique_by_key (e # f # xs) =
     (if fst e = fst f then unique_by_key (e # xs) else e # unique_by_key (f # xs))"

definition build_index :: "offsets \<Rightarrow> offsets" where
  "build_index xs = unique_by_key (sort_offsets xs)"

section \<open>Binary search\<close>

text \<open>
  \<open>std::lower_bound\<close> over a random-access range: halve the range \<open>[first, first + len)\<close>
  on the comparison of the middle element with the sought value.
\<close>

function lower_bound_loop :: "('a \<Rightarrow> bool) \<Rightarrow> 'a list \<Rightarrow> nat \<Rightarrow> nat \<Rightarrow> nat" where
  "lower_bound_loop lt xs first len =
     (if len = 0 then first
      else let half = len div 2; mid = first + half
           in if lt (xs ! mid) then lower_bound_loop lt xs (mid + 1) (len - half - 1)
              else lower_bound_loop lt xs first half)"
  by pat_completeness auto
termination
  by (relation "measure (\<lambda>(lt, xs, first, len). len)") auto

declare lower_bound_loop.simps [simp del]

definition lower_bound :: "offsets \<Rightarrow> key \<Rightarrow> nat" where
  "lower_bound xs k = lower_bound_loop (\<lambda>e. fst e < k) xs 0 (length xs)"

definition splits_at :: "('a \<Rightarrow> bool) \<Rightarrow> 'a list \<Rightarrow> nat \<Rightarrow> bool" where
  "splits_at lt xs r \<longleftrightarrow> r \<le> length xs \<and> (\<forall>i < r. lt (xs ! i))
     \<and> (\<forall>i. r \<le> i \<and> i < length xs \<longrightarrow> \<not> lt (xs ! i))"

lemma lower_bound_loop_spec:
  assumes "first + len \<le> length xs"
    and "\<And>i j. i < j \<Longrightarrow> j < length xs \<Longrightarrow> lt (xs ! j) \<Longrightarrow> lt (xs ! i)"
    and "\<And>i. i < first \<Longrightarrow> lt (xs ! i)"
    and "\<And>i. first + len \<le> i \<Longrightarrow> i < length xs \<Longrightarrow> \<not> lt (xs ! i)"
  shows "splits_at lt xs (lower_bound_loop lt xs first len)"
  using assms
proof (induction lt xs first len rule: lower_bound_loop.induct)
  case (1 lt xs first len)
  let ?half = "len div 2" and ?mid = "first + len div 2"
  note mono = "1.prems"(2)
  consider (empty) "len = 0" | (right) "len \<noteq> 0" "lt (xs ! ?mid)"
    | (left) "len \<noteq> 0" "\<not> lt (xs ! ?mid)"
    by blast
  then show ?case
  proof cases
    case empty
    with "1.prems" show ?thesis by (simp add: lower_bound_loop.simps splits_at_def)
  next
    case right
    then have m: "?mid < length xs" and e: "?mid + 1 + (len - ?half - 1) = first + len"
      using "1.prems"(1) by linarith+
    have "lt (xs ! i)" if "i < ?mid + 1" for i
      using that right(2) mono [of i ?mid] m by (cases "i = ?mid") auto
    with right "1.prems" e have "splits_at lt xs (lower_bound_loop lt xs (?mid + 1) (len - ?half - 1))"
      by (intro "1.IH"(1)) simp_all
    with right show ?thesis by (simp add: lower_bound_loop.simps [of lt xs first len] Let_def)
  next
    case left
    then have m: "?mid < length xs" using "1.prems"(1) by linarith
    have above: "\<not> lt (xs ! i)" if "?mid \<le> i" "i < length xs" for i
      using that left(2) mono [of ?mid i] by (cases "i = ?mid") auto
    have "splits_at lt xs (lower_bound_loop lt xs first ?half)"
      using m by (intro "1.IH"(2) [OF left(1) refl refl left(2) _ mono "1.prems"(3) above]) simp_all
    with left show ?thesis by (simp add: lower_bound_loop.simps [of lt xs first len] Let_def)
  qed
qed

definition index_ok :: "offsets \<Rightarrow> bool" where
  "index_ok xs = sorted_wrt (<) (map fst xs)"

lemma lower_bound_splits_at:
  assumes "index_ok xs"
  shows "splits_at (\<lambda>e. fst e < k) xs (lower_bound xs k)"
  unfolding lower_bound_def
proof (rule lower_bound_loop_spec)
  show "fst (xs ! i) < k" if "i < j" "j < length xs" "fst (xs ! j) < k" for i j
    using assms that by (auto simp: index_ok_def sorted_wrt_iff_nth_less intro: less_trans)
qed simp_all

lemma lower_bound_bound: "index_ok xs \<Longrightarrow> lower_bound xs k \<le> length xs"
  using lower_bound_splits_at by (auto simp: splits_at_def)

lemma lower_bound_below:
  assumes "index_ok xs" and "e \<in> set (take (lower_bound xs k) xs)"
  shows "fst e < k"
  using assms lower_bound_splits_at [OF assms(1), of k]
  unfolding splits_at_def in_set_conv_nth by auto

lemma lower_bound_above:
  assumes "index_ok xs" and "e \<in> set (drop (lower_bound xs k) xs)"
  shows "k \<le> fst e"
proof -
  from assms(2) obtain i where "i < length xs - lower_bound xs k"
      and "e = xs ! (lower_bound xs k + i)"
    by (auto simp: in_set_conv_nth)
  with lower_bound_splits_at [OF assms(1), of k] show ?thesis
    by (auto simp: splits_at_def not_less)
qed

text \<open>The lookup of \<open>SSTableManager::get\<close> in one index.\<close>

definition index_find :: "offsets \<Rightarrow> key \<Rightarrow> u64 option" where
  "index_find xs k =
     (let i = lower_bound xs k
      in if i < length xs \<and> fst (xs ! i) = k then Some (snd (xs ! i)) else None)"

lemma index_ok_Cons [simp]:
  "index_ok (e # xs) \<longleftrightarrow> (\<forall>f \<in> set xs. fst e < fst f) \<and> index_ok xs"
  by (auto simp: index_ok_def)

lemma index_find_map_of:
  assumes "index_ok xs"
  shows "index_find xs k = map_of xs k"
proof -
  let ?i = "lower_bound xs k"
  have below: "map_of (take ?i xs) k = None"
    using lower_bound_below [OF assms] by (fastforce simp: map_of_eq_None_iff)
  have "map_of xs k = map_of (take ?i xs @ drop ?i xs) k" by simp
  also have "\<dots> = map_of (drop ?i xs) k" using below
    by (simp only: map_of_append) (simp add: map_add_def split: option.split)
  also have "\<dots> = index_find xs k"
  proof (cases "?i < length xs")
    case True
    then have d: "drop ?i xs = xs ! ?i # drop (Suc ?i) xs" by (simp add: Cons_nth_drop_Suc)
    have "index_ok (drop ?i xs)"
      using assms by (simp add: index_ok_def drop_map [symmetric] sorted_wrt_drop)
    with d have later: "\<forall>f \<in> set (drop (Suc ?i) xs). fst (xs ! ?i) < fst f" by simp
    have "k \<le> fst (xs ! ?i)" using lower_bound_above [OF assms, of "xs ! ?i" k] d by simp
    with later have "map_of (drop (Suc ?i) xs) k = None" if "fst (xs ! ?i) \<noteq> k"
      using that by (fastforce simp: map_of_eq_None_iff)
    with True d show ?thesis by (cases "xs ! ?i") (auto simp: index_find_def Let_def)
  next
    case False
    then show ?thesis by (simp add: index_find_def Let_def)
  qed
  finally show ?thesis by simp
qed

section \<open>The built index\<close>

lemma set_unique_by_key: "set (unique_by_key xs) \<subseteq> set xs"
  by (induction xs rule: unique_by_key.induct) auto

lemma map_of_unique_by_key: "map_of (unique_by_key xs) = map_of xs"
  by (induction xs rule: unique_by_key.induct) (auto simp: fun_eq_iff)

lemma index_ok_unique_by_key: "sorted (map fst xs) \<Longrightarrow> index_ok (unique_by_key xs)"
proof (induction xs rule: unique_by_key.induct)
  case (3 e f xs)
  show ?case
  proof (cases "fst e = fst f")
    case True
    with 3 show ?thesis by simp
  next
    case False
    with "3.prems" have "\<forall>g \<in> set (f # xs). fst e < fst g" by fastforce
    with False 3 set_unique_by_key [of "f # xs"] show ?thesis by auto
  qed
qed (simp_all add: index_ok_def)

lemma set_sort_offsets [simp]: "set (sort_offsets xs) = set xs"
  by (simp add: sort_offsets_def)

lemma sorted_fst_sort_offsets: "sorted (map fst (sort_offsets xs))"
proof -
  have "sorted (map offset_rank (sort_offsets xs))" by (simp add: sort_offsets_def)
  then show ?thesis
    by (auto simp: sorted_map offset_rank_def elim!: sorted_wrt_mono_rel [rotated] split: if_splits)
qed

lemma index_ok_build [simp]: "index_ok (build_index xs)"
  by (simp add: build_index_def index_ok_unique_by_key sorted_fst_sort_offsets)

text \<open>
  In a list whose entries of one key come in descending offset order, a lookup finds the
  largest offset of the key.
\<close>

lemma map_of_descending:
  assumes "sorted_wrt (\<lambda>a b. fst a = fst b \<longrightarrow> snd b \<le> snd a) (xs :: offsets)"
  shows "map_of xs k = Some m \<longleftrightarrow> (k, m) \<in> set xs \<and> (\<forall>m'. (k, m') \<in> set xs \<longrightarrow> m' \<le> m)"
  using assms
proof (induction xs)
  case (Cons e xs)
  then show ?case by (cases e) (force intro: antisym)
qed simp

lemma sort_offsets_descending:
  "sorted_wrt (\<lambda>a b. fst a = fst b \<longrightarrow> snd b \<le> snd a) (sort_offsets xs)"
proof -
  have "sorted (map offset_rank (sort_offsets xs))" by (simp add: sort_offsets_def)
  then show ?thesis
    by (auto simp: sorted_map offset_rank_def word_le_def elim!: sorted_wrt_mono_rel [rotated]
        split: if_splits)
qed

lemma map_of_build_index:
  "map_of (build_index xs) k = Some m
     \<longleftrightarrow> (k, m) \<in> set xs \<and> (\<forall>m'. (k, m') \<in> set xs \<longrightarrow> m' \<le> m)"
  by (simp add: build_index_def map_of_unique_by_key map_of_descending [OF sort_offsets_descending])

text \<open>A file is written front to back, so the last write of a key has the largest offset.\<close>

lemma map_of_build_index_ascending:
  assumes "sorted_wrt (\<lambda>a b. snd a < snd b) xs"
  shows "map_of (build_index xs) = map_of (rev xs)"
proof -
  have "sorted_wrt (\<lambda>a b. fst a = fst b \<longrightarrow> snd b \<le> snd a) (rev xs)"
    using assms by (auto simp: sorted_wrt_rev elim!: sorted_wrt_mono_rel [rotated])
  then have "map_of (rev xs) k = Some m \<longleftrightarrow> map_of (build_index xs) k = Some m" for k m
    by (simp add: map_of_descending map_of_build_index)
  then show ?thesis by (metis (no_types, lifting) ext option.exhaust)
qed

text \<open>The order in which entries reach the index does not matter.\<close>

lemma build_index_perm: "mset xs = mset ys \<Longrightarrow> build_index xs = build_index ys"
  unfolding build_index_def sort_offsets_def
  by (rule arg_cong [where f = unique_by_key], rule sort_key_inj_key_eq)
    (auto intro: inj_on_subset [OF offset_rank_inj])

section \<open>The run of keys with a prefix\<close>

text \<open>
  \<open>SSTableManager::scan\<close> walks the index from \<open>lower_bound(prefix)\<close> up to the first key
  without the prefix.
\<close>

definition prefix_run :: "offsets \<Rightarrow> string \<Rightarrow> offsets" where
  "prefix_run xs p = takeWhile (\<lambda>e. take (length p) (fst e) = p) (drop (lower_bound xs p) xs)"

lemma takeWhile_prefix_filter:
  "index_ok xs \<Longrightarrow> \<forall>e \<in> set xs. p \<le> fst e \<Longrightarrow>
    takeWhile (\<lambda>e. prefix p (fst e)) xs = filter (\<lambda>e. prefix p (fst e)) xs"
proof (induction xs)
  case (Cons e xs)
  show ?case
  proof (cases "prefix p (fst e)")
    case False
    with Cons.prems have "\<not> prefix p (fst f)" if "f \<in> set xs" for f
      using that prefix_interval [of p "fst e" "fst f"] by (simp add: less_imp_le)
    with False show ?thesis by (simp add: filter_empty_conv)
  qed (use Cons in simp)
qed simp

lemma prefix_run_filter:
  assumes "index_ok xs"
  shows "prefix_run xs p = filter (\<lambda>e. prefix p (fst e)) xs"
proof -
  let ?i = "lower_bound xs p"
  have "filter (\<lambda>e. prefix p (fst e)) (take ?i xs) = []"
    using lower_bound_below [OF assms] prefix_le
    by (auto simp: filter_empty_conv) (metis fst_conv leD)
  then have "filter (\<lambda>e. prefix p (fst e)) xs = filter (\<lambda>e. prefix p (fst e)) (drop ?i xs)"
    by (metis append_Nil append_take_drop_id filter_append)
  moreover have "index_ok (drop ?i xs)"
    using assms by (simp add: index_ok_def drop_map [symmetric] sorted_wrt_drop)
  ultimately show ?thesis
    using lower_bound_above [OF assms]
    by (simp add: prefix_run_def take_prefix_iff takeWhile_prefix_filter)
qed

lemma map_of_filter_key:
  "map_of (filter (\<lambda>e. P (fst e)) xs) k = (if P k then map_of xs k else None)"
  by (induction xs) auto

lemma map_of_prefix_run:
  "index_ok xs \<Longrightarrow> map_of (prefix_run xs p) = map_of xs |` with_prefix p"
  by (auto simp: prefix_run_filter map_of_filter_key with_prefix_def restrict_map_def fun_eq_iff)

section \<open>Properties\<close>

text \<open>
  C27. The binary search in the index that a flush builds finds the last of the offsets recorded for a key,
  and nothing for a key without offsets.
\<close>

theorem index_find_latest:
  "index_find (build_index xs) k =
     (if k \<in> fst ` set xs then Some (Max {off. (k, off) \<in> set xs}) else None)"
proof (cases "k \<in> fst ` set xs")
  case True
  let ?S = "{off. (k, off) \<in> set xs}"
  have "?S \<subseteq> snd ` set xs" by force
  then have "finite ?S" using finite_subset by blast
  moreover have "?S \<noteq> {}" using True by auto
  ultimately have "map_of (build_index xs) k = Some (Max ?S)"
    using Max_in [of ?S] by (auto simp: map_of_build_index)
  with True show ?thesis by (simp add: index_find_map_of)
next
  case False
  then have "map_of (build_index xs) k \<noteq> Some m" for m by (force simp: map_of_build_index)
  then have "map_of (build_index xs) k = None" by (cases "map_of (build_index xs) k") auto
  with False show ?thesis by (simp add: index_find_map_of)
qed

text \<open>
  The run from the lower bound of a prefix up to the first key without it is all that has the prefix.
\<close>

theorem prefix_run_exact:
  "prefix_run (build_index xs) p = filter (\<lambda>e. prefix p (fst e)) (build_index xs)"
  by (simp add: prefix_run_filter)

end
