(* ===== verification/Sst_Format.thy ===== *)
theory Sst_Format
  imports Std_Io Sst_Index Memtable
begin

text \<open>
  The SSTable file format of \<open>sstable_manager.cpp\<close>: a file is a sequence of records
  \<open>key_len (u32) key val_len (u32) value\<close>. The writer is the loop of \<open>flushMemtable\<close>, the
  point reader is \<open>readValueAt\<close>, and the sequential reader is the loop of \<open>recoverState\<close>
  that rebuilds an index without reading the values.
\<close>

section \<open>Writing\<close>

definition serialize_entry :: "key \<Rightarrow> val \<Rightarrow> char list" where
  "serialize_entry k v =
     (let key_len = word_of_nat (length k) :: u32; val_len = word_of_nat (length v) :: u32
      in u32_bytes key_len @ take (unat key_len) k @ u32_bytes val_len @ take (unat val_len) v)"

fun write_entries :: "(key \<times> val) list \<Rightarrow> ofstream \<Rightarrow> fs \<Rightarrow> offsets \<Rightarrow> ofstream \<times> fs \<times> offsets" where
  "write_entries [] os f offs = (os, f, offs)"
| "write_entries ((k, v) # es) os f offs =
     (let current_offset = os_tellp os;
          (os', f') = os_write (serialize_entry k v) os f
      in write_entries es os' f' (offs @ [(k, current_offset)]))"

section \<open>Reading one value\<close>

definition readValueAt :: "fs \<Rightarrow> string \<Rightarrow> u64 \<Rightarrow> key \<Rightarrow> val option" where
  "readValueAt f path offset k =
     (let s0 = ifs_open f path in
      if is_fail s0 then None else
      let s1 = ifs_seekg offset s0 in
      if is_fail s1 then None else
      let (kl, s2) = ifs_read 4 s1 in
      if is_fail s2 then None else
      let (key_from_file, s3) = ifs_read (unat (u32_value kl)) s2 in
      if is_fail s3 then None else
      if key_from_file \<noteq> k then None else
      let (vl, s4) = ifs_read 4 s3 in
      if is_fail s4 then None else
      let (val_from_file, s5) = ifs_read (unat (u32_value vl)) s4 in
      if is_fail s5 then None else Some val_from_file)"

section \<open>Indexing a file\<close>

text \<open>One turn of the recovery loop: \<open>None\<close> is the end of the loop, by end of file or \<open>break\<close>.\<close>

definition index_step :: "istream \<Rightarrow> (istream \<times> (key \<times> u64)) option" where
  "index_step s =
     (let (c, s0) = ifs_peek s in
      if c = None then None else
      let current_offset = ifs_tellg s0;
          (kl, s1) = ifs_read 4 s0 in
      if is_fail s1 then None else
      let (k, s2) = ifs_read (unat (u32_value kl)) s1 in
      if is_fail s2 then None else
      let (vl, s3) = ifs_read 4 s2 in
      if is_fail s3 then None else
      Some (ifs_seek_cur (u32_value vl) s3, (k, current_offset)))"

lemma index_step_progress:
  assumes "index_step s = Some (s', e)"
  shows "is_pos s < length (is_data s)" and "is_data s' = is_data s" and "is_pos s < is_pos s'"
  using assms
  by (auto simp: index_step_def ifs_peek_def ifs_read_def ifs_seek_cur_def Let_def split: if_splits)

lemma index_step_decreases:
  "index_step s = Some (s', e) \<Longrightarrow>
    length (is_data s') - is_pos s' < length (is_data s) - is_pos s"
  using index_step_progress [of s s' e] by simp

function index_loop :: "istream \<Rightarrow> offsets" where
  "index_loop s = (case index_step s of None \<Rightarrow> [] | Some (s', e) \<Rightarrow> e # index_loop s')"
  by pat_completeness auto
termination
  by (relation "measure (\<lambda>s. length (is_data s) - is_pos s)")
    (auto dest: index_step_decreases)

declare index_loop.simps [simp del]

text \<open>The offsets recovered from one file; a file that does not open contributes none.\<close>

definition index_file :: "fs \<Rightarrow> string \<Rightarrow> offsets" where
  "index_file f path = (let s = ifs_open f path in if is_fail s then [] else index_loop s)"

section \<open>Well-formed entries and their images\<close>

text \<open>
  Lengths are stored in 32 bits, so an entry survives the format when both strings are
  shorter than 4 GiB.
\<close>

definition wf_entry :: "key \<times> val \<Rightarrow> bool" where
  "wf_entry e \<longleftrightarrow> length (fst e) < 2 ^ 32 \<and> length (snd e) < 2 ^ 32"

definition file_bytes :: "(key \<times> val) list \<Rightarrow> char list" where
  "file_bytes es = concat (map (\<lambda>e. serialize_entry (fst e) (snd e)) es)"

fun entry_offsets :: "nat \<Rightarrow> (key \<times> val) list \<Rightarrow> offsets" where
  "entry_offsets n [] = []"
| "entry_offsets n (e # es) =
     (fst e, word_of_nat n) # entry_offsets (n + length (serialize_entry (fst e) (snd e))) es"

abbreviation (input) good_at :: "char list \<Rightarrow> nat \<Rightarrow> istream" where
  "good_at d n \<equiv> \<lparr>is_data = d, is_pos = n, is_eof = False, is_fail = False\<rparr>"

lemma file_bytes_simps [simp]:
  "file_bytes [] = []"
  "file_bytes (e # es) = serialize_entry (fst e) (snd e) @ file_bytes es"
  "file_bytes (es @ es') = file_bytes es @ file_bytes es'"
  by (simp_all add: file_bytes_def)

lemma serialize_wf:
  "wf_entry (k, v) \<Longrightarrow> serialize_entry k v =
     u32_bytes (word_of_nat (length k)) @ k @ u32_bytes (word_of_nat (length v)) @ v"
  by (simp add: serialize_entry_def wf_entry_def)

lemma length_serialize: "wf_entry (k, v) \<Longrightarrow> length (serialize_entry k v) = 8 + length k + length v"
  by (simp add: serialize_wf)

lemma length_serialize_pos: "0 < length (serialize_entry k v)"
  by (simp add: serialize_entry_def Let_def)

lemma ifs_read_at:
  "ifs_read (length d) (good_at (pre @ d @ post) (length pre)) =
     (d, good_at (pre @ d @ post) (length pre + length d))"
  by (simp add: ifs_read_exact [where pre = pre and post = post] ifs_good_def)

lemma ifs_read_at':
  "n = length d \<Longrightarrow> D = pre @ d @ post \<Longrightarrow> p = length pre \<Longrightarrow>
    ifs_read n (good_at D p) = (d, good_at D (p + n))"
  using ifs_read_at by simp

section \<open>The sequential reader undoes the writer\<close>

lemma index_step_entry:
  assumes wf: "wf_entry (k, v)" and D: "D = pre @ serialize_entry k v @ post"
  shows "index_step (good_at D (length pre)) =
    Some (good_at D (length pre + length (serialize_entry k v)), (k, word_of_nat (length pre)))"
proof -
  let ?kl = "u32_bytes (word_of_nat (length k))" and ?vl = "u32_bytes (word_of_nat (length v))"
  have D': "D = pre @ ?kl @ k @ ?vl @ v @ post" using wf D by (simp add: serialize_wf)
  have lens: "length k < 2 ^ 32" "length v < 2 ^ 32" using wf by (simp_all add: wf_entry_def)
  have r1: "ifs_read 4 (good_at D (length pre)) = (?kl, good_at D (length pre + 4))"
    using D' by (intro ifs_read_at') simp_all
  have r2: "ifs_read (length k) (good_at D (length pre + 4)) = (k, good_at D (length pre + 4 + length k))"
    using D' by (intro ifs_read_at' [where pre = "pre @ ?kl"]) simp_all
  have r3: "ifs_read 4 (good_at D (length pre + 4 + length k)) =
      (?vl, good_at D (length pre + 4 + length k + 4))"
    using D' by (intro ifs_read_at' [where pre = "pre @ ?kl @ k"]) simp_all
  have "length pre < length D" using D' by simp
  then show ?thesis
    using lens r1 r2 r3 wf
    by (simp add: index_step_def ifs_peek_def ifs_good_def ifs_tellg_def ifs_seek_cur_def
        length_serialize)
qed

lemma index_loop_entries:
  "\<forall>e \<in> set es. wf_entry e \<Longrightarrow> D = pre @ file_bytes es @ post \<Longrightarrow>
    index_loop (good_at D (length pre)) =
      entry_offsets (length pre) es @ index_loop (good_at D (length pre + length (file_bytes es)))"
proof (induction es arbitrary: pre)
  case (Cons e es)
  let ?s = "serialize_entry (fst e) (snd e)"
  have "index_step (good_at D (length pre)) =
      Some (good_at D (length pre + length ?s), (fst e, word_of_nat (length pre)))"
    using Cons.prems by (intro index_step_entry) simp_all
  moreover have "index_loop (good_at D (length (pre @ ?s))) = entry_offsets (length (pre @ ?s)) es @
      index_loop (good_at D (length (pre @ ?s) + length (file_bytes es)))"
    using Cons.prems by (intro Cons.IH) simp_all
  ultimately show ?case
    by (simp add: index_loop.simps [of "good_at D (length pre)"] add.assoc)
qed simp

lemma index_loop_end: "length D \<le> n \<Longrightarrow> index_loop (good_at D n) = []"
  by (simp add: index_loop.simps index_step_def ifs_peek_def ifs_good_def)

lemma index_file_bytes:
  assumes "\<forall>e \<in> set es. wf_entry e" and "fs_read f path = Some (file_bytes es)"
  shows "index_file f path = entry_offsets 0 es"
  using index_loop_entries [of es "file_bytes es" "[]" "[]"] assms
  by (simp add: index_file_def ifs_open_def index_loop_end)

section \<open>The point reader undoes the writer\<close>

lemma readValueAt_entry:
  assumes wf: "wf_entry (k, v)" and "length pre < 2 ^ 63"
    and f: "fs_read f path = Some (pre @ serialize_entry k v @ post)"
  shows "readValueAt f path (word_of_nat (length pre)) k = Some v"
proof -
  let ?D = "pre @ serialize_entry k v @ post"
  let ?kl = "u32_bytes (word_of_nat (length k))" and ?vl = "u32_bytes (word_of_nat (length v))"
  have D': "?D = pre @ ?kl @ k @ ?vl @ v @ post" using wf by (simp add: serialize_wf)
  have lens: "length k < 2 ^ 32" "length v < 2 ^ 32" using wf by (simp_all add: wf_entry_def)
  have off: "unat (word_of_nat (length pre) :: u64) = length pre" "\<not> sint (word_of_nat (length pre) :: u64) < 0"
    using assms(2) by (simp_all add: sint_u64_of_nat)
  have r1: "ifs_read 4 (good_at ?D (length pre)) = (?kl, good_at ?D (length pre + 4))"
    using D' by (intro ifs_read_at') simp_all
  have r2: "ifs_read (length k) (good_at ?D (length pre + 4)) = (k, good_at ?D (length pre + 4 + length k))"
    using D' by (intro ifs_read_at' [where pre = "pre @ ?kl"]) simp_all
  have r3: "ifs_read 4 (good_at ?D (length pre + 4 + length k)) =
      (?vl, good_at ?D (length pre + 4 + length k + 4))"
    using D' by (intro ifs_read_at' [where pre = "pre @ ?kl @ k"]) simp_all
  have r4: "ifs_read (length v) (good_at ?D (8 + (length pre + length k))) =
      (v, good_at ?D (8 + (length pre + length k) + length v))"
    using D' by (intro ifs_read_at' [where pre = "pre @ ?kl @ k @ ?vl"]) simp_all
  show ?thesis
    using lens unfolding readValueAt_def
    by (simp add: ifs_open_def f ifs_seekg_def off r1 r2 r3 r4 del: append_assoc)
qed

section \<open>What the writer leaves behind\<close>

lemma length_entry_offsets [simp]: "length (entry_offsets n es) = length es"
  by (induction n es rule: entry_offsets.induct) auto

lemma entry_offsets_append [simp]:
  "entry_offsets n (es @ es') = entry_offsets n es @ entry_offsets (n + length (file_bytes es)) es'"
  by (induction n es rule: entry_offsets.induct) (simp_all add: add.assoc)

lemma write_entries_spec:
  assumes "os_is_open os" and "os_good os"
    and "fs_read f (os_path os) = Some (pre @ post)" and "os_pos os = length pre"
    and "write_entries es os f offs = (os', f', offs')"
  shows "os' = os\<lparr>os_pos := length pre + length (file_bytes es)\<rparr>"
    and "offs' = offs @ entry_offsets (length pre) es"
    and "fs_read f' (os_path os) = Some (pre @ file_bytes es @ drop (length (file_bytes es)) post)"
    and "\<And>q. q \<noteq> os_path os \<Longrightarrow> fs_read f' q = fs_read f q"
    and "fs_dirs f' = fs_dirs f"
    and "fs_ok f \<Longrightarrow> fs_ok f'"
proof -
  have "os' = os\<lparr>os_pos := length pre + length (file_bytes es)\<rparr>
    \<and> offs' = offs @ entry_offsets (length pre) es
    \<and> fs_read f' (os_path os) = Some (pre @ file_bytes es @ drop (length (file_bytes es)) post)
    \<and> (\<forall>q. q \<noteq> os_path os \<longrightarrow> fs_read f' q = fs_read f q)
    \<and> fs_dirs f' = fs_dirs f \<and> (fs_ok f \<longrightarrow> fs_ok f')"
    using assms
  proof (induction es arbitrary: os f offs pre post)
    case (Cons e es)
    let ?s = "serialize_entry (fst e) (snd e)"
    let ?os = "os\<lparr>os_pos := length pre + length ?s\<rparr>"
    let ?f = "fs_write (os_path os) (pre @ ?s @ drop (length ?s) post) f"
    have "os_write ?s os f = (?os, ?f)" and "os_tellp os = word_of_nat (length pre)"
      using Cons.prems(1-4) by (simp_all add: os_write_def os_tellp_def overwrite_append)
    then have "write_entries es ?os ?f (offs @ [(fst e, word_of_nat (length pre))]) = (os', f', offs')"
      using Cons.prems(5) by (cases e) simp
    from Cons.IH [OF _ _ _ _ this, of "pre @ ?s" "drop (length ?s) post"] Cons.prems(1,2)
    show ?case by (simp add: ac_simps)
  qed auto
  then show "os' = os\<lparr>os_pos := length pre + length (file_bytes es)\<rparr>"
    and "offs' = offs @ entry_offsets (length pre) es"
    and "fs_read f' (os_path os) = Some (pre @ file_bytes es @ drop (length (file_bytes es)) post)"
    and "\<And>q. q \<noteq> os_path os \<Longrightarrow> fs_read f' q = fs_read f q"
    and "fs_dirs f' = fs_dirs f" and "fs_ok f \<Longrightarrow> fs_ok f'"
    by blast+
qed

lemma entry_offsets_ascending:
  "n + length (file_bytes es) < 2 ^ 64 \<Longrightarrow>
    sorted_wrt (\<lambda>a b. snd a < snd b) (entry_offsets n es)
      \<and> (\<forall>e \<in> set (entry_offsets n es). n \<le> unat (snd e))"
proof (induction n es rule: entry_offsets.induct)
  case (2 n e es)
  let ?m = "n + length (serialize_entry (fst e) (snd e))"
  have m: "n < ?m" by (simp add: length_serialize_pos del: length_greater_0_conv)
  have IH: "sorted_wrt (\<lambda>a b. snd a < snd b) (entry_offsets ?m es)"
      "\<forall>g \<in> set (entry_offsets ?m es). ?m \<le> unat (snd g)"
    using 2 by simp_all
  have un: "unat (word_of_nat n :: u64) = n" using "2.prems" by simp
  have "word_of_nat n < snd g \<and> n \<le> unat (snd g)" if "g \<in> set (entry_offsets ?m es)" for g
  proof -
    from IH(2) that have "?m \<le> unat (snd g)" by blast
    with m have "n < unat (snd g)" by linarith
    with un show ?thesis by (simp add: word_less_nat_alt)
  qed
  with IH(1) show ?case by (simp add: un)
qed simp

section \<open>Lookups in one table\<close>

text \<open>The lookup of \<open>SSTableManager::get\<close> in one table: search the index, read the value.\<close>

definition table_get :: "fs \<Rightarrow> l0_index \<Rightarrow> key \<Rightarrow> val option" where
  "table_get f ix k = (case index_find (l0_offsets ix) k of
       None \<Rightarrow> None
     | Some off \<Rightarrow> readValueAt f (l0_path ix) off k)"

text \<open>What the index and the file say together, without the binary search.\<close>

definition table_map :: "fs \<Rightarrow> l0_index \<Rightarrow> key \<rightharpoonup> val" where
  "table_map f ix k = (case map_of (l0_offsets ix) k of
       None \<Rightarrow> None
     | Some off \<Rightarrow> readValueAt f (l0_path ix) off k)"

definition table_ok :: "l0_index \<Rightarrow> bool" where
  "table_ok ix = index_ok (l0_offsets ix)"

interpretation table_level: kv_level "table_get f" "table_map f" table_ok for f
  by unfold_locales (simp add: table_get_def table_map_def table_ok_def index_find_map_of)

text \<open>The content of a file is the map its entries spell, the last record of a key winning.\<close>

lemma table_map_entries:
  assumes "\<forall>e \<in> set es. wf_entry e" and "length (file_bytes es) < 2 ^ 63"
    and "fs_read f (l0_path ix) = Some (file_bytes es @ post)"
    and "l0_offsets ix = build_index (entry_offsets 0 es)"
  shows "table_map f ix = entries_map es"
proof
  fix k
  have "sorted_wrt (\<lambda>a b. snd a < snd b) (entry_offsets 0 es)"
    using assms(2) entry_offsets_ascending [of 0 es] by simp
  then have ix: "map_of (l0_offsets ix) = map_of (rev (entry_offsets 0 es))"
    using assms(4) by (simp add: map_of_build_index_ascending)
  have "(case map_of (rev (entry_offsets 0 es)) k of None \<Rightarrow> None
      | Some off \<Rightarrow> readValueAt f (l0_path ix) off k) = entries_map es k"
    using assms(1-3)
  proof (induction es arbitrary: post rule: rev_induct)
    case (snoc e es)
    show ?case
    proof (cases "fst e = k")
      case True
      with snoc.prems show ?thesis
        by (cases e) (simp add: readValueAt_entry [where post = post])
    next
      case False
      with snoc.IH [of "serialize_entry (fst e) (snd e) @ post"] snoc.prems show ?thesis
        by (cases e) simp
    qed
  qed simp
  then show "table_map f ix k = entries_map es k" by (simp add: table_map_def ix)
qed

section \<open>Properties\<close>

text \<open>
  C21. Entries written to a new file are found again: the index read back from the file is the index built
  while writing, and a lookup answers the last value written for a key.
\<close>

theorem table_roundtrip:
  assumes wf: "\<forall>e \<in> set es. wf_entry e" and len: "length (file_bytes es) < 2 ^ 63"
    and os: "os_is_open os" "os_good os" "os_pos os = 0" and f: "fs_read f (os_path os) = Some []"
    and w: "write_entries es os f [] = (os', f', offs)"
  shows "index_file f' (os_path os) = offs
    \<and> table_get f' \<lparr>l0_path = os_path os, l0_offsets = build_index offs\<rparr> = entries_map es"
proof -
  note s = write_entries_spec [of os f "[]" "[]" es "[]" os' f' offs]
  have offs: "offs = entry_offsets 0 es" and f': "fs_read f' (os_path os) = Some (file_bytes es @ [])"
    using s os f w by auto
  have "index_file f' (os_path os) = offs" using index_file_bytes [OF wf] f' offs by simp
  moreover let ?ix = "\<lparr>l0_path = os_path os, l0_offsets = build_index offs\<rparr>"
  have "table_get f' ?ix k = table_map f' ?ix k" for k
    using table_level.look_content [of ?ix f' k] by (simp add: table_ok_def)
  moreover have "table_map f' ?ix = entries_map es"
    by (rule table_map_entries [OF wf len]) (use f' offs in simp_all)
  ultimately show ?thesis by (simp add: fun_eq_iff)
qed

theorem table_roundtrip_witness:
  "let es = [(''a'', ''1''), (''b'', ''2''), (''a'', ''3'')];
       os = \<lparr>os_path = ''t'', os_pos = 0, os_is_open = True, os_good = True\<rparr>
   in case write_entries es os (fs_write ''t'' [] fs_empty) [] of (os', f', offs) \<Rightarrow>
        table_get f' \<lparr>l0_path = ''t'', l0_offsets = build_index offs\<rparr> ''a'' = Some ''3''"
proof -
  let ?es = "[(''a'', ''1''), (''b'', ''2''), (''a'', ''3'')] :: (key \<times> val) list"
  let ?os = "\<lparr>os_path = ''t'', os_pos = 0, os_is_open = True, os_good = True\<rparr>"
  obtain os' f' offs where w: "write_entries ?es ?os (fs_write ''t'' [] fs_empty) [] = (os', f', offs)"
    by (cases "write_entries ?es ?os (fs_write ''t'' [] fs_empty) []")
  have wf: "\<forall>e \<in> set ?es. wf_entry e" by (simp add: wf_entry_def)
  have "length (file_bytes ?es) < 2 ^ 63" by (simp add: file_bytes_def serialize_entry_def)
  from table_roundtrip [OF wf this _ _ _ _ w] have "table_get f' \<lparr>l0_path = ''t'', l0_offsets = build_index offs\<rparr> = entries_map ?es"
    by simp
  then show ?thesis unfolding Let_def w by (simp add: entries_map_def)
qed

end
