(* ===== verification/File_Pool.thy ===== *)
theory File_Pool
  imports Std_Io
begin

text \<open>
  The pool of opened files of \<open>lib/manager/store/native/file_pool.cpp\<close>. A worker thread
  (\<open>replenish\<close>) keeps up to \<open>poolSize\<close> new files open; \<open>acquire\<close> hands them out in FIFO
  order and waits while there is none. The step relation interleaves the worker, the
  clients and the destructor at the granularity of the code's critical sections; the
  invariant says that the pool holds files with distinct, increasing ids below \<open>_next_id\<close>,
  each open at position 0 and empty (zero bytes only, when pre-allocated).
\<close>

section \<open>State\<close>

record file_pool =
  fp_directory :: string
  fp_prefix :: string
  fp_suffix :: string
  fp_poolSize :: u64
  fp_preAllocationSize :: u64
  fp_pool :: "(string \<times> ofstream) list"
  fp_next_id :: u64
  fp_shutdown :: bool

definition fp_new :: "string \<Rightarrow> string \<Rightarrow> string \<Rightarrow> u64 \<Rightarrow> u64 \<Rightarrow> u64 \<Rightarrow> file_pool" where
  "fp_new directory pfx sfx poolSize startId preAllocationSize =
     \<lparr>fp_directory = directory, fp_prefix = pfx, fp_suffix = sfx, fp_poolSize = poolSize,
      fp_preAllocationSize = preAllocationSize, fp_pool = [], fp_next_id = startId,
      fp_shutdown = False\<rparr>"

section \<open>Handing out files\<close>

text \<open>
  \<open>FilePool::acquire\<close>: wait until the pool is non-empty or shutting down, throw when it
  shuts down empty, else pop the front.
\<close>

definition acquire :: "file_pool \<Rightarrow> ((string \<times> ofstream) \<times> file_pool) outcome" where
  "acquire p =
     (if fp_pool p = [] \<and> \<not> fp_shutdown p then Blocks
      else case fp_pool p of
        [] \<Rightarrow> Throws ''FilePool is shutting down''
      | e # es \<Rightarrow> Returns (e, p\<lparr>fp_pool := es\<rparr>))"

section \<open>Creating files\<close>

text \<open>The file name: \<open>std::setw(6) << std::setfill('0') << id\<close> between prefix and suffix.\<close>

definition padded_id :: "u64 \<Rightarrow> string" where
  "padded_id i = (let d = dec (unat i) in replicate (6 - length d) (CHR ''0'') @ d)"

definition pool_file_name :: "file_pool \<Rightarrow> u64 \<Rightarrow> string" where
  "pool_file_name p i = fp_prefix p @ padded_id i @ fp_suffix p"

definition pool_path :: "file_pool \<Rightarrow> u64 \<Rightarrow> string" where
  "pool_path p i = path_join (fp_directory p) (pool_file_name p i)"

text \<open>The operating system's answers to one attempt at creating a file.\<close>

record io_env =
  io_fd_ok :: bool
  io_alloc_ok :: bool
  io_open_ok :: bool

text \<open>
  \<open>open(O_WRONLY | O_CREAT)\<close> followed by \<open>posix_fallocate(fd, 0, n)\<close>: the file exists
  afterwards, extended with zero bytes to at least \<open>n\<close> when the allocation succeeds.
\<close>

definition pre_allocate :: "io_env \<Rightarrow> nat \<Rightarrow> string \<Rightarrow> fs \<Rightarrow> fs" where
  "pre_allocate env n path f =
     (if io_fd_ok env then
        (let c = (case fs_read f path of None \<Rightarrow> [] | Some c \<Rightarrow> c)
         in fs_write path
              (if io_alloc_ok env then c @ replicate (n - length c) (char_of (0::nat)) else c) f)
      else f)"

text \<open>
  The body of \<open>replenish\<close> after its check: take an id, pre-allocate, open. Without
  pre-allocation the stream is opened with \<open>out\<close> alone and truncates; with it the mode is
  \<open>in | out\<close>, which neither creates nor truncates.
\<close>

definition create_file ::
  "io_env \<Rightarrow> file_pool \<Rightarrow> fs \<Rightarrow> (string \<times> ofstream) option \<times> file_pool \<times> fs" where
  "create_file env p f =
     (let i = fp_next_id p;
          p' = p\<lparr>fp_next_id := i + 1\<rparr>;
          path = pool_path p i;
          pre = 0 < fp_preAllocationSize p;
          f1 = (if pre then pre_allocate env (unat (fp_preAllocationSize p)) path f else f);
          is_open = (io_open_ok env \<and> (pre \<longrightarrow> fs_read f1 path \<noteq> None));
          f2 = (if is_open \<and> \<not> pre then fs_write path [] f1 else f1);
          ofs = \<lparr>os_path = path, os_pos = 0, os_is_open = True, os_good = True\<rparr>
      in (if is_open then Some (path, ofs) else None, p', f2))"

text \<open>The last critical section of \<open>replenish\<close>: drop the file on shutdown, else queue it.\<close>

definition publish :: "string \<times> ofstream \<Rightarrow> file_pool \<Rightarrow> file_pool" where
  "publish e p = (if fp_shutdown p then p else p\<lparr>fp_pool := fp_pool p @ [e]\<rparr>)"

definition replenish_wakes :: "file_pool \<Rightarrow> bool" where
  "replenish_wakes p \<longleftrightarrow> length (fp_pool p) < unat (fp_poolSize p) \<or> fp_shutdown p"

text \<open>One turn of the loop of \<open>replenish\<close>, not interrupted; the flag says that it returned.\<close>

definition replenish_turn :: "io_env \<Rightarrow> file_pool \<Rightarrow> fs \<Rightarrow> (bool \<times> file_pool \<times> fs) outcome" where
  "replenish_turn env p f =
     (if \<not> replenish_wakes p then Blocks
      else if fp_shutdown p then Returns (True, p, f)
      else case create_file env p f of
        (None, p', f') \<Rightarrow> Returns (False, p', f')
      | (Some e, p', f') \<Rightarrow> Returns (False, publish e p', f'))"

section \<open>The threads of the pool\<close>

datatype pool_worker = PwCheck | PwCreate | PwPublish "string \<times> ofstream" | PwExit

type_synonym pool_state = "file_pool \<times> pool_worker \<times> fs"

inductive pool_step :: "pool_state \<Rightarrow> pool_state \<Rightarrow> bool" where
  check_needed: "replenish_wakes p \<Longrightarrow> \<not> fp_shutdown p \<Longrightarrow>
    pool_step (p, PwCheck, f) (p, PwCreate, f)"
| check_exit: "fp_shutdown p \<Longrightarrow> pool_step (p, PwCheck, f) (p, PwExit, f)"
| create_ok: "create_file env p f = (Some e, p', f') \<Longrightarrow>
    pool_step (p, PwCreate, f) (p', PwPublish e, f')"
| create_failed: "create_file env p f = (None, p', f') \<Longrightarrow>
    pool_step (p, PwCreate, f) (p', PwCheck, f')"
| publish_open: "\<not> fp_shutdown p \<Longrightarrow>
    pool_step (p, PwPublish e, f) (publish e p, PwCheck, f)"
| publish_shutdown: "fp_shutdown p \<Longrightarrow> pool_step (p, PwPublish e, f) (p, PwExit, f)"
| client_acquire: "acquire p = Returns (e, p') \<Longrightarrow> pool_step (p, w, f) (p', w, f)"
| destructor: "pool_step (p, w, f) (p\<lparr>fp_shutdown := True\<rparr>, w, f)"

inductive_cases pool_stepE: "pool_step (p, w, f) (p', w', f')"

section \<open>File names\<close>

lemma dec_value_padded_id [simp]: "dec_value (padded_id i) = unat i"
  by (simp add: padded_id_def Let_def)

lemma padded_id_digits: "c \<in> set (padded_id i) \<Longrightarrow> is_digit c"
  by (auto simp: padded_id_def Let_def dec_is_digit)

lemma padded_id_not_Nil [simp]: "padded_id i \<noteq> []"
  by (simp add: padded_id_def Let_def)

lemma padded_id_inj [simp]: "padded_id i = padded_id j \<longleftrightarrow> i = j"
  by (metis dec_value_padded_id word_unat_eq_iff)

lemma pool_path_inj [simp]: "pool_path p i = pool_path p j \<longleftrightarrow> i = j"
  by (simp add: pool_path_def pool_file_name_def)

section \<open>The invariant of the pool\<close>

text \<open>A file created by the pool and not written yet: empty, or zero bytes when pre-allocated.\<close>

definition blank :: "u64 \<Rightarrow> char list \<Rightarrow> bool" where
  "blank preAllocationSize c \<longleftrightarrow>
     (\<exists>n. c = replicate n (char_of (0::nat))) \<and> (preAllocationSize = 0 \<longrightarrow> c = [])"

definition fresh_entry :: "file_pool \<Rightarrow> fs \<Rightarrow> u64 \<Rightarrow> string \<times> ofstream \<Rightarrow> bool" where
  "fresh_entry p f i e \<longleftrightarrow>
     e = (pool_path p i, \<lparr>os_path = pool_path p i, os_pos = 0, os_is_open = True, os_good = True\<rparr>)
     \<and> (\<exists>c. fs_read f (pool_path p i) = Some c \<and> blank (fp_preAllocationSize p) c)"

text \<open>
  \<open>pool_inv ids p f\<close>: the pool holds the fresh files of the increasing ids \<open>ids\<close>, all below
  the next id, and no file with an id from the next id on exists yet.
\<close>

definition pool_inv :: "u64 list \<Rightarrow> file_pool \<Rightarrow> fs \<Rightarrow> bool" where
  "pool_inv ids p f \<longleftrightarrow> list_all2 (fresh_entry p f) ids (fp_pool p)
     \<and> sorted_wrt (<) ids \<and> (\<forall>i \<in> set ids. i < fp_next_id p)
     \<and> (\<forall>i \<ge> fp_next_id p. fs_read f (pool_path p i) = None)"

lemma pool_inv_new:
  "\<forall>i \<ge> start. fs_read f (pool_path (fp_new d pfx sfx n start pre) i) = None \<Longrightarrow>
    pool_inv [] (fp_new d pfx sfx n start pre) f"
  by (simp add: pool_inv_def) (simp add: fp_new_def)

lemma pool_path_cong:
  "fp_directory p = fp_directory q \<Longrightarrow> fp_prefix p = fp_prefix q \<Longrightarrow> fp_suffix p = fp_suffix q \<Longrightarrow>
    pool_path p i = pool_path q i"
  by (simp add: pool_path_def pool_file_name_def)

lemma pool_path_updates [simp]:
  "pool_path (p\<lparr>fp_pool := es\<rparr>) i = pool_path p i"
  "pool_path (p\<lparr>fp_next_id := n\<rparr>) i = pool_path p i"
  "pool_path (p\<lparr>fp_shutdown := b\<rparr>) i = pool_path p i"
  by (simp_all add: pool_path_def pool_file_name_def)

lemma fresh_entry_updates [simp]:
  "fresh_entry (p\<lparr>fp_pool := es\<rparr>) f = fresh_entry p f"
  "fresh_entry (p\<lparr>fp_next_id := n\<rparr>) f = fresh_entry p f"
  "fresh_entry (p\<lparr>fp_shutdown := b\<rparr>) f = fresh_entry p f"
  by (simp_all add: fresh_entry_def fun_eq_iff)

lemma acquire_spec:
  assumes "pool_inv ids p f" and "acquire p = Returns ((path, os), p')"
  obtains i ids' where "ids = i # ids'" and "path = pool_path p i" and "fresh_entry p f i (path, os)"
    and "p' = p\<lparr>fp_pool := tl (fp_pool p)\<rparr>" and "pool_inv ids' p' f"
    and "\<forall>j \<in> set ids'. i < j" and "i < fp_next_id p"
proof -
  from assms(2) have p: "fp_pool p = (path, os) # fp_pool p'" "p' = p\<lparr>fp_pool := fp_pool p'\<rparr>"
    by (auto simp: acquire_def split: if_splits list.splits)
  with assms(1) obtain i ids' where ids: "ids = i # ids'" "fresh_entry p f i (path, os)"
    by (auto simp: pool_inv_def list_all2_Cons2)
  moreover have "path = pool_path p i" using ids(2) by (simp add: fresh_entry_def)
  moreover have "p' = p\<lparr>fp_pool := tl (fp_pool p)\<rparr>" using p by simp
  moreover have "pool_inv ids' p' f"
    using assms(1) ids p(1) by (subst p(2)) (simp add: pool_inv_def)
  moreover have "\<forall>j \<in> set ids'. i < j" "i < fp_next_id p"
    using assms(1) ids(1) by (auto simp: pool_inv_def)
  ultimately show ?thesis using that by blast
qed

text \<open>Creating a file touches no other file, and the file it opens is blank.\<close>

lemma blank_Nil [simp]: "blank n []"
  by (simp add: blank_def)

lemma blank_zeros [simp]: "0 < n \<Longrightarrow> blank n (replicate k (char_of (0::nat)))"
  by (auto simp: blank_def)

lemma create_file_spec:
  assumes "create_file env p f = (r, p', f')" and "fs_read f (pool_path p (fp_next_id p)) = None"
  shows "p' = p\<lparr>fp_next_id := fp_next_id p + 1\<rparr>"
    and "q \<noteq> pool_path p (fp_next_id p) \<Longrightarrow> fs_read f' q = fs_read f q"
    and "r = Some e \<Longrightarrow> fresh_entry p f' (fp_next_id p) e"
    and "fs_read f' (pool_path p (fp_next_id p)) = Some c \<Longrightarrow> blank (fp_preAllocationSize p) c"
    and "fs_dirs f' = fs_dirs f" and "fs_ok f \<Longrightarrow> fs_ok f'"
  using assms
  by (auto simp: create_file_def Let_def pre_allocate_def fresh_entry_def word_neq_0_conv
      split: if_splits option.splits)

lemma create_file_small:
  assumes "create_file env p f = (r, p', f')" and "fs_read f (pool_path p (fp_next_id p)) = None"
    and "fs_small f" and "unat (fp_preAllocationSize p) < 2 ^ 63"
  shows "fs_small f'"
proof (rule fs_small_update [OF assms(3) create_file_spec(2) [OF assms(1,2)]])
  show "length c < 2 ^ 63" if "fs_read f' (pool_path p (fp_next_id p)) = Some c" for c
    using assms that by (auto simp: create_file_def Let_def pre_allocate_def split: if_splits option.splits)
qed

lemma fresh_entry_other:
  assumes "fresh_entry p f i e" and "\<And>q. q \<noteq> pool_path p j \<Longrightarrow> fs_read f' q = fs_read f q" and "i \<noteq> j"
  shows "fresh_entry p f' i e"
  using assms by (simp add: fresh_entry_def)

lemma create_file_inv:
  assumes inv: "pool_inv ids p f" and "create_file env p f = (r, p', f')"
    and room: "fp_next_id p < - 1"
  shows "pool_inv ids p' f'" and "r = Some e \<Longrightarrow> fresh_entry p' f' (fp_next_id p) e"
    and "fp_next_id p < fp_next_id p'"
proof -
  let ?i = "fp_next_id p"
  have none: "fs_read f (pool_path p ?i) = None" using inv by (simp add: pool_inv_def)
  note spec = create_file_spec [OF assms(2) none]
  have lt: "?i < ?i + 1" using room by (rule u64_less_Suc)
  have old: "list_all2 (fresh_entry p f') ids (fp_pool p)"
  proof (rule list_all2_mono [of "\<lambda>i e. fresh_entry p f i e \<and> i < ?i"])
    show "list_all2 (\<lambda>i e. fresh_entry p f i e \<and> i < ?i) ids (fp_pool p)"
      using inv by (auto simp: pool_inv_def list_all2_conv_all_nth)
    show "fresh_entry p f' i e" if "fresh_entry p f i e \<and> i < ?i" for i e
      by (rule fresh_entry_other [OF conjunct1 [OF that] spec(2)]) (use that in auto)
  qed
  have later: "fs_read f' (pool_path p i) = None" if "?i + 1 \<le> i" for i
  proof -
    have "?i < i" using lt that by simp
    then show ?thesis using inv spec(2) [of "pool_path p i"] by (auto simp: pool_inv_def)
  qed
  have "\<forall>i \<in> set ids. i < ?i + 1" "sorted_wrt (<) ids"
    using inv lt by (auto simp: pool_inv_def)
  with old later show "pool_inv ids p' f'" by (simp add: pool_inv_def spec(1))
  show "r = Some e \<Longrightarrow> fresh_entry p' f' ?i e" using spec(3) by (simp add: spec(1))
  show "?i < fp_next_id p'" using lt by (simp add: spec(1))
qed

lemma publish_inv:
  assumes "pool_inv ids p f" and "fresh_entry p f i e" and "i < fp_next_id p"
    and "\<forall>j \<in> set ids. j < i" and "\<not> fp_shutdown p"
  shows "pool_inv (ids @ [i]) (publish e p) f"
  using assms by (simp add: pool_inv_def publish_def sorted_wrt_append list_all2_appendI)

section \<open>The invariant over the threads\<close>

text \<open>
  Between its check and its push the worker owns one slot of the pool, and the file it is
  about to publish is younger than every file in the pool.
\<close>

definition worker_slot :: "pool_worker \<Rightarrow> nat" where
  "worker_slot w = (case w of PwCreate \<Rightarrow> 1 | PwPublish e \<Rightarrow> 1 | _ \<Rightarrow> 0)"

definition publish_ok :: "u64 list \<Rightarrow> pool_state \<Rightarrow> bool" where
  "publish_ok ids s = (case s of (p, w, f) \<Rightarrow> (case w of
       PwPublish e \<Rightarrow> \<exists>i. fresh_entry p f i e \<and> i < fp_next_id p \<and> (\<forall>j \<in> set ids. j < i)
     | _ \<Rightarrow> True))"

definition pool_state_inv :: "pool_state \<Rightarrow> bool" where
  "pool_state_inv s = (case s of (p, w, f) \<Rightarrow>
     length (fp_pool p) + worker_slot w \<le> unat (fp_poolSize p)
     \<and> (w = PwExit \<longrightarrow> fp_shutdown p)
     \<and> (\<exists>ids. pool_inv ids p f \<and> publish_ok ids s))"

lemma pool_inv_shutdown [simp]: "pool_inv ids (p\<lparr>fp_shutdown := b\<rparr>) f = pool_inv ids p f"
  by (simp add: pool_inv_def)

lemma create_file_fields:
  "create_file env p f = (r, p', f') \<Longrightarrow> p' = p\<lparr>fp_next_id := fp_next_id p + 1\<rparr>"
  by (auto simp: create_file_def Let_def)

lemma create_step_inv:
  assumes "pool_state_inv (p, PwCreate, f)" and "create_file env p f = (r, p', f')"
    and "fp_next_id p < - 1"
  shows "pool_state_inv (p', case r of None \<Rightarrow> PwCheck | Some e \<Rightarrow> PwPublish e, f')"
proof -
  from assms(1) obtain ids where inv: "pool_inv ids p f"
      and len: "Suc (length (fp_pool p)) \<le> unat (fp_poolSize p)"
    by (auto simp: pool_state_inv_def worker_slot_def)
  note new = create_file_inv [OF inv assms(2,3)]
  have "\<forall>j \<in> set ids. j < fp_next_id p" using inv by (auto simp: pool_inv_def)
  with new len create_file_fields [OF assms(2)] show ?thesis
    by (cases r) (auto simp: pool_state_inv_def worker_slot_def publish_ok_def)
qed

lemma pool_step_inv:
  assumes "pool_step s t" and "pool_state_inv s" and "fp_next_id (fst s) < - 1"
  shows "pool_state_inv t"
  using assms
proof (induction rule: pool_step.induct)
  case (create_ok env p f e p' f')
  then show ?case using create_step_inv [of p f env "Some e"] by simp
next
  case (create_failed env p f p' f')
  then show ?case using create_step_inv [of p f env None] by simp
next
  case (publish_open p e f)
  then obtain ids i where "pool_inv (ids @ [i]) (publish e p) f"
    by (fastforce simp: pool_state_inv_def publish_ok_def intro: publish_inv)
  with publish_open show ?case
    by (auto simp: pool_state_inv_def worker_slot_def publish_def publish_ok_def)
next
  case (client_acquire p e p' w f)
  from client_acquire.prems(1) obtain ids where inv: "pool_inv ids p f" "publish_ok ids (p, w, f)"
    by (auto simp: pool_state_inv_def)
  from client_acquire.hyps inv(1) obtain i ids' where *: "ids = i # ids'"
      "p' = p\<lparr>fp_pool := tl (fp_pool p)\<rparr>" "pool_inv ids' p' f"
    by (cases e) (auto elim: acquire_spec)
  with inv(2) have "publish_ok ids' (p', w, f)"
    by (auto simp: publish_ok_def split: pool_worker.splits)
  with * client_acquire.prems show ?case
    by (auto simp: pool_state_inv_def)
qed (auto simp: pool_state_inv_def worker_slot_def replenish_wakes_def publish_ok_def
    split: pool_worker.splits)

text \<open>The state after construction, over a directory without files from the start id on.\<close>

lemma pool_state_inv_new:
  assumes "\<forall>i \<ge> start. fs_read f (pool_path (fp_new d pfx sfx n start pre) i) = None"
  shows "pool_state_inv (fp_new d pfx sfx n start pre, PwCheck, f)"
  using pool_inv_new [OF assms]
  by (auto simp: pool_state_inv_def worker_slot_def publish_ok_def fp_new_def)

section \<open>Progress\<close>

text \<open>
  With a positive pool size and a file system that answers, one turn of the worker on an
  empty pool lets the next \<open>acquire\<close> return.
\<close>

lemma replenish_enables_acquire:
  assumes "fp_pool p = []" and "\<not> fp_shutdown p" and "0 < fp_poolSize p"
    and "io_fd_ok env" and "io_open_ok env"
  shows "\<exists>p' f' e p''. replenish_turn env p f = Returns (False, p', f') \<and> acquire p' = Returns (e, p'')"
  using assms
  by (auto simp: replenish_turn_def replenish_wakes_def create_file_def Let_def publish_def acquire_def
      pre_allocate_def word_less_nat_alt)

text \<open>With pool size 0 the worker never creates a file, and \<open>acquire\<close> waits for ever.\<close>

lemma empty_pool_starves:
  assumes "pool_step (p, w, f) (p', w', f')" and "fp_poolSize p = 0" and "fp_pool p = []"
    and "w = PwCheck \<or> w = PwExit"
  shows "fp_poolSize p' = 0 \<and> fp_pool p' = [] \<and> (w' = PwCheck \<or> w' = PwExit)"
  using assms
  by (auto elim!: pool_stepE simp: replenish_wakes_def acquire_def split: if_splits)

section \<open>Properties\<close>

text \<open>
  C30. Every step of the pool's worker, of a client or of the destructor keeps the pool within its size, its
  files on distinct paths, each of them existing, empty or zeroed, open at position 0, and no file
  beyond the next id.
\<close>

theorem pool_invariant:
  assumes "pool_step s t" and "pool_state_inv s" and "fp_next_id (fst s) < - 1"
  shows "pool_state_inv t \<and> length (fp_pool (fst t)) \<le> unat (fp_poolSize (fst t))
    \<and> distinct (map fst (fp_pool (fst t)))"
proof -
  obtain p w f where t: "t = (p, w, f)" by (cases t)
  have inv: "pool_state_inv (p, w, f)" using pool_step_inv [OF assms] t by simp
  then obtain ids where ids: "pool_inv ids p f" and n: "length (fp_pool p) \<le> unat (fp_poolSize p)"
    by (auto simp: pool_state_inv_def)
  have "map fst (fp_pool p) = map (pool_path p) ids"
    using ids by (auto simp: pool_inv_def fresh_entry_def list_all2_conv_all_nth intro!: nth_equalityI)
  moreover have "distinct ids" using ids by (auto simp: pool_inv_def strict_sorted_iff)
  ultimately have "distinct (map fst (fp_pool p))" by (simp add: distinct_map inj_on_def)
  with inv n t show ?thesis by simp
qed

theorem pool_invariant_witness:
  "let p = fp_new ''db'' ''L0-'' ''.sst'' 4 1 0
   in pool_state_inv (p, PwCreate, fs_empty)"
proof -
  let ?p = "fp_new ''db'' ''L0-'' ''.sst'' 4 1 0"
  have step: "pool_step (?p, PwCheck, fs_empty) (?p, PwCreate, fs_empty)"
    by (rule check_needed) (simp_all add: replenish_wakes_def fp_new_def)
  have inv: "pool_state_inv (?p, PwCheck, fs_empty)"
    by (rule pool_state_inv_new) (simp add: fs_empty_def fs_read_def)
  have "fp_next_id (fst (?p, PwCheck, fs_empty)) < - 1" by (simp add: fp_new_def) code_simp
  from pool_invariant [OF step inv this] show ?thesis by (simp add: Let_def)
qed

text \<open>
  C31. A client that waits for a file is released by one turn of the worker, with the file of the next id,
  unless opening it fails; a failed preallocation does not matter.
\<close>

theorem pool_progress:
  assumes "fp_pool p = []" and "\<not> fp_shutdown p" and "0 < fp_poolSize p"
    and "io_fd_ok env" and "io_open_ok env"
  shows "acquire p = Blocks \<and> (\<exists>p' f' os p''. replenish_turn env p f = Returns (False, p', f')
    \<and> acquire p' = Returns ((pool_path p (fp_next_id p), os), p'') \<and> os_pos os = 0 \<and> fp_pool p'' = [])"
  using assms
  by (auto simp: acquire_def replenish_turn_def replenish_wakes_def create_file_def publish_def
      Let_def pre_allocate_def unat_gt_0 word_greater_zero_iff)

theorem pool_progress_witness:
  "\<exists>p' f' os p''. replenish_turn \<lparr>io_fd_ok = True, io_alloc_ok = False, io_open_ok = True\<rparr>
      (fp_new ''db'' ''L0-'' ''.sst'' 4 1 0) fs_empty = Returns (False, p', f')
    \<and> acquire p' = Returns ((''db/L0-000001.sst'', os), p'')"
proof -
  have n: "pool_path (fp_new ''db'' ''L0-'' ''.sst'' 4 1 0) 1 = ''db/L0-000001.sst''"
    by code_simp
  show ?thesis
    using pool_progress [of "fp_new ''db'' ''L0-'' ''.sst'' 4 1 0"
        "\<lparr>io_fd_ok = True, io_alloc_ok = False, io_open_ok = True\<rparr>" fs_empty] n
    by (auto simp: fp_new_def)
qed

text \<open>
  With a pool size of zero the worker never creates a file, and a client waits until the destructor runs.
\<close>

theorem pool_starves:
  assumes "pool_step\<^sup>*\<^sup>* (fp_new d pfx sfx 0 start pre, PwCheck, f) (p, w, f')" and "\<not> fp_shutdown p"
  shows "acquire p = Blocks"
proof -
  have "fp_poolSize (fst t) = 0 \<and> fp_pool (fst t) = [] \<and> (fst (snd t) = PwCheck \<or> fst (snd t) = PwExit)"
    if "pool_step\<^sup>*\<^sup>* (fp_new d pfx sfx 0 start pre, PwCheck, f) t" for t
    using that
  proof (induction rule: rtranclp_induct)
    case (step s t)
    then show ?case using empty_pool_starves [of "fst s" "fst (snd s)" "snd (snd s)" "fst t" "fst (snd t)" "snd (snd t)"]
      by simp
  qed (simp add: fp_new_def)
  from this [OF assms(1)] assms(2) show ?thesis by (simp add: acquire_def)
qed

theorem pool_starves_witness: "acquire (fp_new ''db'' ''L0-'' ''.sst'' 0 1 0) = Blocks"
  by (rule pool_starves [of "''db''" "''L0-''" "''.sst''" 1 0 fs_empty _ PwCheck fs_empty]) (simp_all add: fp_new_def)

end
