(* ===== verification/File_Closer.thy ===== *)
theory File_Closer
  imports Std_Io
begin

text \<open>
  The background closer of \<open>lib/manager/store/native/file_closer.cpp\<close>: flushed SSTable
  streams queue in \<open>_pending\<close> and a worker closes them a batch at a time; the destructor
  closes what is left after the worker has stopped. The list \<open>fc_closed\<close> records the
  streams closed so far, in order.
\<close>

section \<open>State and operations\<close>

datatype closer_worker = CwWait | CwClosing "ofstream list" | CwExit

record file_closer =
  fc_batchSize :: u64
  fc_pending :: "ofstream list"
  fc_shutdown :: bool
  fc_worker :: closer_worker
  fc_closed :: "ofstream list"

definition fc_new :: "u64 \<Rightarrow> file_closer" where
  "fc_new batchSize = \<lparr>fc_batchSize = batchSize, fc_pending = [], fc_shutdown = False,
     fc_worker = CwWait, fc_closed = []\<rparr>"

definition scheduleClose :: "ofstream \<Rightarrow> file_closer \<Rightarrow> file_closer" where
  "scheduleClose os c = c\<lparr>fc_pending := fc_pending c @ [os]\<rparr>"

definition closer_wakes :: "file_closer \<Rightarrow> bool" where
  "closer_wakes c \<longleftrightarrow> unat (fc_batchSize c) \<le> length (fc_pending c) \<or> fc_shutdown c"

text \<open>The critical section of \<open>workerLoop\<close>: return on an empty shutdown, else swap the batch out.\<close>

definition closer_take :: "file_closer \<Rightarrow> file_closer outcome" where
  "closer_take c =
     (if \<not> closer_wakes c then Blocks
      else if fc_shutdown c \<and> fc_pending c = [] then Returns (c\<lparr>fc_worker := CwExit\<rparr>)
      else Returns (c\<lparr>fc_worker := CwClosing (fc_pending c), fc_pending := []\<rparr>))"

text \<open>\<open>if (f && f->is_open()) f->close()\<close> on every stream of a list.\<close>

fun close_all :: "ofstream list \<Rightarrow> ofstream list" where
  "close_all [] = []"
| "close_all (os # oss) = (if os_is_open os then os_close os # close_all oss else close_all oss)"

text \<open>One turn of \<open>workerLoop\<close>, not interrupted.\<close>

definition closer_turn :: "file_closer \<Rightarrow> file_closer outcome" where
  "closer_turn c = bind_outcome (closer_take c) (\<lambda>c'. case fc_worker c' of
       CwClosing batch \<Rightarrow> Returns (c'\<lparr>fc_worker := CwWait, fc_closed := fc_closed c' @ close_all batch\<rparr>)
     | _ \<Rightarrow> Returns c')"

inductive closer_step :: "file_closer \<Rightarrow> file_closer \<Rightarrow> bool" where
  schedule: "closer_step c (scheduleClose os c)"
| worker_take: "fc_worker c = CwWait \<Longrightarrow> closer_take c = Returns c' \<Longrightarrow> closer_step c c'"
| worker_close: "fc_worker c = CwClosing batch \<Longrightarrow>
    closer_step c (c\<lparr>fc_worker := CwWait, fc_closed := fc_closed c @ close_all batch\<rparr>)"
| shutdown: "closer_step c (c\<lparr>fc_shutdown := True\<rparr>)"

text \<open>The destructor after the join: close the remaining streams.\<close>

definition closer_finish :: "file_closer \<Rightarrow> file_closer" where
  "closer_finish c = c\<lparr>fc_pending := [], fc_closed := fc_closed c @ close_all (fc_pending c)\<rparr>"

section \<open>Nothing is lost and nothing is closed twice\<close>

definition in_flight :: "file_closer \<Rightarrow> ofstream list" where
  "in_flight c = (case fc_worker c of CwClosing batch \<Rightarrow> batch | _ \<Rightarrow> []) @ fc_pending c"

text \<open>The paths of the scheduled streams, in scheduling order: closed, being closed, pending.\<close>

definition closer_paths :: "file_closer \<Rightarrow> string list" where
  "closer_paths c = map os_path (fc_closed c @ in_flight c)"

definition closer_inv :: "file_closer \<Rightarrow> bool" where
  "closer_inv c \<longleftrightarrow> (\<forall>os \<in> set (fc_closed c). \<not> os_is_open os)
     \<and> (\<forall>os \<in> set (in_flight c). os_is_open os)
     \<and> (fc_worker c = CwExit \<longrightarrow> fc_shutdown c)"

lemma close_all_open:
  "\<forall>os \<in> set oss. os_is_open os \<Longrightarrow> close_all oss = map os_close oss"
  by (induction oss) auto

lemma os_close_simps [simp]: "os_path (os_close os) = os_path os" "\<not> os_is_open (os_close os)"
  by (simp_all add: os_close_def)

lemma closer_inv_new [simp]: "closer_inv (fc_new n)"
  by (simp add: closer_inv_def fc_new_def in_flight_def)

lemma closer_inv_schedule: "closer_inv c \<Longrightarrow> os_is_open os \<Longrightarrow> closer_inv (scheduleClose os c)"
  by (auto simp: closer_inv_def scheduleClose_def in_flight_def split: closer_worker.splits)

text \<open>
  Every step but scheduling leaves the sequence of paths as it is: a stream moves from
  pending to closed and is neither dropped nor repeated.
\<close>

lemma closer_take_inv:
  assumes "closer_inv c" and "fc_worker c = CwWait" and "closer_take c = Returns c'"
  shows "closer_inv c' \<and> closer_paths c' = closer_paths c"
  using assms
  by (auto simp: closer_take_def closer_inv_def closer_paths_def in_flight_def split: if_splits)

lemma closer_close_inv:
  assumes "closer_inv c" and "fc_worker c = CwClosing batch"
  shows "closer_inv (c\<lparr>fc_worker := CwWait, fc_closed := fc_closed c @ close_all batch\<rparr>)
    \<and> closer_paths (c\<lparr>fc_worker := CwWait, fc_closed := fc_closed c @ close_all batch\<rparr>) = closer_paths c"
proof -
  from assms have "\<forall>os \<in> set batch. os_is_open os" by (simp add: closer_inv_def in_flight_def)
  with assms show ?thesis
    by (auto simp: closer_inv_def closer_paths_def in_flight_def close_all_open comp_def)
qed

lemma closer_finish_spec:
  assumes "closer_inv c" and "fc_worker c = CwExit"
  shows "map os_path (fc_closed (closer_finish c)) = closer_paths c"
    and "\<forall>os \<in> set (fc_closed (closer_finish c)). \<not> os_is_open os"
proof -
  from assms have "\<forall>os \<in> set (fc_pending c). os_is_open os" by (simp add: closer_inv_def in_flight_def)
  with assms show "map os_path (fc_closed (closer_finish c)) = closer_paths c"
    and "\<forall>os \<in> set (fc_closed (closer_finish c)). \<not> os_is_open os"
    by (auto simp: closer_finish_def closer_paths_def in_flight_def closer_inv_def close_all_open comp_def)
qed

section \<open>Runs of the closer\<close>

text \<open>
  The states a closer reaches from its construction, together with the streams scheduled
  on the way; \<open>FilePool\<close> only hands out open streams, so these are open.
\<close>

inductive closer_run :: "u64 \<Rightarrow> ofstream list \<Rightarrow> file_closer \<Rightarrow> bool" for n where
  run_new: "closer_run n [] (fc_new n)"
| run_schedule: "closer_run n oss c \<Longrightarrow> os_is_open os \<Longrightarrow>
    closer_run n (oss @ [os]) (scheduleClose os c)"
| run_take: "closer_run n oss c \<Longrightarrow> fc_worker c = CwWait \<Longrightarrow> closer_take c = Returns c' \<Longrightarrow>
    closer_run n oss c'"
| run_close: "closer_run n oss c \<Longrightarrow> fc_worker c = CwClosing batch \<Longrightarrow>
    closer_run n oss (c\<lparr>fc_worker := CwWait, fc_closed := fc_closed c @ close_all batch\<rparr>)"
| run_shutdown: "closer_run n oss c \<Longrightarrow> closer_run n oss (c\<lparr>fc_shutdown := True\<rparr>)"

lemma closer_run_step:
  "closer_run n oss c \<Longrightarrow> oss = [] \<and> c = fc_new n \<or>
    (\<exists>c0. closer_step c0 c \<and> (\<exists>oss0. closer_run n oss0 c0))"
  by (induction rule: closer_run.cases) (blast intro: closer_step.intros)+

lemma closer_run_inv:
  "closer_run n oss c \<Longrightarrow> closer_inv c \<and> closer_paths c = map os_path oss"
proof (induction rule: closer_run.induct)
  case run_new
  then show ?case by (simp add: closer_paths_def) (simp add: fc_new_def in_flight_def)
next
  case (run_schedule oss c os)
  then show ?case
    by (auto simp: closer_inv_schedule)
      (auto simp: closer_paths_def in_flight_def scheduleClose_def split: closer_worker.splits)
next
  case (run_take oss c c')
  then show ?case using closer_take_inv by metis
next
  case (run_close oss c batch)
  then show ?case using closer_close_inv by metis
next
  case (run_shutdown oss c)
  then show ?case by (simp add: closer_inv_def closer_paths_def in_flight_def)
qed

section \<open>Properties\<close>

text \<open>
  C32. Every stream scheduled is closed, in the order of scheduling, once the worker has exited and the
  destructor is done.
\<close>

theorem closer_conserves:
  assumes "closer_run n oss c" and "fc_worker c = CwExit"
  shows "map os_path (fc_closed (closer_finish c)) = map os_path oss
    \<and> (\<forall>os \<in> set (fc_closed (closer_finish c)). \<not> os_is_open os)"
  using closer_run_inv [OF assms(1)] closer_finish_spec [OF _ assms(2)] by auto

theorem closer_conserves_witness:
  "let os = \<lparr>os_path = ''t'', os_pos = 7, os_is_open = True, os_good = True\<rparr>;
       c = \<lparr>fc_batchSize = 4, fc_pending = [os], fc_shutdown = True, fc_worker = CwExit, fc_closed = []\<rparr>
   in map os_path (fc_closed (closer_finish c)) = [''t'']"
proof -
  let ?os = "\<lparr>os_path = ''t'', os_pos = 7, os_is_open = True, os_good = True\<rparr>"
  let ?c = "\<lparr>fc_batchSize = 4, fc_pending = [?os], fc_shutdown = True, fc_worker = CwExit, fc_closed = []\<rparr>"
  let ?d = "\<lparr>fc_batchSize = 4, fc_pending = [], fc_shutdown = True, fc_worker = CwWait, fc_closed = []\<rparr>"
  have "closer_run 4 [] ?d" using run_shutdown [OF run_new [of 4]] by (simp add: fc_new_def)
  then have "closer_run 4 [] (?d\<lparr>fc_worker := CwExit\<rparr>)"
    by (rule run_take) (simp_all add: closer_take_def closer_wakes_def)
  from run_schedule [OF this, of ?os] have "closer_run 4 [?os] ?c" by (simp add: scheduleClose_def)
  from closer_conserves [OF this] show ?thesis by (simp add: Let_def)
qed

end
