(* ===== verification/Sst_Manager.thy ===== *)
theory Sst_Manager
  imports Memtable Sst_Format File_Pool File_Closer
begin

text \<open>
  The SSTable manager of \<open>lib/manager/store/native/sstable_manager.cpp\<close>: a list of indexed
  level-0 tables, newest first, a pool of files to write to and a closer. \<open>flushMemtable\<close>
  writes a memtable to a new file and prepends its index; \<open>get\<close> and \<open>scan\<close> search the
  list from the newest table to the oldest; the constructor recovers the list from the
  files in the directory. The invariant \<open>sst_inv\<close> relates the manager and the directory to
  the list of memtable contents flushed so far.
\<close>

section \<open>State and operations\<close>

record sst_manager =
  sm_dbPath :: string
  sm_filePool :: "file_pool option"
  sm_fileCloser :: "file_closer option"
  sm_head :: "l0_index list"

definition flushMemtable :: "memtable \<Rightarrow> sst_manager \<Rightarrow> fs \<Rightarrow> (bool \<times> sst_manager \<times> fs) outcome" where
  "flushMemtable m mgr f =
     (if mt_empty m then Returns (True, mgr, f)
      else case sm_filePool mgr of None \<Rightarrow> Undefined | Some pool \<Rightarrow>
        bind_outcome (acquire pool) (\<lambda>((path, os), pool').
          let mgr1 = mgr\<lparr>sm_filePool := Some pool'\<rparr> in
          if \<not> os_good os then Returns (False, mgr1, f)
          else case write_entries (mt_getData m) os f [] of (os', f', offs) \<Rightarrow>
            (case sm_fileCloser mgr of None \<Rightarrow> Undefined | Some c \<Rightarrow>
               Returns (True,
                 mgr1\<lparr>sm_fileCloser := Some (scheduleClose os' c),
                      sm_head := \<lparr>l0_path = path, l0_offsets = build_index offs\<rparr> # sm_head mgr\<rparr>,
                 f'))))"

text \<open>
  \<open>SSTableManager::get\<close>: the walk over the linked list; a table whose index knows the key
  but whose file does not deliver it is passed over.
\<close>

definition sst_get :: "fs \<Rightarrow> sst_manager \<Rightarrow> key \<Rightarrow> val option" where
  "sst_get f mgr k = search_levels (table_get f) (sm_head mgr) k"

text \<open>\<open>SSTableManager::scan\<close>: only keys not seen yet are read; the flag is \<open>found_any\<close>.\<close>

fun scan_run :: "fs \<Rightarrow> string \<Rightarrow> offsets \<Rightarrow> scan_state \<times> bool \<Rightarrow> scan_state \<times> bool" where
  "scan_run f path [] st = st"
| "scan_run f path ((k, off) # es) ((results, deleted), found_any) =
     scan_run f path es
       (if map_of results k = None \<and> k \<notin> deleted then
          (case readValueAt f path off k of
             None \<Rightarrow> ((results, deleted), found_any)
           | Some v \<Rightarrow> if v = MEMTABLE_TOMBSTONE then ((results, insert k deleted), found_any)
               else ((omap_put k v results, deleted), True))
        else ((results, deleted), found_any))"

fun scan_tables :: "fs \<Rightarrow> string \<Rightarrow> l0_index list \<Rightarrow> scan_state \<times> bool \<Rightarrow> scan_state \<times> bool" where
  "scan_tables f p [] st = st"
| "scan_tables f p (ix # ixs) st =
     scan_tables f p ixs (scan_run f (l0_path ix) (prefix_run (l0_offsets ix) p) st)"

definition sst_scan :: "fs \<Rightarrow> sst_manager \<Rightarrow> string \<Rightarrow> scan_state \<Rightarrow> scan_state \<times> bool" where
  "sst_scan f mgr p st = scan_tables f p (sm_head mgr) (st, False)"

text \<open>\<open>SSTableManager::close\<close>: both helpers are destroyed; the closer closes its files first.\<close>

definition sst_close :: "sst_manager \<Rightarrow> sst_manager" where
  "sst_close mgr = mgr\<lparr>sm_fileCloser := None, sm_filePool := None\<rparr>"

section \<open>The scan over the tables\<close>

lemma scan_run_spec:
  "index_ok es \<Longrightarrow> scan_ok (fst st) \<Longrightarrow>
    scan_ok (fst (scan_run f path es st))
    \<and> scan_view (fst (scan_run f path es st)) =
        (\<lambda>k. case map_of es k of None \<Rightarrow> None | Some off \<Rightarrow> readValueAt f path off k) ++ scan_view (fst st)"
proof (induction f path es st rule: scan_run.induct)
  case (1 f path st)
  then show ?case by (auto simp: map_add_def fun_eq_iff split: option.split)
next
  case (2 f path k off es results deleted found_any)
  let ?st = "if map_of results k = None \<and> k \<notin> deleted then
      (case readValueAt f path off k of
         None \<Rightarrow> ((results, deleted), found_any)
       | Some v \<Rightarrow> if v = MEMTABLE_TOMBSTONE then ((results, insert k deleted), found_any)
           else ((omap_put k v results, deleted), True))
    else ((results, deleted), found_any)"
  have new: "k \<notin> fst ` set results" if "map_of results k = None"
    using that by (simp add: map_of_eq_None_iff)
  have ok: "scan_ok (fst ?st)"
    using "2.prems"(2) new set_omap_put [of k _ results]
    by (fastforce simp: scan_ok_def split: option.split)
  have view: "scan_view (fst ?st) = (case scan_view (results, deleted) k of
        Some v \<Rightarrow> scan_view (results, deleted)
      | None \<Rightarrow> (case readValueAt f path off k of None \<Rightarrow> scan_view (results, deleted)
                 | Some v \<Rightarrow> (scan_view (results, deleted))(k \<mapsto> v)))"
    by (auto simp: scan_view_def fun_eq_iff split: option.split)
  have "index_ok es" and "map_of es k = None"
    using "2.prems"(1) by (auto simp: map_of_eq_None_iff)
  with "2.IH" ok view show ?case
    by (auto simp: map_add_def fun_eq_iff split: option.split)
qed

lemma scan_tables_spec:
  "\<forall>ix \<in> set ixs. table_ok ix \<Longrightarrow> scan_ok (fst st) \<Longrightarrow>
    scan_ok (fst (scan_tables f p ixs st))
    \<and> scan_view (fst (scan_tables f p ixs st)) =
        (merge_levels (table_map f) ixs |` with_prefix p) ++ scan_view (fst st)"
proof (induction f p ixs st rule: scan_tables.induct)
  case (2 f p ix ixs st)
  let ?st = "scan_run f (l0_path ix) (prefix_run (l0_offsets ix) p) st"
  have ok: "index_ok (l0_offsets ix)" using 2 by (simp add: table_ok_def)
  then have "index_ok (prefix_run (l0_offsets ix) p)"
    by (simp add: prefix_run_filter index_ok_def sorted_wrt_map sorted_wrt_filter)
  with "2.prems"(2) have "scan_ok (fst ?st)" and view: "scan_view (fst ?st) =
      (\<lambda>k. case map_of (prefix_run (l0_offsets ix) p) k of None \<Rightarrow> None
           | Some off \<Rightarrow> readValueAt f (l0_path ix) off k) ++ scan_view (fst st)"
    using scan_run_spec by blast+
  have "(\<lambda>k. case map_of (prefix_run (l0_offsets ix) p) k of None \<Rightarrow> None
           | Some off \<Rightarrow> readValueAt f (l0_path ix) off k) = table_map f ix |` with_prefix p"
    using ok by (auto simp: map_of_prefix_run table_map_def restrict_map_def fun_eq_iff)
  with "2.IH" "2.prems" \<open>scan_ok (fst ?st)\<close> view show ?case
    by (auto simp: map_add_def restrict_map_def fun_eq_iff split: option.split)
qed simp

lemma sst_get_content:
  "\<forall>ix \<in> set (sm_head mgr). table_ok ix \<Longrightarrow>
    sst_get f mgr k = merge_levels (table_map f) (sm_head mgr) k"
  by (simp add: sst_get_def table_level.search_content)

text \<open>\<open>found_any\<close> says whether the scan added a live key.\<close>

definition live_keys :: "scan_state \<times> bool \<Rightarrow> key set" where
  "live_keys st = fst ` set (fst (fst st))"

lemma scan_run_grows: "live_keys st \<subseteq> live_keys (scan_run f path es st)"
proof (induction f path es st rule: scan_run.induct)
  case (2 f path k off es results deleted found_any)
  show ?case
    unfolding scan_run.simps by (rule subset_trans [OF _ "2.IH"]) (auto simp: live_keys_def split: option.split)
qed simp

lemma scan_run_found:
  "snd (scan_run f path es st) \<longleftrightarrow> snd st \<or> live_keys (scan_run f path es st) \<noteq> live_keys st"
proof (induction f path es st rule: scan_run.induct)
  case (2 f path k off es results deleted found_any)
  show ?case
  proof (cases "map_of results k = None \<and> k \<notin> deleted")
    case True
    then have new: "k \<notin> fst ` set results" by (simp add: map_of_eq_None_iff)
    show ?thesis
    proof (cases "readValueAt f path off k")
      case (Some v)
      have "k \<in> live_keys (scan_run f path es ((omap_put k v results, deleted), True))"
        using scan_run_grows [of "((omap_put k v results, deleted), True)" f path es]
        by (auto simp: live_keys_def)
      with True Some new "2.IH" show ?thesis
        by (auto simp: live_keys_def)
    qed (use True "2.IH" in \<open>auto simp: live_keys_def\<close>)
  qed (use "2.IH" in \<open>auto simp: live_keys_def\<close>)
qed auto

lemma scan_tables_grows: "live_keys st \<subseteq> live_keys (scan_tables f p ixs st)"
  by (induction f p ixs st rule: scan_tables.induct) (use scan_run_grows in force)+

lemma scan_tables_found:
  "snd (scan_tables f p ixs st) \<longleftrightarrow> snd st \<or> live_keys (scan_tables f p ixs st) \<noteq> live_keys st"
proof (induction f p ixs st rule: scan_tables.induct)
  case (2 f p ix ixs st)
  let ?st = "scan_run f (l0_path ix) (prefix_run (l0_offsets ix) p) st"
  have "live_keys st \<subseteq> live_keys ?st" "live_keys ?st \<subseteq> live_keys (scan_tables f p ixs ?st)"
    by (rule scan_run_grows scan_tables_grows)+
  with 2 show ?case by (auto simp: scan_run_found)
qed simp

section \<open>The directory and the list of flushed tables\<close>

text \<open>
  A generation is one flushed memtable: the id of its file and its entries.
  \<open>disk_inv pre db gens head f\<close> says that the indexes in \<open>head\<close> describe the generations,
  newest first, that each file holds exactly the records of its generation (followed by
  zero bytes where files are pre-allocated), and that every other file of the directory
  is a blank file of the pool.
\<close>

type_synonym generation = "u64 \<times> (key \<times> val) list"

definition l0_file :: "string \<Rightarrow> u64 \<Rightarrow> string" where
  "l0_file db i = path_join db (''L0-'' @ padded_id i @ ''.sst'')"

lemma l0_file_inj [simp]: "l0_file db i = l0_file db j \<longleftrightarrow> i = j"
  by (simp add: l0_file_def)

definition table_rep :: "u64 \<Rightarrow> string \<Rightarrow> fs \<Rightarrow> generation \<Rightarrow> l0_index \<Rightarrow> bool" where
  "table_rep pre db f g ix \<longleftrightarrow> l0_path ix = l0_file db (fst g)
     \<and> (\<forall>e \<in> set (snd g). wf_entry e) \<and> length (file_bytes (snd g)) < 2 ^ 63
     \<and> (\<exists>z. fs_read f (l0_path ix) = Some (file_bytes (snd g) @ z) \<and> blank pre z)
     \<and> l0_offsets ix = build_index (entry_offsets 0 (snd g))"

definition leftover :: "u64 \<Rightarrow> string \<Rightarrow> string \<Rightarrow> char list \<Rightarrow> bool" where
  "leftover pre db q c \<longleftrightarrow> (\<exists>i. q = l0_file db i) \<and> blank pre c"

definition disk_inv :: "u64 \<Rightarrow> string \<Rightarrow> generation list \<Rightarrow> l0_index list \<Rightarrow> fs \<Rightarrow> bool" where
  "disk_inv pre db gens head f \<longleftrightarrow> list_all2 (table_rep pre db f) gens head
     \<and> sorted_wrt (\<lambda>i j. j < i) (map fst gens)
     \<and> (\<forall>q c. in_dir db q \<and> fs_read f q = Some c \<and> q \<notin> l0_path ` set head
          \<longrightarrow> leftover pre db q c)
     \<and> fs_ok f \<and> fs_small f \<and> db \<in> set (fs_dirs f)"

definition gens_map :: "generation list \<Rightarrow> key \<rightharpoonup> val" where
  "gens_map gens = merge_levels (\<lambda>g. entries_map (snd g)) gens"

lemma gens_map_simps [simp]:
  "gens_map [] = Map.empty" "gens_map (g # gens) = gens_map gens ++ entries_map (snd g)"
  by (simp_all add: gens_map_def)

lemma table_rep_map: "table_rep pre db f g ix \<Longrightarrow> table_map f ix = entries_map (snd g)"
  by (auto simp: table_rep_def intro: table_map_entries)

lemma table_rep_ok: "table_rep pre db f g ix \<Longrightarrow> table_ok ix"
  by (simp add: table_rep_def table_ok_def)

lemma tables_rep_merge:
  "list_all2 (table_rep pre db f) gens head \<Longrightarrow> merge_levels (table_map f) head = gens_map gens"
  by (induction rule: list_all2_induct) (simp_all add: table_rep_map)

lemma tables_rep_ok:
  "list_all2 (table_rep pre db f) gens head \<Longrightarrow> \<forall>ix \<in> set head. table_ok ix"
  by (induction rule: list_all2_induct) (simp_all add: table_rep_ok)

lemma disk_inv_tables:
  assumes "disk_inv pre db gens head f"
  shows "\<forall>ix \<in> set head. table_ok ix" and "merge_levels (table_map f) head = gens_map gens"
  using assms tables_rep_ok [of pre db f gens head] tables_rep_merge [of pre db f gens head]
  by (simp_all add: disk_inv_def)

text \<open>The manager at work: the pool writes to the directory and its ids are younger.\<close>

definition sst_inv ::
  "u64 \<Rightarrow> generation list \<Rightarrow> u64 list \<Rightarrow> sst_manager \<Rightarrow> fs \<Rightarrow> bool" where
  "sst_inv pre gens ids mgr f \<longleftrightarrow> disk_inv pre (sm_dbPath mgr) gens (sm_head mgr) f
     \<and> sm_fileCloser mgr \<noteq> None
     \<and> (\<exists>p. sm_filePool mgr = Some p \<and> fp_directory p = sm_dbPath mgr \<and> fp_prefix p = ''L0-''
          \<and> fp_suffix p = ''.sst'' \<and> pool_inv ids p f
          \<and> (fp_preAllocationSize p \<noteq> 0 \<longrightarrow> pre \<noteq> 0) \<and> unat (fp_preAllocationSize p) < 2 ^ 63 \<and> \<not> fp_shutdown p
          \<and> (\<forall>g \<in> set gens. fst g < fp_next_id p \<and> (\<forall>i \<in> set ids. fst g < i)))"

lemma sst_get_gens:
  "disk_inv pre (sm_dbPath mgr) gens (sm_head mgr) f \<Longrightarrow> sst_get f mgr k = gens_map gens k"
  by (simp add: sst_get_content disk_inv_tables)

lemma sst_scan_gens:
  assumes "disk_inv pre (sm_dbPath mgr) gens (sm_head mgr) f" and "scan_ok st"
  shows "scan_ok (fst (sst_scan f mgr p st))"
    and "scan_view (fst (sst_scan f mgr p st)) = (gens_map gens |` with_prefix p) ++ scan_view st"
  using scan_tables_spec [OF disk_inv_tables(1) [OF assms(1)], of "(st, False)" f p] assms
  by (simp_all add: sst_scan_def disk_inv_tables(2))

section \<open>Flushing a memtable\<close>

lemma pool_path_l0_file:
  "fp_prefix p = ''L0-'' \<Longrightarrow> fp_suffix p = ''.sst'' \<Longrightarrow> pool_path p i = l0_file (fp_directory p) i"
  by (simp add: pool_path_def pool_file_name_def l0_file_def)

lemma blank_mono: "blank n c \<Longrightarrow> (n \<noteq> 0 \<longrightarrow> pre \<noteq> 0) \<Longrightarrow> blank pre c"
  by (auto simp: blank_def)

lemma blank_drop: "blank n c \<Longrightarrow> blank n (drop k c)"
  by (auto simp: blank_def)

lemma table_rep_other:
  assumes "table_rep pre db f g ix" and "\<And>q. q \<noteq> l0_file db j \<Longrightarrow> fs_read f' q = fs_read f q"
    and "fst g \<noteq> j"
  shows "table_rep pre db f' g ix"
  using assms by (auto simp: table_rep_def)

lemma list_all2_strengthen:
  "list_all2 P xs ys \<Longrightarrow> (\<And>x y. x \<in> set xs \<Longrightarrow> P x y \<Longrightarrow> Q x y) \<Longrightarrow> list_all2 Q xs ys"
  by (induction rule: list_all2_induct) auto

text \<open>Writing the entries of a new generation to a blank file with a younger id.\<close>

lemma disk_inv_extend:
  assumes disk: "disk_inv pre db gens head f" and young: "\<forall>g \<in> set gens. fst g < i"
    and wf: "\<forall>e \<in> set es. wf_entry e" and len: "length (file_bytes es) < 2 ^ 63"
    and new: "fs_read f' (l0_file db i) = Some (file_bytes es @ z)" "blank pre z"
    and other: "\<And>q. q \<noteq> l0_file db i \<Longrightarrow> fs_read f' q = fs_read f q"
    and "fs_dirs f' = fs_dirs f" and "fs_ok f'" "fs_small f'"
  shows "disk_inv pre db ((i, es) # gens)
    (\<lparr>l0_path = l0_file db i, l0_offsets = build_index (entry_offsets 0 es)\<rparr> # head) f'"
proof -
  have "list_all2 (table_rep pre db f') gens head"
  proof (rule list_all2_strengthen)
    show "list_all2 (table_rep pre db f) gens head" using disk by (simp add: disk_inv_def)
    show "table_rep pre db f' g ix" if "g \<in> set gens" "table_rep pre db f g ix" for g ix
      using young that(1) by (intro table_rep_other [OF that(2) other]) auto
  qed
  moreover have "table_rep pre db f' (i, es)
      \<lparr>l0_path = l0_file db i, l0_offsets = build_index (entry_offsets 0 es)\<rparr>"
    using wf len new by (auto simp: table_rep_def)
  moreover have "leftover pre db q c"
    if "in_dir db q" "fs_read f' q = Some c" "q \<noteq> l0_file db i" "q \<notin> l0_path ` set head" for q c
    using disk that other [OF that(3)] by (simp add: disk_inv_def)
  ultimately show ?thesis
    using disk young assms(8-10) by (simp add: disk_inv_def)
qed

text \<open>
  A flush that returns has taken the front file of the pool, written all entries to it
  and prepended its index; no other file has changed.
\<close>

definition flush_effect ::
  "memtable \<Rightarrow> string \<Rightarrow> u64 \<Rightarrow> file_pool \<Rightarrow> sst_manager \<Rightarrow> fs \<Rightarrow> sst_manager \<Rightarrow> fs \<Rightarrow> bool" where
  "flush_effect m path pre p' mgr f mgr' f' \<longleftrightarrow>
     sm_filePool mgr' = Some p' \<and> sm_dbPath mgr' = sm_dbPath mgr \<and> sm_fileCloser mgr' \<noteq> None
     \<and> sm_head mgr' = \<lparr>l0_path = path,
          l0_offsets = build_index (entry_offsets 0 (mt_data m))\<rparr> # sm_head mgr
     \<and> (\<exists>z. fs_read f' path = Some (file_bytes (mt_data m) @ z) \<and> blank pre z)
     \<and> (\<forall>q. q \<noteq> path \<longrightarrow> fs_read f' q = fs_read f q)
     \<and> fs_dirs f' = fs_dirs f \<and> (fs_ok f \<longrightarrow> fs_ok f')
     \<and> (fs_small f \<and> length (file_bytes (mt_data m)) < 2 ^ 63 \<longrightarrow> fs_small f')"

lemma flush_result:
  assumes "sm_filePool mgr = Some p" and "pool_inv ids p f" and ne: "\<not> mt_empty m"
    and ret: "flushMemtable m mgr f = Returns (b, mgr', f')"
  obtains i ids' p' where "b" and "ids = i # ids'" and "p' = p\<lparr>fp_pool := tl (fp_pool p)\<rparr>"
    and "pool_inv ids' p' f" and "\<forall>j \<in> set ids'. i < j" and "i < fp_next_id p"
    and "flush_effect m (pool_path p i) (fp_preAllocationSize p) p' mgr f mgr' f'"
proof -
  from ret ne assms(1) obtain path os p' where acq: "acquire p = Returns ((path, os), p')"
    by (auto simp: flushMemtable_def bind_outcome_Returns_iff)
  from acquire_spec [OF assms(2) acq] obtain i ids' where ids: "ids = i # ids'" "path = pool_path p i"
      "fresh_entry p f i (path, os)" "p' = p\<lparr>fp_pool := tl (fp_pool p)\<rparr>" "pool_inv ids' p' f"
      "\<forall>j \<in> set ids'. i < j" "i < fp_next_id p"
    by blast
  from ids(3) obtain z where os: "os = \<lparr>os_path = path, os_pos = 0, os_is_open = True, os_good = True\<rparr>"
      and z: "fs_read f path = Some z" "blank (fp_preAllocationSize p) z"
    by (auto simp: fresh_entry_def)
  obtain os' f1 offs where w: "write_entries (mt_data m) os f [] = (os', f1, offs)"
    by (cases "write_entries (mt_data m) os f []") auto
  have res: "b" "f' = f1" "sm_filePool mgr' = Some p'" "sm_dbPath mgr' = sm_dbPath mgr"
      "sm_fileCloser mgr' \<noteq> None"
      "sm_head mgr' = \<lparr>l0_path = path, l0_offsets = build_index offs\<rparr> # sm_head mgr"
    using ret ne assms(1) acq w
    by (auto simp: flushMemtable_def mt_getData_def os Let_def split: option.splits)
  from write_entries_spec [of os f "[]" z "mt_data m" "[]" os' f1 offs] w z os
  have wr: "offs = entry_offsets 0 (mt_data m)"
      "fs_read f1 path = Some (file_bytes (mt_data m) @ drop (length (file_bytes (mt_data m))) z)"
      "\<And>q. q \<noteq> path \<Longrightarrow> fs_read f1 q = fs_read f q" "fs_dirs f1 = fs_dirs f" "fs_ok f \<Longrightarrow> fs_ok f1"
    by auto
  have "fs_small f1" if "fs_small f" "length (file_bytes (mt_data m)) < 2 ^ 63"
  proof (rule fs_small_update [OF that(1) wr(3)])
    have "length z < 2 ^ 63" using that(1) z(1) by (simp add: fs_small_def)
    with that(2) show "length c < 2 ^ 63" if "fs_read f1 path = Some c" for c
      using that wr(2) by auto
  qed
  then have "flush_effect m (pool_path p i) (fp_preAllocationSize p) p' mgr f mgr' f'"
    using ids(2) blank_drop [OF z(2)] res wr by (auto simp: flush_effect_def)
  with that res(1) ids show ?thesis by blast
qed

lemma pool_inv_untouched:
  assumes "pool_inv ids p f" and "\<And>q. q \<noteq> pool_path p i \<Longrightarrow> fs_read f' q = fs_read f q"
    and "i \<notin> set ids" and "i < fp_next_id p"
  shows "pool_inv ids p f'"
proof -
  have "list_all2 (fresh_entry p f') ids (fp_pool p)"
  proof (rule list_all2_strengthen)
    show "list_all2 (fresh_entry p f) ids (fp_pool p)" using assms(1) by (simp add: pool_inv_def)
    show "fresh_entry p f' j e" if "j \<in> set ids" "fresh_entry p f j e" for j e
      using assms(3) that(1) by (intro fresh_entry_other [OF that(2) assms(2)]) auto
  qed
  moreover have "fs_read f' (pool_path p j) = None" if "fp_next_id p \<le> j" for j
    using assms that by (auto simp: pool_inv_def)
  ultimately show ?thesis using assms(1) by (simp add: pool_inv_def)
qed

lemma flush_spec:
  assumes inv: "sst_inv pre gens ids mgr f" and ne: "\<not> mt_empty m"
    and wf: "\<forall>e \<in> set (mt_data m). wf_entry e" and len: "length (file_bytes (mt_data m)) < 2 ^ 63"
    and ret: "flushMemtable m mgr f = Returns (b, mgr', f')"
  obtains i ids' where "ids = i # ids'" and "b"
    and "sst_inv pre ((i, mt_data m) # gens) ids' mgr' f'"
    and "sm_dbPath mgr' = sm_dbPath mgr" and "fs_dirs f' = fs_dirs f"
proof -
  let ?db = "sm_dbPath mgr"
  from inv obtain p where p: "sm_filePool mgr = Some p" "fp_directory p = ?db"
      "fp_prefix p = ''L0-''" "fp_suffix p = ''.sst''" "pool_inv ids p f"
      "fp_preAllocationSize p \<noteq> 0 \<longrightarrow> pre \<noteq> 0"
      "\<forall>g \<in> set gens. fst g < fp_next_id p \<and> (\<forall>i \<in> set ids. fst g < i)" "\<not> fp_shutdown p"
      "unat (fp_preAllocationSize p) < 2 ^ 63"
    and disk: "disk_inv pre ?db gens (sm_head mgr) f"
    by (auto simp: sst_inv_def)
  have path: "pool_path p i = l0_file ?db i" for i using p by (simp add: pool_path_l0_file)
  from flush_result [OF p(1,5) ne ret] obtain i ids' p' where b: "b" and ids: "ids = i # ids'"
      and p': "p' = p\<lparr>fp_pool := tl (fp_pool p)\<rparr>" "pool_inv ids' p' f"
      and i: "\<forall>j \<in> set ids'. i < j" "i < fp_next_id p"
      and "flush_effect m (l0_file ?db i) (fp_preAllocationSize p) p' mgr f mgr' f'"
    unfolding path by blast
  then obtain z where r: "sm_filePool mgr' = Some p'" "sm_dbPath mgr' = ?db" "sm_fileCloser mgr' \<noteq> None"
      "sm_head mgr' = \<lparr>l0_path = l0_file ?db i,
         l0_offsets = build_index (entry_offsets 0 (mt_data m))\<rparr> # sm_head mgr"
      "fs_dirs f' = fs_dirs f" "fs_ok f \<longrightarrow> fs_ok f'" "fs_small f \<longrightarrow> fs_small f'"
      "\<forall>q. q \<noteq> l0_file ?db i \<longrightarrow> fs_read f' q = fs_read f q"
    and z: "fs_read f' (l0_file ?db i) = Some (file_bytes (mt_data m) @ z)" "blank (fp_preAllocationSize p) z"
    using len by (auto simp: flush_effect_def)
  have "disk_inv pre ?db ((i, mt_data m) # gens) (sm_head mgr') f'"
    unfolding r(4)
  proof (rule disk_inv_extend [OF disk _ wf len z(1) blank_mono [OF z(2) p(6)]])
    show "\<forall>g \<in> set gens. fst g < i" using p(7) ids by simp
  qed (use r disk in \<open>auto simp: disk_inv_def\<close>)
  moreover have "pool_inv ids' p' f'"
    using i r(8) path by (intro pool_inv_untouched [OF p'(2), where i = i]) (auto simp: p'(1))
  ultimately have "sst_inv pre ((i, mt_data m) # gens) ids' mgr' f'"
    using r p p' i ids by (auto simp: sst_inv_def)
  with that ids b r(2,5) show ?thesis by blast
qed

text \<open>When the pool holds a file and has not been shut down, the flush returns.\<close>

lemma flush_returns:
  assumes "sst_inv pre gens ids mgr f" and "ids \<noteq> []"
  shows "\<exists>b mgr' f'. flushMemtable m mgr f = Returns (b, mgr', f')"
proof -
  from assms obtain p c where p: "sm_filePool mgr = Some p" "sm_fileCloser mgr = Some c" "pool_inv ids p f"
    by (auto simp: sst_inv_def)
  from p(3) assms(2) obtain e es where "fp_pool p = e # es"
    by (cases ids) (auto simp: pool_inv_def list_all2_Cons1)
  then have "acquire p = Returns (e, p\<lparr>fp_pool := es\<rparr>)" by (simp add: acquire_def)
  with p(1,2) show ?thesis
    by (cases e; cases "write_entries (mt_getData m) (snd e) f []") (auto simp: flushMemtable_def Let_def)
qed

text \<open>It never throws, and it is never undefined.\<close>

lemma flush_no_error:
  assumes "sst_inv pre gens ids mgr f"
  shows "flushMemtable m mgr f \<noteq> Throws e" and "flushMemtable m mgr f \<noteq> Undefined"
proof -
  from assms obtain p c where p: "sm_filePool mgr = Some p" "sm_fileCloser mgr = Some c" "\<not> fp_shutdown p"
    by (auto simp: sst_inv_def)
  show "flushMemtable m mgr f \<noteq> Throws e" "flushMemtable m mgr f \<noteq> Undefined"
    using p by (auto simp: flushMemtable_def acquire_def Let_def split: list.split prod.split)
qed

section \<open>The pool's worker under the manager\<close>

text \<open>A new blank file with an id that no generation uses leaves the directory's invariant alone.\<close>

lemma disk_inv_blank:
  assumes disk: "disk_inv pre db gens head f" and "\<forall>g \<in> set gens. fst g \<noteq> i"
    and other: "\<And>q. q \<noteq> l0_file db i \<Longrightarrow> fs_read f' q = fs_read f q"
    and new: "\<And>c. fs_read f' (l0_file db i) = Some c \<Longrightarrow> blank pre c"
    and "fs_dirs f' = fs_dirs f" and "fs_ok f'" "fs_small f'"
  shows "disk_inv pre db gens head f'"
proof -
  have "list_all2 (table_rep pre db f') gens head"
  proof (rule list_all2_strengthen)
    show "list_all2 (table_rep pre db f) gens head" using disk by (simp add: disk_inv_def)
    show "table_rep pre db f' g ix" if "g \<in> set gens" "table_rep pre db f g ix" for g ix
      using assms(2) that(1) by (intro table_rep_other [OF that(2) other]) auto
  qed
  moreover have "leftover pre db q c"
    if "in_dir db q" "fs_read f' q = Some c" "q \<notin> l0_path ` set head" for q c
  proof (cases "q = l0_file db i")
    case True
    with new that(2) show ?thesis by (auto simp: leftover_def)
  next
    case False
    with disk that other [OF False] show ?thesis by (simp add: disk_inv_def)
  qed
  ultimately show ?thesis using disk assms(5-7) by (simp add: disk_inv_def)
qed

lemma replenish_result:
  assumes "pool_inv ids p f" and "\<not> fp_shutdown p" and "replenish_turn env p f = Returns (b, p', f')"
    and "fp_next_id p < - 1"
  obtains r p1 ids' where "create_file env p f = (r, p1, f')"
    and "p' = p1\<lparr>fp_pool := fp_pool p'\<rparr>" and "ids' = ids \<or> ids' = ids @ [fp_next_id p]"
    and "pool_inv ids' p' f'"
proof -
  obtain r p1 f1 where cf: "create_file env p f = (r, p1, f1)" by (cases "create_file env p f")
  note new = create_file_inv [OF assms(1) cf assms(4)]
  have sh: "\<not> fp_shutdown p1" using create_file_fields [OF cf] assms(2) by simp
  have lt: "\<forall>j \<in> set ids. j < fp_next_id p" using assms(1) by (simp add: pool_inv_def)
  show ?thesis
  proof (cases r)
    case None
    with assms(2,3) cf have "p' = p1" "f' = f1" by (auto simp: replenish_turn_def split: if_splits)
    with that [of r p1 ids] cf new(1) show ?thesis by simp
  next
    case (Some e)
    with assms(2,3) cf have "p' = publish e p1" "f' = f1"
      by (auto simp: replenish_turn_def split: if_splits)
    with that [of r p1 "ids @ [fp_next_id p]"] cf sh publish_inv [OF new(1) new(2) [OF Some] new(3) lt sh]
    show ?thesis by (simp add: publish_def)
  qed
qed

lemma refill_inv:
  assumes inv: "sst_inv pre gens ids mgr f" and p: "sm_filePool mgr = Some p"
    and turn: "replenish_turn env p f = Returns (b, p', f')" and room: "fp_next_id p < - 1"
  shows "\<exists>ids'. sst_inv pre gens ids' (mgr\<lparr>sm_filePool := Some p'\<rparr>) f'"
proof -
  let ?db = "sm_dbPath mgr" and ?i = "fp_next_id p"
  from inv p have pf: "fp_directory p = ?db" "fp_prefix p = ''L0-''" "fp_suffix p = ''.sst''"
      "pool_inv ids p f" "fp_preAllocationSize p \<noteq> 0 \<longrightarrow> pre \<noteq> 0" "\<not> fp_shutdown p"
      "\<forall>g \<in> set gens. fst g < ?i \<and> (\<forall>i \<in> set ids. fst g < i)"
      "unat (fp_preAllocationSize p) < 2 ^ 63"
    and disk: "disk_inv pre ?db gens (sm_head mgr) f" and c: "sm_fileCloser mgr \<noteq> None"
    by (auto simp: sst_inv_def)
  from replenish_result [OF pf(4,6) turn room] obtain r p1 ids' where
      cf: "create_file env p f = (r, p1, f')" and p': "p' = p1\<lparr>fp_pool := fp_pool p'\<rparr>"
      and ids: "ids' = ids \<or> ids' = ids @ [?i]" and inv': "pool_inv ids' p' f'" .
  have none: "fs_read f (pool_path p ?i) = None" using pf(4) by (simp add: pool_inv_def)
  have "fs_small f" using disk by (simp add: disk_inv_def)
  note spec = create_file_spec [OF cf none] and small = create_file_small [OF cf none this pf(8)]
  have path: "pool_path p i = l0_file ?db i" for i using pf by (simp add: pool_path_l0_file)
  have "disk_inv pre ?db gens (sm_head mgr) f'"
  proof (rule disk_inv_blank [OF disk, of ?i])
    show "blank pre c" if "fs_read f' (l0_file ?db ?i) = Some c" for c
      using blank_mono [OF spec(4) pf(5)] that path by simp
  qed (use pf(7) spec small path disk in \<open>auto simp: disk_inv_def\<close>)
  moreover have "\<forall>g \<in> set gens. fst g < ?i + 1 \<and> (\<forall>j \<in> set ids'. fst g < j)"
  proof
    fix g assume g: "g \<in> set gens"
    have lt: "?i < ?i + 1" by (rule u64_less_Suc [OF room])
    from pf(7) g have "fst g < ?i" "\<forall>j \<in> set ids. fst g < j" by blast+
    with ids less_trans [OF _ lt, of "fst g"] show "fst g < ?i + 1 \<and> (\<forall>j \<in> set ids'. fst g < j)" by auto
  qed
  moreover have "fp_directory p' = ?db \<and> fp_prefix p' = ''L0-'' \<and> fp_suffix p' = ''.sst''
      \<and> fp_next_id p' = ?i + 1 \<and> fp_preAllocationSize p' = fp_preAllocationSize p \<and> \<not> fp_shutdown p'"
    by (subst p', subst p', subst p', subst p', subst p', subst p') (simp add: spec(1) pf)
  ultimately have "sst_inv pre gens ids' (mgr\<lparr>sm_filePool := Some p'\<rparr>) f'"
    using pf(5,8) inv' c by (simp add: sst_inv_def)
  then show ?thesis ..
qed

end
