(* ===== verification/Std_Text.thy ===== *)
theory Std_Text
  imports Lsm_Prelude
begin

text \<open>
  The part of the C++ standard library's text interface that the code uses: \<open>std::getline\<close>
  with a delimiter, in the two loops in which it occurs, and the decimal conversions
  \<open>std::stoi\<close> and \<open>std::stoull\<close>.
\<close>

section \<open>Splitting\<close>

text \<open>
  \<open>while (getline(ss, line, d))\<close>: the pieces between delimiters; text behind the last delimiter is a
  piece when it is not empty.
\<close>

function getlines :: "char \<Rightarrow> string \<Rightarrow> string list" where
  "getlines d s = (if s = [] then []
     else takeWhile (\<lambda>c. c \<noteq> d) s # getlines d (drop 1 (dropWhile (\<lambda>c. c \<noteq> d) s)))"
  by pat_completeness auto
termination
proof (relation "measure (length \<circ> snd)")
  fix d and s :: string assume "s \<noteq> []"
  then show "((d, drop 1 (dropWhile (\<lambda>c. c \<noteq> d) s)), d, s) \<in> measure (length \<circ> snd)"
    using length_dropWhile_le [of "\<lambda>c. c \<noteq> d" s] by (cases s) (auto simp: le_imp_less_Suc diff_le_self)
qed simp

declare getlines.simps [simp del]

text \<open>
  \<open>while (ss.good()) getline(ss, piece, d)\<close>: here the loop also reads the empty text behind a last
  delimiter, and the empty text.
\<close>

function fields :: "char \<Rightarrow> string \<Rightarrow> string list" where
  "fields d s = (if d \<notin> set s then [s]
     else takeWhile (\<lambda>c. c \<noteq> d) s # fields d (drop 1 (dropWhile (\<lambda>c. c \<noteq> d) s)))"
  by pat_completeness auto
termination
proof (relation "measure (length \<circ> snd)")
  fix d and s :: string assume "\<not> d \<notin> set s"
  then show "((d, drop 1 (dropWhile (\<lambda>c. c \<noteq> d) s)), d, s) \<in> measure (length \<circ> snd)"
    using length_dropWhile_le [of "\<lambda>c. c \<noteq> d" s] by (cases s) (auto simp: le_imp_less_Suc diff_le_self)
qed simp

declare fields.simps [simp del]

lemma takeWhile_upto: "c \<notin> set s \<Longrightarrow> takeWhile (\<lambda>x. x \<noteq> c) (s @ c # t) = s"
  by (induction s) auto

lemma dropWhile_upto: "c \<notin> set s \<Longrightarrow> dropWhile (\<lambda>x. x \<noteq> c) (s @ c # t) = c # t"
  by (induction s) auto

lemma getlines_Nil [simp]: "getlines d [] = []"
  by (simp add: getlines.simps)

lemma getlines_line: "d \<notin> set s \<Longrightarrow> getlines d (s @ d # t) = s # getlines d t"
  by (subst getlines.simps) (simp add: takeWhile_upto dropWhile_upto)

lemma getlines_last: "d \<notin> set s \<Longrightarrow> s \<noteq> [] \<Longrightarrow> getlines d s = [s]"
proof -
  assume "d \<notin> set s" and ne: "s \<noteq> []"
  then have "\<forall>x \<in> set s. x \<noteq> d" by auto
  then have "takeWhile (\<lambda>c. c \<noteq> d) s = s" "dropWhile (\<lambda>c. c \<noteq> d) s = []"
    by (simp_all add: takeWhile_eq_all_conv)
  moreover from ne have "getlines d s = takeWhile (\<lambda>c. c \<noteq> d) s # getlines d (drop 1 (dropWhile (\<lambda>c. c \<noteq> d) s))"
    by (subst getlines.simps) (rule if_not_P)
  ultimately show ?thesis by (simp only: drop_Nil getlines_Nil)
qed

lemma fields_last: "d \<notin> set s \<Longrightarrow> fields d s = [s]"
  by (simp add: fields.simps)

lemma fields_field: "d \<notin> set s \<Longrightarrow> fields d (s @ d # t) = s # fields d t"
  by (subst fields.simps) (simp add: takeWhile_upto dropWhile_upto)

lemma fields_not_Nil [simp]: "fields d s \<noteq> []"
  by (subst fields.simps) simp

text \<open>Joining with a delimiter, and the two ways of taking the parts apart again.\<close>

fun join_with :: "char \<Rightarrow> string list \<Rightarrow> string" where
  "join_with d [] = []"
| "join_with d [s] = s"
| "join_with d (s # t # ss) = s @ d # join_with d (t # ss)"

lemma fields_join: "ss \<noteq> [] \<Longrightarrow> \<forall>s \<in> set ss. d \<notin> set s \<Longrightarrow> fields d (join_with d ss) = ss"
  by (induction d ss rule: join_with.induct) (simp_all add: fields_last fields_field)

lemma getlines_join:
  "\<forall>s \<in> set ss. d \<notin> set s \<Longrightarrow> ss \<noteq> [] \<longrightarrow> last ss \<noteq> [] \<Longrightarrow> getlines d (join_with d ss) = ss"
  by (induction d ss rule: join_with.induct) (simp_all add: getlines_last getlines_line)

lemma join_with_delimiter:
  "ss \<noteq> [] \<Longrightarrow> \<forall>s \<in> set ss. d \<notin> set s \<Longrightarrow> d \<in> set (join_with d ss) \<longleftrightarrow> 1 < length ss"
  by (induction d ss rule: join_with.induct) auto

section \<open>Decimal numbers\<close>

definition is_space :: "char \<Rightarrow> bool" where
  "is_space c \<longleftrightarrow> (of_char c :: nat) = 32 \<or> (9 \<le> (of_char c :: nat) \<and> (of_char c :: nat) \<le> 13)"

text \<open>The sign and the digits that the conversion functions read.\<close>

definition read_number :: "string \<Rightarrow> bool \<times> string" where
  "read_number s = (let t = dropWhile is_space s in
     ((case t of c # _ \<Rightarrow> c = CHR ''-'' | [] \<Rightarrow> False),
      takeWhile is_digit (case t of c # cs \<Rightarrow> if c = CHR ''-'' \<or> c = CHR ''+'' then cs else t | [] \<Rightarrow> [])))"

text \<open>
  \<open>std::stoull\<close> in base 10: no digits or a value past 64 bits throw (\<open>None\<close>), and a minus sign
  negates modulo \<open>2^64\<close>.
\<close>

definition stoull :: "string \<Rightarrow> u64 option" where
  "stoull s = (case read_number s of (neg, ds) \<Rightarrow>
     if ds = [] \<or> 2 ^ 64 \<le> dec_value ds then None
     else Some (if neg then - word_of_nat (dec_value ds) else word_of_nat (dec_value ds)))"

text \<open>\<open>std::stoi\<close>: \<open>std::invalid_argument\<close> without digits, \<open>std::out_of_range\<close> past \<open>int\<close>.\<close>

definition stoi :: "string \<Rightarrow> int outcome" where
  "stoi s = (case read_number s of (neg, ds) \<Rightarrow>
     let v = (if neg then - int (dec_value ds) else int (dec_value ds)) in
     if ds = [] then Throws ''stoi''
     else if v < - (2 ^ 31) \<or> 2 ^ 31 \<le> v then Throws ''stoi''
     else Returns v)"

lemma digit_not_space: "is_digit c \<Longrightarrow> \<not> is_space c"
  by (auto simp: is_digit_def is_space_def)

lemma digit_not_sign: "is_digit c \<Longrightarrow> c \<noteq> CHR ''-'' \<and> c \<noteq> CHR ''+''"
  by (auto simp: is_digit_def)

lemma read_number_digits:
  assumes "\<forall>c \<in> set s. is_digit c" and "s \<noteq> []"
  shows "read_number s = (False, s)" and "read_number (CHR ''-'' # s) = (True, s)"
    and "read_number (CHR '' '' # s) = (False, s)"
proof -
  obtain c cs where s: "s = c # cs" using assms(2) by (cases s) auto
  have c: "\<not> is_space c" "c \<noteq> CHR ''-''" "c \<noteq> CHR ''+''"
    using assms(1) digit_not_space [of c] digit_not_sign [of c] by (simp_all add: s)
  have t: "takeWhile is_digit s = s" using assms(1) by (simp add: takeWhile_eq_all_conv)
  have "\<not> is_space (CHR ''-'')" "is_space (CHR '' '')" by (simp_all add: is_space_def)
  then show "read_number s = (False, s)" "read_number (CHR ''-'' # s) = (True, s)"
    "read_number (CHR '' '' # s) = (False, s)"
    using c t by (simp_all add: read_number_def s)
qed

lemma stoull_digits:
  assumes "\<forall>c \<in> set s. is_digit c" and "s \<noteq> []" and "dec_value s < 2 ^ 64"
  shows "stoull s = Some (word_of_nat (dec_value s))"
  using assms by (simp add: stoull_def read_number_digits)

lemma stoi_dec: "n < 2 ^ 31 \<Longrightarrow> stoi (dec n) = Returns (int n)"
  and stoi_space_dec: "n < 2 ^ 31 \<Longrightarrow> stoi (CHR '' '' # dec n) = Returns (int n)"
  using read_number_digits [of "dec n"] dec_is_digit by (simp_all add: stoi_def)

lemma stoi_to_string: "- (2 ^ 31) \<le> i \<Longrightarrow> i < 2 ^ 31 \<Longrightarrow> stoi (to_string_int i) = Returns i"
  using read_number_digits [of "dec (nat (- i))"] read_number_digits [of "dec (nat i)"] dec_is_digit
  by (auto simp: stoi_def to_string_int_def)

end
