(* ===== verification/Sst_Recovery.thy ===== *)
theory Sst_Recovery
  imports Sst_Manager Std_Text
begin

text \<open>
  Recovery of the SSTable manager (\<open>recoverState\<close> and the constructor in
  \<open>sstable_manager.cpp\<close>): find the level-0 files by name, sort them by id, rebuild one
  index per file and hand the next free id to a new file pool. The main theorem of this
  theory is that recovery restores the content of the tables that were flushed before.
\<close>

section \<open>Recognising files\<close>

text \<open>
  The test on the file name. \<open>filename.size() - 4\<close> is computed in \<open>size_t\<close>: for a name of
  three characters it is \<open>npos\<close>, which is also what \<open>rfind\<close> answers there.
\<close>

definition sst_name_match :: "string \<Rightarrow> bool" where
  "sst_name_match n \<longleftrightarrow> take 3 n = ''L0-''
     \<and> (if 4 \<le> length n then drop (length n - 4) n = ''.sst'' else length n = 3)"

text \<open>\<open>filename.substr(3, filename.size() - 7)\<close>, with the same wrap-around for short names.\<close>

definition sst_id_string :: "string \<Rightarrow> string" where
  "sst_id_string n = (if length n < 7 then drop 3 n else take (length n - 7) (drop 3 n))"

fun found_file :: "string \<times> string \<Rightarrow> (u64 \<times> string) option" where
  "found_file (n, path) =
     (if sst_name_match n
      then (case stoull (sst_id_string n) of None \<Rightarrow> None | Some i \<Rightarrow> Some (i, path))
      else None)"

definition found_files :: "string \<Rightarrow> fs \<Rightarrow> (u64 \<times> string) list" where
  "found_files db f = List.map_filter found_file (dir_entries db f)"

section \<open>Recovery\<close>

definition recovered_index :: "fs \<Rightarrow> u64 \<times> string \<Rightarrow> l0_index" where
  "recovered_index f e = \<lparr>l0_path = snd e, l0_offsets = build_index (index_file f (snd e))\<rparr>"

definition max_file_id :: "(u64 \<times> string) list \<Rightarrow> u64" where
  "max_file_id fl = foldl (\<lambda>m e. if fst e > m then fst e else m) 0 fl"

text \<open>Files in ascending order of (id, path); each index is prepended to the list.\<close>

definition recovered_head :: "string \<Rightarrow> fs \<Rightarrow> l0_index list" where
  "recovered_head db f =
     foldl (\<lambda>head e. recovered_index f e # head) [] (sort (found_files db f))"

definition recoverState :: "string \<Rightarrow> u64 \<Rightarrow> u64 \<Rightarrow> fs \<Rightarrow> sst_manager" where
  "recoverState db filePoolSize preAllocBytes f =
     (let (max_id, head) =
        (if fs_exists db f then (max_file_id (found_files db f), recovered_head db f) else (0, []))
      in \<lparr>sm_dbPath = db,
          sm_filePool = Some (fp_new db ''L0-'' ''.sst'' filePoolSize (max_id + 1) preAllocBytes),
          sm_fileCloser = Some (fc_new filePoolSize),
          sm_head = head\<rparr>)"

definition sst_new :: "string \<Rightarrow> u64 \<Rightarrow> u64 \<Rightarrow> fs \<Rightarrow> sst_manager" where
  "sst_new db filePoolSize preAllocBytes f = recoverState db filePoolSize preAllocBytes f"

section \<open>Names and ids\<close>

lemma stoull_padded_id [simp]: "stoull (padded_id i) = Some i"
proof -
  have "unat i < 2 ^ 64" using unsigned_less [of i] by simp
  then show ?thesis by (simp add: stoull_digits padded_id_digits)
qed

lemma found_file_l0 [simp]:
  "found_file (''L0-'' @ padded_id i @ ''.sst'', path) = Some (i, path)"
  by (simp add: sst_name_match_def sst_id_string_def)

lemma l0_file_in_dir: "in_dir db (l0_file db i)"
  using padded_id_digits [of "CHR ''/''" i] by (auto simp: l0_file_def in_dir_join)

lemma drop_path_dir: "drop (length (path_dir db)) (path_join db n) = n"
  by (simp add: path_join_def)

lemma set_map_filter_iff: "y \<in> set (List.map_filter g xs) \<longleftrightarrow> (\<exists>x \<in> set xs. g x = Some y)"
  by (force simp: List.map_filter_def)

lemma set_found_files:
  "y \<in> set (found_files db f) \<longleftrightarrow> (\<exists>e \<in> set (dir_entries db f). found_file e = Some y)"
  by (simp only: found_files_def set_map_filter_iff)

lemma found_files_l0:
  assumes "fs_read f (l0_file db i) = Some c"
  shows "(i, l0_file db i) \<in> set (found_files db f)"
proof -
  have "(l0_file db i, c) \<in> set (fs_files f)"
    using assms by (auto simp: fs_read_def dest: map_of_SomeD)
  then have "(''L0-'' @ padded_id i @ ''.sst'', l0_file db i) \<in> set (dir_entries db f)"
    using l0_file_in_dir [of db i]
    by (force simp: dir_entries_def l0_file_def drop_path_dir)
  moreover have "found_file (''L0-'' @ padded_id i @ ''.sst'', l0_file db i) = Some (i, l0_file db i)"
    by (rule found_file_l0)
  ultimately show ?thesis by (simp only: set_found_files) blast
qed

lemma max_fold_start: "(m :: u64) \<le> foldl (\<lambda>m e. if fst e > m then fst e else m) m fl"
proof (induction fl arbitrary: m)
  case (Cons a fl)
  show ?case using Cons [of m] Cons [of "fst a"] by (cases "m < fst a") (auto intro: order.trans less_imp_le)
qed simp

lemma max_fold_ge:
  "e \<in> set fl \<Longrightarrow> fst e \<le> foldl (\<lambda>m e. if fst e > m then fst e else m) (m :: u64) fl"
proof (induction fl arbitrary: m)
  case (Cons a fl)
  then show ?case
    using max_fold_start [of "fst a" fl] max_fold_start [of m fl]
    by (cases "m < fst a") auto
qed simp

lemma max_file_id_ge: "e \<in> set fl \<Longrightarrow> fst e \<le> max_file_id fl"
  by (simp add: max_file_id_def max_fold_ge)

lemma recovered_head_map:
  "recovered_head db f = map (recovered_index f) (rev (sort (found_files db f)))"
proof -
  have "foldl (\<lambda>head e. recovered_index f e # head) hs fl = map (recovered_index f) (rev fl) @ hs"
    for hs fl
    by (induction fl arbitrary: hs) simp_all
  then show ?thesis by (simp add: recovered_head_def)
qed

section \<open>Zero bytes read as records\<close>

text \<open>
  A pre-allocated file ends in zero bytes, and the reader takes every eight of them for a
  record with an empty key and an empty value.
\<close>

abbreviation (input) zeros :: "nat \<Rightarrow> char list" where
  "zeros n \<equiv> replicate n (char_of (0::nat))"

abbreviation (input) null_entries :: "nat \<Rightarrow> (key \<times> val) list" where
  "null_entries q \<equiv> replicate q ([], [])"

lemma le_bytes_zero: "le_bytes k 0 = zeros k"
  by (induction k) simp_all

lemma u32_bytes_zero: "u32_bytes 0 = zeros 4"
  by (simp add: u32_bytes_def le_bytes_zero)

lemma u32_value_zeros: "u32_value (zeros n) = 0"
proof -
  have "le_value (zeros n) = 0" by (induction n) simp_all
  then show ?thesis by (simp add: u32_value_def)
qed

lemma serialize_null: "serialize_entry [] [] = zeros 8"
  by (simp add: serialize_entry_def u32_bytes_zero replicate_add [symmetric])

lemma file_bytes_null: "file_bytes (null_entries q) = zeros (8 * q)"
  by (induction q) (simp_all add: serialize_null replicate_add [symmetric] add.commute)

lemma zeros_records: "zeros n = file_bytes (null_entries (n div 8)) @ zeros (n mod 8)"
  by (simp add: file_bytes_null replicate_add [symmetric])

lemma index_step_few_zeros:
  assumes "D = pre @ zeros r" and "r < 8"
  shows "index_step (good_at D (length pre)) = None"
proof -
  have "u32_value (take 4 (zeros r)) = 0" by (simp add: u32_value_zeros)
  with assms show ?thesis
    by (auto simp: index_step_def ifs_peek_def ifs_read_def ifs_good_def Let_def)
qed

lemma index_file_zeros:
  assumes "\<forall>e \<in> set es. wf_entry e" and "fs_read f path = Some (file_bytes es @ zeros n)"
  shows "index_file f path = entry_offsets 0 (es @ null_entries (n div 8))"
proof -
  let ?es = "es @ null_entries (n div 8)" and ?r = "zeros (n mod 8)"
  have D: "fs_read f path = Some (file_bytes ?es @ ?r)"
    using assms(2) zeros_records [of n] by simp
  have wf: "\<forall>e \<in> set ?es. wf_entry e" using assms(1) by (auto simp: wf_entry_def)
  have "index_loop (good_at (file_bytes ?es @ ?r) (length (file_bytes ?es))) = []"
    using index_step_few_zeros [of _ "file_bytes ?es" "n mod 8", OF refl]
    by (simp add: index_loop.simps del: file_bytes_simps)
  with index_loop_entries [OF wf, of "file_bytes ?es @ ?r" "[]" ?r] D show ?thesis
    by (simp add: index_file_def ifs_open_def del: file_bytes_simps entry_offsets_append)
qed

section \<open>Recovery restores the flushed tables\<close>

definition entries_of :: "generation list \<Rightarrow> u64 \<Rightarrow> (key \<times> val) list" where
  "entries_of gens i = (case map_of gens i of None \<Rightarrow> [] | Some es \<Rightarrow> es)"

text \<open>The entries a reader finds in the file of id \<open>i\<close>, the zero bytes at its end included.\<close>

definition padded_entries :: "string \<Rightarrow> fs \<Rightarrow> generation list \<Rightarrow> u64 \<Rightarrow> (key \<times> val) list" where
  "padded_entries db f gens i =
     (let es = entries_of gens i
      in es @ null_entries ((length (the (fs_read f (l0_file db i))) - length (file_bytes es)) div 8))"

definition recovered_gens :: "string \<Rightarrow> fs \<Rightarrow> generation list \<Rightarrow> generation list" where
  "recovered_gens db f gens =
     map (\<lambda>e. (fst e, padded_entries db f gens (fst e))) (rev (sort (found_files db f)))"

lemma entries_map_null [simp]: "k \<noteq> [] \<Longrightarrow> entries_map (es @ null_entries q) k = entries_map es k"
  by (simp add: entries_map_def map_add_def split: option.split)
    (metis fst_conv in_set_replicate map_of_SomeD prod.inject)

lemma list_all2_left: "list_all2 P xs ys \<Longrightarrow> x \<in> set xs \<Longrightarrow> \<exists>y \<in> set ys. P x y"
  by (induction rule: list_all2_induct) auto

lemma list_all2_right: "list_all2 P xs ys \<Longrightarrow> y \<in> set ys \<Longrightarrow> \<exists>x \<in> set xs. P x y"
  by (induction rule: list_all2_induct) auto

lemma disk_table:
  assumes "disk_inv pre db gens head f" and "map_of gens i = Some es"
  obtains ix where "ix \<in> set head" and "table_rep pre db f (i, es) ix"
proof -
  have "list_all2 (table_rep pre db f) gens head" using assms(1) by (simp add: disk_inv_def)
  from list_all2_left [OF this map_of_SomeD [OF assms(2)]] that show ?thesis by blast
qed

lemma disk_table_path:
  assumes "disk_inv pre db gens head f" and "ix \<in> set head"
  obtains g where "g \<in> set gens" and "table_rep pre db f g ix"
proof -
  have "list_all2 (table_rep pre db f) gens head" using assms(1) by (simp add: disk_inv_def)
  from list_all2_right [OF this assms(2)] that show ?thesis by blast
qed

lemma disk_leftover:
  "disk_inv pre db gens head f \<Longrightarrow> in_dir db q \<Longrightarrow> fs_read f q = Some c \<Longrightarrow>
    q \<notin> l0_path ` set head \<Longrightarrow> leftover pre db q c"
  by (simp add: disk_inv_def)

lemma disk_inv_distinct: "disk_inv pre db gens head f \<Longrightarrow> distinct (map fst gens)"
proof -
  assume "disk_inv pre db gens head f"
  then have "sorted_wrt (>) (map fst gens)" by (simp add: disk_inv_def)
  then show ?thesis by (induction gens) auto
qed

text \<open>Every level-0 file holds the records of its generation, then zero bytes.\<close>

lemma disk_file_content:
  assumes disk: "disk_inv pre db gens head f" and c: "fs_read f (l0_file db i) = Some c"
  shows "(\<forall>e \<in> set (entries_of gens i). wf_entry e)
    \<and> (\<exists>n. c = file_bytes (entries_of gens i) @ zeros n \<and> (pre = 0 \<longrightarrow> n = 0))"
proof (cases "map_of gens i")
  case None
  have "l0_file db i \<notin> l0_path ` set head"
  proof
    assume "l0_file db i \<in> l0_path ` set head"
    then obtain ix where ix: "ix \<in> set head" "l0_file db i = l0_path ix" by auto
    from disk_table_path [OF disk ix(1)] obtain g where "g \<in> set gens" "table_rep pre db f g ix" .
    then have "i \<in> fst ` set gens" using ix(2) by (auto simp: table_rep_def)
    with None show False by (simp add: map_of_eq_None_iff)
  qed
  from disk_leftover [OF disk l0_file_in_dir c this] have "blank pre c" by (simp add: leftover_def)
  with None show ?thesis by (auto simp: entries_of_def blank_def)
next
  case (Some es)
  from disk_table [OF disk this] obtain ix where "table_rep pre db f (i, es) ix" .
  with Some c show ?thesis by (auto simp: table_rep_def entries_of_def blank_def)
qed

lemma recovered_table_rep:
  assumes "disk_inv pre db gens head f" and c: "fs_read f (l0_file db i) = Some c"
  shows "table_rep pre db f (i, padded_entries db f gens i) (recovered_index f (i, l0_file db i))"
proof -
  let ?es = "entries_of gens i"
  obtain n where wf: "\<forall>e \<in> set ?es. wf_entry e" and n: "c = file_bytes ?es @ zeros n" "pre = 0 \<longrightarrow> n = 0"
    using disk_file_content [OF assms(1) c] by blast
  have pe: "padded_entries db f gens i = ?es @ null_entries (n div 8)"
    by (simp add: padded_entries_def c n(1) Let_def)
  have split: "c = file_bytes (padded_entries db f gens i) @ zeros (n mod 8)"
    using n(1) zeros_records [of n] pe by simp
  have "length c < 2 ^ 63" using assms(1) c by (auto simp: disk_inv_def fs_small_def)
  then have "length (file_bytes (padded_entries db f gens i)) < 2 ^ 63"
    by (subst (asm) split) simp
  moreover have "\<forall>e \<in> set (padded_entries db f gens i). wf_entry e"
    using wf by (auto simp: pe wf_entry_def)
  moreover have "blank pre (zeros (n mod 8))" using n(2) by (auto simp: blank_def)
  moreover have "index_file f (l0_file db i) = entry_offsets 0 (padded_entries db f gens i)"
    using index_file_zeros [OF wf, of f "l0_file db i" n] c n(1) pe by simp
  moreover have "fs_read f (l0_file db i) = Some (file_bytes (padded_entries db f gens i) @ zeros (n mod 8))"
    using c split by simp
  ultimately show ?thesis by (auto simp: table_rep_def recovered_index_def)
qed

lemma found_files_disk:
  assumes disk: "disk_inv pre db gens head f" and "e \<in> set (found_files db f)"
  shows "\<exists>i c. e = (i, l0_file db i) \<and> fs_read f (l0_file db i) = Some c"
proof -
  from assms(2) obtain n q c where q: "(q, c) \<in> set (fs_files f)" "in_dir db q"
      and n: "n = drop (length (path_dir db)) q" and e: "found_file (n, q) = Some e"
    by (auto simp: set_found_files dir_entries_def simp del: found_file.simps)
  have r: "fs_read f q = Some c"
    using disk q(1) by (simp add: fs_read_def disk_inv_def fs_ok_def)
  have "\<exists>i. q = l0_file db i"
  proof (cases "q \<in> l0_path ` set head")
    case True
    then obtain ix where "ix \<in> set head" "q = l0_path ix" by auto
    with disk_table_path [OF disk this(1)] show ?thesis by (auto simp: table_rep_def)
  next
    case False
    with disk q(2) r show ?thesis by (auto simp: disk_inv_def leftover_def)
  qed
  then obtain i where i: "q = l0_file db i" ..
  then have "n = ''L0-'' @ padded_id i @ ''.sst''" using n by (simp add: l0_file_def drop_path_dir)
  with e i r show ?thesis using found_file_l0 [of i q] by (simp del: found_file.simps found_file_l0)
qed

lemma found_file_snd: "found_file x = Some y \<Longrightarrow> snd y = snd x"
  by (cases x) (auto split: if_splits option.splits)

lemma distinct_found_files: "fs_ok f \<Longrightarrow> distinct (map snd (found_files db f))"
proof -
  assume "fs_ok f"
  then have "distinct (map snd (dir_entries db f))"
    by (simp add: dir_entries_def fs_ok_def comp_def distinct_map_filter)
  moreover have "distinct (map snd es) \<Longrightarrow> distinct (map snd (List.map_filter found_file es))"
    for es :: "(string \<times> string) list"
  proof (induction es)
    case (Cons e es)
    have "snd y \<in> snd ` set es" if "y \<in> set (List.map_filter found_file es)" for y
      using that by (force simp: set_map_filter_iff dest: found_file_snd)
    with Cons show ?case
      by (fastforce simp: map_filter_simps dest!: found_file_snd split: option.splits)
  qed (simp add: map_filter_simps)
  ultimately show ?thesis by (simp add: found_files_def)
qed

lemma found_files_sorted:
  assumes "disk_inv pre db gens head f"
  shows "sorted_wrt (\<lambda>a b. fst b < fst a) (rev (sort (found_files db f)))"
proof -
  let ?fl = "sort (found_files db f)"
  have "distinct (map snd (found_files db f))"
    using assms by (intro distinct_found_files) (simp add: disk_inv_def)
  moreover have "e = (fst e, l0_file db (fst e))" if "e \<in> set (found_files db f)" for e
    using found_files_disk [OF assms that] by auto
  ultimately have "inj_on fst (set ?fl)" "distinct ?fl"
    by (auto simp: inj_on_def distinct_map) (metis prod.collapse)+
  then have "distinct (map fst ?fl)" by (simp add: distinct_map)
  moreover have "sorted_wrt (\<lambda>a b. fst a \<le> fst b) ?fl"
    by (rule sorted_wrt_mono_rel [OF _ sorted_sort]) (auto simp: less_eq_prod_def)
  ultimately have "sorted_wrt (<) (map fst ?fl)" by (simp add: strict_sorted_iff sorted_map)
  then show ?thesis by (simp add: sorted_wrt_rev sorted_wrt_map)
qed

text \<open>Searching the generations through any younger-first list of ids that covers them.\<close>

lemma merge_entries_of:
  "sorted_wrt (>) ids \<Longrightarrow> sorted_wrt (>) (map fst gens) \<Longrightarrow> fst ` set gens \<subseteq> set ids \<Longrightarrow>
    merge_levels (\<lambda>i. entries_map (entries_of gens i)) (ids :: u64 list) = gens_map gens"
proof (induction ids arbitrary: gens)
  case (Cons i ids)
  show ?case
  proof (cases "gens \<noteq> [] \<and> fst (hd gens) = i")
    case True
    then obtain es gs where g: "gens = (i, es) # gs" by (cases gens) auto
    have "fst ` set gs \<subseteq> set ids" using Cons.prems g by auto
    with Cons have "merge_levels (\<lambda>i. entries_map (entries_of gs i)) ids = gens_map gs"
      by (simp add: g)
    moreover have "merge_levels (\<lambda>i. entries_map (entries_of gens i)) js =
        merge_levels (\<lambda>i. entries_map (entries_of gs i)) js" if "\<forall>j \<in> set js. j \<noteq> i" for js
      using that by (induction js) (auto simp: g entries_of_def)
    moreover have "\<forall>j \<in> set ids. j \<noteq> i" using Cons.prems(1) by auto
    ultimately show ?thesis by (simp add: g entries_of_def)
  next
    case False
    have "i \<notin> fst ` set gens"
    proof
      assume i: "i \<in> fst ` set gens"
      with False obtain g gs where g: "gens = g # gs" "fst g \<noteq> i" by (cases gens) auto
      with i Cons.prems(2) have "i < fst g" by auto
      with Cons.prems(1,3) g show False by auto
    qed
    moreover from this have "fst ` set gens \<subseteq> set ids" using Cons.prems(3) by auto
    ultimately have "entries_of gens i = []" "fst ` set gens \<subseteq> set ids"
      by (simp_all add: entries_of_def map_of_notin)
    with Cons show ?thesis by simp
  qed
qed simp

text \<open>The recovered list of indexes describes the recovered generations.\<close>

lemma recovered_disk_inv:
  assumes disk: "disk_inv pre db gens head f"
  shows "disk_inv pre db (recovered_gens db f gens) (recovered_head db f) f"
proof -
  let ?fl = "rev (sort (found_files db f))"
  have on_disk: "e = (fst e, l0_file db (fst e)) \<and> fs_read f (l0_file db (fst e)) \<noteq> None"
    if "e \<in> set ?fl" for e
    using found_files_disk [OF disk, of e] that by auto
  have "list_all2 (table_rep pre db f)
      (map (\<lambda>e. (fst e, padded_entries db f gens (fst e))) ?fl) (map (recovered_index f) ?fl)"
    unfolding list_all2_map1 list_all2_map2 list_all2_same
  proof
    fix e assume e: "e \<in> set ?fl"
    from on_disk [OF e] show "table_rep pre db f (fst e, padded_entries db f gens (fst e)) (recovered_index f e)"
      using recovered_table_rep [OF disk] by (metis option.exhaust)
  qed
  moreover have "sorted_wrt (>) (map fst (recovered_gens db f gens))"
    using found_files_sorted [OF disk] by (simp add: recovered_gens_def sorted_wrt_map comp_def)
  moreover have "leftover pre db q c"
    if "in_dir db q" "fs_read f q = Some c" "q \<notin> l0_path ` set (recovered_head db f)" for q c
  proof (cases "q \<in> l0_path ` set head")
    case True
    then obtain ix where "ix \<in> set head" "q = l0_path ix" by auto
    with disk_table_path [OF disk this(1)] obtain i where "q = l0_file db i"
      by (auto simp: table_rep_def)
    with that found_files_l0 [of f db i c] show ?thesis
      by (force simp: recovered_head_map recovered_index_def)
  qed (use disk_leftover [OF disk that(1,2)] in simp)
  ultimately show ?thesis
    using disk by (simp add: disk_inv_def recovered_gens_def recovered_head_map)
qed

lemma merge_levels_cong_at:
  "(\<And>l. l \<in> set ls \<Longrightarrow> c l k = c' l k) \<Longrightarrow> merge_levels c ls k = merge_levels c' ls k"
  by (induction ls) (simp_all add: map_add_def split: option.split)

lemma merge_levels_map: "merge_levels c (map g ls) = merge_levels (\<lambda>x. c (g x)) ls"
  by (induction ls) simp_all

text \<open>Every table is found again, and what is found is its entries with at most zero bytes behind them.\<close>

lemma gens_found:
  assumes disk: "disk_inv pre db gens head f"
  shows "fst ` set gens \<subseteq> fst ` set (found_files db f)"
proof
  fix i assume "i \<in> fst ` set gens"
  then have "map_of gens i \<noteq> None" by (simp add: map_of_eq_None_iff)
  then obtain es where "map_of gens i = Some es" by auto
  from disk_table [OF disk this] obtain ix where "table_rep pre db f (i, es) ix" .
  then obtain c where "fs_read f (l0_file db i) = Some c" by (auto simp: table_rep_def)
  with found_files_l0 show "i \<in> fst ` set (found_files db f)" by force
qed

lemma padded_found:
  assumes disk: "disk_inv pre db gens head f" and i: "i \<in> fst ` set (found_files db f)"
  obtains q where "padded_entries db f gens i = entries_of gens i @ null_entries q" and "pre = 0 \<longrightarrow> q = 0"
proof -
  from i found_files_disk [OF disk] obtain c where c: "fs_read f (l0_file db i) = Some c" by fastforce
  with disk_file_content [OF disk] obtain n where
    n: "c = file_bytes (entries_of gens i) @ zeros n" "pre = 0 \<longrightarrow> n = 0" by blast
  show thesis by (rule that [of "n div 8"]) (use c n in \<open>simp_all add: padded_entries_def Let_def\<close>)
qed

lemma gens_map_recovered:
  assumes disk: "disk_inv pre db gens head f" and k: "k \<noteq> [] \<or> pre = 0"
  shows "gens_map (recovered_gens db f gens) k = gens_map gens k"
proof -
  let ?ids = "map fst (rev (sort (found_files db f)))"
  have ids: "fst ` set gens \<subseteq> set ?ids" using gens_found [OF disk] by simp
  have pad: "entries_map (padded_entries db f gens i) k = entries_map (entries_of gens i) k"
    if i: "i \<in> set ?ids" for i
  proof -
    from i have "i \<in> fst ` set (found_files db f)" by simp
    from padded_found [OF disk this] obtain q where
      "padded_entries db f gens i = entries_of gens i @ null_entries q" "pre = 0 \<longrightarrow> q = 0" .
    with k show ?thesis by auto
  qed
  have "gens_map (recovered_gens db f gens) =
      merge_levels (\<lambda>i. entries_map (padded_entries db f gens i)) ?ids"
    by (simp add: gens_map_def recovered_gens_def merge_levels_map comp_def)
  then have "gens_map (recovered_gens db f gens) k =
      merge_levels (\<lambda>i. entries_map (padded_entries db f gens i)) ?ids k" by simp
  also have "\<dots> = merge_levels (\<lambda>i. entries_map (entries_of gens i)) ?ids k"
    by (rule merge_levels_cong_at) (rule pad)
  also have "\<dots> = gens_map gens k"
    using found_files_sorted [OF disk] disk ids
    by (subst merge_entries_of) (simp_all add: sorted_wrt_map disk_inv_def)
  finally show ?thesis .
qed

text \<open>Without preallocation the entries of the tables are recovered in their order, and no others.\<close>

lemma concat_entries_of:
  "sorted_wrt (>) ids \<Longrightarrow> sorted_wrt (>) (map fst gens) \<Longrightarrow> fst ` set gens \<subseteq> set ids \<Longrightarrow>
    concat (map (entries_of gens) (rev (ids :: u64 list))) = concat (map snd (rev gens))"
proof (induction ids arbitrary: gens)
  case (Cons i ids)
  show ?case
  proof (cases "gens \<noteq> [] \<and> fst (hd gens) = i")
    case True
    then obtain es gs where g: "gens = (i, es) # gs" by (cases gens) auto
    have "fst ` set gs \<subseteq> set ids" using Cons.prems g by auto
    with Cons have "concat (map (entries_of gs) (rev ids)) = concat (map snd (rev gs))" by (simp add: g)
    moreover have "\<forall>j \<in> set ids. j \<noteq> i" using Cons.prems(1) by auto
    then have "map (entries_of gens) (rev ids) = map (entries_of gs) (rev ids)" by (auto simp: g entries_of_def)
    moreover have "entries_of gens i = es" by (simp add: g entries_of_def)
    ultimately have "concat (map (entries_of gens) (rev (i # ids))) = concat (map snd (rev gs)) @ es"
      by (simp only: rev.simps map_append concat_append list.map concat.simps append_Nil2)
    then show ?thesis by (simp add: g)
  next
    case False
    have "i \<notin> fst ` set gens"
    proof
      assume i: "i \<in> fst ` set gens"
      with False obtain g gs where g: "gens = g # gs" "fst g \<noteq> i" by (cases gens) auto
      with i Cons.prems(2) have "i < fst g" by auto
      with Cons.prems(1,3) g show False by auto
    qed
    then have "entries_of gens i = []" "fst ` set gens \<subseteq> set ids"
      using Cons.prems(3) by (auto simp: entries_of_def map_of_notin)
    with Cons show ?thesis by simp
  qed
qed simp

lemma recovered_entries:
  assumes disk: "disk_inv 0 db gens head f"
  shows "concat (map snd (rev (recovered_gens db f gens))) = concat (map snd (rev gens))"
proof -
  let ?fl = "rev (sort (found_files db f))"
  have "padded_entries db f gens (fst e) = entries_of gens (fst e)" if e: "e \<in> set ?fl" for e
  proof -
    from e have "fst e \<in> fst ` set (found_files db f)" by simp
    then show ?thesis by (rule padded_found [OF disk]) simp
  qed
  then have "map snd (rev (recovered_gens db f gens)) = map (entries_of gens) (rev (map fst ?fl))"
    by (simp add: recovered_gens_def rev_map comp_def)
  moreover have "fst ` set gens \<subseteq> set (map fst ?fl)" using gens_found [OF disk] by simp
  ultimately show ?thesis
    using concat_entries_of [of "map fst ?fl" gens] found_files_sorted [OF disk] disk
    by (simp add: sorted_wrt_map disk_inv_def)
qed

lemma max_fold_in:
  "foldl (\<lambda>m e. if fst e > m then fst e else m) (m :: u64) fl \<in> insert m (fst ` set fl)"
  by (induction fl arbitrary: m) fastforce+

text \<open>
  When no file of the directory has a number of \<open>b\<close> or more, the next number after recovery is at
  most \<open>b\<close> (or 1 in a directory without files).
\<close>

definition ids_below :: "nat \<Rightarrow> string \<Rightarrow> fs \<Rightarrow> bool" where
  "ids_below b db f \<longleftrightarrow> (\<forall>i. fs_read f (l0_file db i) \<noteq> None \<longrightarrow> unat i < b)"

lemma max_file_id_below:
  assumes "disk_inv pre db gens head f" and "ids_below b db f"
  shows "unat (max_file_id (found_files db f)) < max b 1"
proof -
  have "max_file_id (found_files db f) \<in> insert 0 (fst ` set (found_files db f))"
    unfolding max_file_id_def by (rule max_fold_in)
  then show ?thesis
    using assms(2) found_files_disk [OF assms(1)] by (fastforce simp: ids_below_def)
qed

text \<open>A new manager over the directory of an old one: the invariant holds again.\<close>

lemma sst_new_inv:
  assumes disk: "disk_inv pre db gens head f" and room: "max_file_id (found_files db f) < - 1"
    and n: "n \<noteq> 0 \<longrightarrow> pre \<noteq> 0" "unat n < 2 ^ 63"
  shows "sst_inv pre (recovered_gens db f gens) [] (sst_new db sz n f) f"
proof -
  let ?max = "max_file_id (found_files db f)"
  let ?p = "fp_new db ''L0-'' ''.sst'' sz (?max + 1) n"
  have ex: "fs_exists db f" using disk by (simp add: fs_exists_def disk_inv_def)
  have lt: "?max < ?max + 1" using room by (rule u64_less_Suc)
  have path: "pool_path ?p i = l0_file db i" for i
    by (simp add: pool_path_def pool_file_name_def l0_file_def fp_new_def)
  have "fs_read f (l0_file db i) = None" if "?max + 1 \<le> i" for i
  proof (rule ccontr)
    assume "fs_read f (l0_file db i) \<noteq> None"
    with found_files_l0 have "(i, l0_file db i) \<in> set (found_files db f)" by blast
    from max_file_id_ge [OF this] that lt show False by simp
  qed
  then have "pool_inv [] ?p f" by (intro pool_inv_new) (simp add: path)
  moreover have "fst g < ?max + 1" if "g \<in> set (recovered_gens db f gens)" for g
  proof -
    from that obtain e where "e \<in> set (found_files db f)" "fst g = fst e"
      by (auto simp: recovered_gens_def)
    with max_file_id_ge [of e] lt show ?thesis by fastforce
  qed
  ultimately show ?thesis
    using recovered_disk_inv [OF disk] n
    by (simp add: sst_inv_def sst_new_def recoverState_def ex) (simp add: fp_new_def)
qed

section \<open>The order of the directory does not matter\<close>

lemma found_files_perm:
  assumes "fs_ok f" and "mset (fs_files f) = mset (fs_files f')"
  shows "fs_read f' = fs_read f"
    and "sort (found_files db f') = sort (found_files db f)"
    and "set (found_files db f') = set (found_files db f)"
proof -
  have "mset (map fst (fs_files f)) = mset (map fst (fs_files f'))" using assms(2) by simp
  then have "distinct (map fst (fs_files f'))"
    using assms(1) by (metis fs_ok_def mset_eq_imp_distinct_iff)
  then show "fs_read f' = fs_read f"
    using assms by (simp add: fs_read_def [abs_def] fs_ok_def map_of_inject_set [symmetric]
        mset_eq_setD [OF assms(2)] fun_eq_iff [symmetric] map_of_inject_set)
  have perm: "mset (found_files db f') = mset (found_files db f)"
    using assms(2) by (simp add: found_files_def List.map_filter_def dir_entries_def)
  then show "sort (found_files db f') = sort (found_files db f)"
    by (intro properties_for_sort) simp_all
  from mset_eq_setD [OF perm] show "set (found_files db f') = set (found_files db f)" .
qed

section \<open>A torn last record\<close>

text \<open>
  A crash can cut the last record of a file. The reader ignores it when the cut lies before
  the end of the value length, and indexes it when the cut lies in the value, because the
  value is skipped with \<open>seekg\<close>, which succeeds past the end of the file.
\<close>

lemma serialize_take_key:
  assumes "wf_entry (k, v)" and "8 + length k \<le> n" and "n < length (serialize_entry k v)"
  shows "take n (serialize_entry k v) =
    u32_bytes (word_of_nat (length k)) @ k @ u32_bytes (word_of_nat (length v)) @ take (n - 8 - length k) v"
proof -
  have "n = 4 + (length k + (4 + (n - 8 - length k)))" using assms(2) by simp
  then show ?thesis using assms(1) by (subst \<open>n = _\<close>) (simp add: serialize_wf)
qed

lemma index_step_torn_value:
  assumes wf: "wf_entry (k, v)" and n: "8 + length k \<le> n" "n < length (serialize_entry k v)"
    and D: "D = pre @ take n (serialize_entry k v)"
  shows "\<exists>p. length D \<le> p \<and> index_step (good_at D (length pre)) = Some (good_at D p, (k, word_of_nat (length pre)))"
proof -
  let ?kl = "u32_bytes (word_of_nat (length k))" and ?vl = "u32_bytes (word_of_nat (length v))"
    and ?t = "take (n - 8 - length k) v"
  have D': "D = pre @ ?kl @ k @ ?vl @ ?t" using D by (simp add: serialize_take_key [OF wf n])
  have lens: "length k < 2 ^ 32" "length v < 2 ^ 32" using wf by (simp_all add: wf_entry_def)
  have r1: "ifs_read 4 (good_at D (length pre)) = (?kl, good_at D (length pre + 4))"
    using D' by (intro ifs_read_at') simp_all
  have r2: "ifs_read (length k) (good_at D (length pre + 4)) = (k, good_at D (length pre + 4 + length k))"
    using D' by (intro ifs_read_at' [where pre = "pre @ ?kl"]) simp_all
  have r3: "ifs_read 4 (good_at D (length pre + 4 + length k)) =
      (?vl, good_at D (length pre + 4 + length k + 4))"
    using D' by (intro ifs_read_at' [where pre = "pre @ ?kl @ k"]) simp_all
  have "length pre < length D" using D' by simp
  moreover have "length D \<le> length pre + 4 + length k + 4 + length v" using D' by simp
  ultimately show ?thesis
    using lens r1 r2 r3
    by (simp add: index_step_def ifs_peek_def ifs_good_def ifs_tellg_def ifs_seek_cur_def)
qed

lemma index_file_torn_value:
  assumes "\<forall>e \<in> set es. wf_entry e" and wf: "wf_entry (k, v)"
    and n: "8 + length k \<le> n" "n < length (serialize_entry k v)"
    and f: "fs_read f path = Some (file_bytes es @ take n (serialize_entry k v))"
  shows "index_file f path = entry_offsets 0 es @ [(k, word_of_nat (length (file_bytes es)))]"
proof -
  let ?D = "file_bytes es @ take n (serialize_entry k v)"
  from index_step_torn_value [OF wf n refl, of "file_bytes es"] obtain p where "length ?D \<le> p"
    "index_step (good_at ?D (length (file_bytes es))) = Some (good_at ?D p, (k, word_of_nat (length (file_bytes es))))"
    by blast
  then have "index_loop (good_at ?D (length (file_bytes es))) = [(k, word_of_nat (length (file_bytes es)))]"
    by (simp add: index_loop.simps [of "good_at ?D (length (file_bytes es))"] index_loop_end)
  with index_loop_entries [OF assms(1), of ?D "[]"] f show ?thesis
    by (simp add: index_file_def ifs_open_def)
qed

lemma readValueAt_torn_value:
  assumes wf: "wf_entry (k, v)" and n: "8 + length k \<le> n" "n < length (serialize_entry k v)"
    and "length pre < 2 ^ 63" and f: "fs_read f path = Some (pre @ take n (serialize_entry k v))"
  shows "readValueAt f path (word_of_nat (length pre)) k = None"
proof -
  let ?kl = "u32_bytes (word_of_nat (length k))" and ?vl = "u32_bytes (word_of_nat (length v))"
    and ?t = "take (n - 8 - length k) v"
  let ?D = "pre @ take n (serialize_entry k v)"
  have D': "?D = pre @ ?kl @ k @ ?vl @ ?t" by (simp add: serialize_take_key [OF wf n])
  have lens: "length k < 2 ^ 32" "length v < 2 ^ 32" using wf by (simp_all add: wf_entry_def)
  have short: "length ?t < length v" using n by (simp add: length_serialize [OF wf])
  have off: "unat (word_of_nat (length pre) :: u64) = length pre" "\<not> sint (word_of_nat (length pre) :: u64) < 0"
    using assms(4) by (simp_all add: sint_u64_of_nat)
  have r1: "ifs_read 4 (good_at ?D (length pre)) = (?kl, good_at ?D (length pre + 4))"
    using D' by (intro ifs_read_at') simp_all
  have r2: "ifs_read (length k) (good_at ?D (length pre + 4)) = (k, good_at ?D (length pre + 4 + length k))"
    using D' by (intro ifs_read_at' [where pre = "pre @ ?kl"]) simp_all
  have r3: "ifs_read 4 (good_at ?D (length pre + 4 + length k)) =
      (?vl, good_at ?D (length pre + 4 + length k + 4))"
    using D' by (intro ifs_read_at' [where pre = "pre @ ?kl @ k"]) simp_all
  have "drop (8 + (length pre + length k)) ?D = ?t" by (subst D') simp
  then have r4: "is_fail (snd (ifs_read (length v) (good_at ?D (8 + (length pre + length k)))))"
    using short by (simp add: ifs_read_def ifs_good_def Let_def del: append_assoc)
  show ?thesis
    using lens r4 unfolding readValueAt_def
    by (simp add: ifs_open_def f ifs_seekg_def off r1 r2 r3 split_beta del: append_assoc)
qed

section \<open>Properties\<close>

lemma max_file_id_cong:
  assumes "set fl = set fl'"
  shows "max_file_id fl = max_file_id fl'"
proof -
  have le: "max_file_id xs \<le> max_file_id ys" if "set xs = set ys" for xs ys
    using max_fold_in [of 0 xs] that max_file_id_ge [of _ ys] by (auto simp: max_file_id_def)
  from le [OF assms] le [OF assms [symmetric]] show ?thesis by (rule order.antisym)
qed

text \<open>
  C33. Recovery does not depend on the order in which the directory lists its files.
\<close>

theorem recovery_any_directory_order:
  assumes "fs_ok f" and "mset (fs_files f) = mset (fs_files f')" and "fs_dirs f = fs_dirs f'"
  shows "recoverState db n pre f' = recoverState db n pre f"
proof -
  note p = found_files_perm(1) [OF assms(1,2)] found_files_perm(2,3) [OF assms(1,2), of db]
  have "recovered_head db f' = recovered_head db f"
    by (simp add: recovered_head_map p(2) recovered_index_def index_file_def ifs_open_def fun_eq_iff p(1))
  moreover have "max_file_id (found_files db f') = max_file_id (found_files db f)"
    by (rule max_file_id_cong) (rule p(3))
  moreover have "fs_exists db f' = fs_exists db f" using assms(3) by (simp add: fs_exists_def p(1))
  ultimately show ?thesis by (simp add: recoverState_def)
qed

theorem recovery_any_directory_order_witness:
  "recoverState ''db'' 4 0 \<lparr>fs_dirs = [''db''], fs_files = [(''db/L0-000001.sst'', ''x''), (''db/L0-000002.sst'', ''y'')]\<rparr>
   = recoverState ''db'' 4 0 \<lparr>fs_dirs = [''db''], fs_files = [(''db/L0-000002.sst'', ''y''), (''db/L0-000001.sst'', ''x'')]\<rparr>"
  by (rule recovery_any_directory_order) (simp_all add: fs_ok_def)

text \<open>
  A table that ends within the value of its last record still indexes that record: its key reads as
  absent, though an earlier record of the table holds a value, and all other keys read as before.
\<close>

theorem torn_value_hides:
  assumes es: "\<forall>e \<in> set es. wf_entry e" "length (file_bytes es) < 2 ^ 63" and kv: "wf_entry (k, v)"
    and n: "8 + length k \<le> n" "n < length (serialize_entry k v)"
    and f: "fs_read f path = Some (file_bytes es @ take n (serialize_entry k v))"
  shows "table_get f (recovered_index f (i, path)) k = None
    \<and> (\<forall>k'. k' \<noteq> k \<longrightarrow> table_get f (recovered_index f (i, path)) k' = entries_map es k')"
proof -
  let ?off = "word_of_nat (length (file_bytes es)) :: u64"
  let ?ix = "recovered_index f (i, path)" and ?jx = "\<lparr>l0_path = path, l0_offsets = build_index (entry_offsets 0 es)\<rparr>"
  have path: "l0_path ?ix = path" by (simp add: recovered_index_def)
  have offs: "index_file f path = entry_offsets 0 (es @ [(k, v)])"
    using index_file_torn_value [OF es(1) kv n f] by simp
  have l: "length (file_bytes (es @ [(k, v)])) < 2 ^ 64"
    using es(2) kv by (simp add: length_serialize wf_entry_def)
  then have "map_of (build_index (entry_offsets 0 (es @ [(k, v)]))) = map_of (rev (entry_offsets 0 (es @ [(k, v)])))"
    by (intro map_of_build_index_ascending conjunct1 [OF entry_offsets_ascending]) simp
  then have ix: "map_of (l0_offsets ?ix) = (map_of (rev (entry_offsets 0 es)))(k \<mapsto> ?off)"
    by (simp add: recovered_index_def offs)
  have "map_of (l0_offsets ?jx) = map_of (rev (entry_offsets 0 es))"
    using l by (simp, intro map_of_build_index_ascending conjunct1 [OF entry_offsets_ascending]) simp
  then have "table_map f ?ix k' = table_map f ?jx k'" if "k' \<noteq> k" for k'
    using that by (simp add: table_map_def ix path split: option.split)
  moreover have "table_map f ?jx = entries_map es"
    by (rule table_map_entries [OF es]) (use f in simp_all)
  moreover have "table_map f ?ix k = None"
    using readValueAt_torn_value [OF kv n es(2) f] by (simp add: table_map_def ix path)
  moreover have "table_get f ?ix = table_map f ?ix"
    using table_level.look_content [of ?ix f] by (auto simp: table_ok_def recovered_index_def fun_eq_iff)
  ultimately show ?thesis by simp
qed

theorem torn_value_hides_witness:
  "let f = \<lparr>fs_dirs = [''db''], fs_files = [(''t'',
             serialize_entry ''k'' ''old'' @ serialize_entry ''j'' ''x'' @ take 10 (serialize_entry ''k'' ''new''))]\<rparr>
   in table_get f (recovered_index f (1, ''t'')) ''k'' = None
      \<and> table_get f (recovered_index f (1, ''t'')) ''j'' = Some ''x''"
proof -
  let ?es = "[(''k'', ''old''), (''j'', ''x'')] :: (key \<times> val) list"
  let ?f = "\<lparr>fs_dirs = [''db''], fs_files = [(''t'',
      serialize_entry ''k'' ''old'' @ serialize_entry ''j'' ''x'' @ take 10 (serialize_entry ''k'' ''new''))]\<rparr>"
  have wf: "\<forall>e \<in> set ?es. wf_entry e" "wf_entry (''k'', ''new'')" by (simp_all add: wf_entry_def)
  have len: "length (file_bytes ?es) < 2 ^ 63" using wf by (simp add: length_serialize)
  have n: "8 + length ''k'' \<le> 10" "10 < length (serialize_entry ''k'' ''new'')"
    using wf(2) by (simp_all add: length_serialize)
  have "fs_read ?f ''t'' = Some (file_bytes ?es @ take 10 (serialize_entry ''k'' ''new''))"
    by (simp add: fs_read_def)
  from torn_value_hides [OF wf(1) len wf(2) n this, of 1] show ?thesis
    by (simp add: Let_def entries_map_def)
qed

end
