(* ===== verification/Config.thy ===== *)
theory Config
  imports Lsm_Prelude
begin

text \<open>
  The configuration of \<open>include/lsmio/lsmio.hpp\<close> and the helpers of \<open>lib/lsmio.cpp\<close>:
  the two enumerations with their printed names, the record of settings with its defaults,
  and the table of named flags. A C++ \<open>int\<close> setting is an \<^typ>\<open>int\<close>; where the code stores
  it in a \<open>size_t\<close> the conversion is \<open>word_of_int\<close>, which wraps negative values.
\<close>

section \<open>Enumerations\<close>

datatype mpi_agg_type = Shared | Entire | EntireSerial | Split

datatype storage_type = NativeDB | LevelDB | RocksDB

fun agg_to_string :: "mpi_agg_type \<Rightarrow> string" where
  "agg_to_string Shared = ''mpiShared''"
| "agg_to_string Entire = ''mpiEntire''"
| "agg_to_string EntireSerial = ''mpiEntireSerial''"
| "agg_to_string Split = ''mpiSplit''"

fun storage_to_string :: "storage_type \<Rightarrow> string" where
  "storage_to_string NativeDB = ''NativeDB''"
| "storage_to_string LevelDB = ''LevelDB''"
| "storage_to_string RocksDB = ''RocksDB''"

text \<open>\<open>operator<<\<close> appends the name to what the stream holds.\<close>

definition os_put_agg :: "string \<Rightarrow> mpi_agg_type \<Rightarrow> string" where
  "os_put_agg os v = os @ agg_to_string v"

definition os_put_storage :: "string \<Rightarrow> storage_type \<Rightarrow> string" where
  "os_put_storage os v = os @ storage_to_string v"

lemma agg_to_string_inj: "agg_to_string a = agg_to_string b \<longleftrightarrow> a = b"
  by (cases a; cases b) simp_all

lemma storage_to_string_inj: "storage_to_string a = storage_to_string b \<longleftrightarrow> a = b"
  by (cases a; cases b) simp_all

section \<open>Settings\<close>

record lsmio_config =
  cfg_storageType :: storage_type
  cfg_mpiAggType :: mpi_agg_type
  cfg_disableAggDirStructure :: bool
  cfg_useBloomFilter :: bool
  cfg_useSync :: bool
  cfg_enableMMAP :: bool
  cfg_compression :: bool
  cfg_blockSize :: int
  cfg_transferSize :: int
  cfg_enableWAL :: bool
  cfg_writeBufferNumber :: int
  cfg_alwaysFlush :: bool
  cfg_asyncBatchSize :: int
  cfg_asyncBatchBytes :: int
  cfg_cacheSize :: int
  cfg_writeBufferSize :: int
  cfg_writeFileSize :: int
  cfg_preAllocate :: bool
  cfg_filePoolSize :: int
  cfg_autoTuneParameters :: bool

definition default_config :: lsmio_config where
  "default_config = \<lparr>
     cfg_storageType = NativeDB, cfg_mpiAggType = Shared,
     cfg_disableAggDirStructure = False, cfg_useBloomFilter = False, cfg_useSync = False,
     cfg_enableMMAP = False, cfg_compression = False,
     cfg_blockSize = 512 * 1024, cfg_transferSize = 512 * 1024,
     cfg_enableWAL = False, cfg_writeBufferNumber = 4,
     cfg_alwaysFlush = False, cfg_asyncBatchSize = 512, cfg_asyncBatchBytes = 32 * 1024 * 1024,
     cfg_cacheSize = 0, cfg_writeBufferSize = 32 * 1024 * 1024,
     cfg_writeFileSize = 8 * (32 * 1024 * 1024), cfg_preAllocate = False, cfg_filePoolSize = 4,
     cfg_autoTuneParameters = False\<rparr>"

section \<open>Named flags\<close>

text \<open>\<open>_LSMIOconfigMap\<close> is a \<open>std::map<std::string, bool>\<close> that only ever holds \<open>true\<close>.\<close>

definition getFlag :: "(string, bool) omap \<Rightarrow> string \<Rightarrow> bool" where
  "getFlag fm k = (case map_of fm k of None \<Rightarrow> False | Some b \<Rightarrow> True)"

definition setFlag :: "string \<Rightarrow> bool \<Rightarrow> (string, bool) omap \<Rightarrow> (string, bool) omap" where
  "setFlag k v fm =
     (if v then omap_put k True fm
      else case map_of fm k of None \<Rightarrow> fm | Some b \<Rightarrow> omap_erase k fm)"

lemma setFlag_ok: "omap_ok fm \<Longrightarrow> omap_ok (setFlag k v fm)"
  by (simp add: setFlag_def split: option.split)

lemma getFlag_setFlag_iff:
  "omap_ok fm \<Longrightarrow> getFlag (setFlag k v fm) k' \<longleftrightarrow> (if k' = k then v else getFlag fm k')"
  by (auto simp: getFlag_def setFlag_def split: option.splits if_splits)

section \<open>Logging\<close>

text \<open>
  The severities of glog, in their order, and the part of its state that the library sets:
  \<open>FLAGS_logtostderr\<close>, \<open>FLAGS_minloglevel\<close>, the name given to \<open>InitGoogleLogging\<close>, and the flag
  \<open>defaultLogDebug\<close> of the library.
\<close>

datatype log_level = LOG_INFO | LOG_WARNING | LOG_ERROR | LOG_FATAL

fun severity :: "log_level \<Rightarrow> nat" where
  "severity LOG_INFO = 0"
| "severity LOG_WARNING = 1"
| "severity LOG_ERROR = 2"
| "severity LOG_FATAL = 3"

lemma severity_inj: "severity a = severity b \<longleftrightarrow> a = b"
  by (cases a; cases b) simp_all

instantiation log_level :: linorder
begin

definition less_eq_log_level :: "log_level \<Rightarrow> log_level \<Rightarrow> bool" where
  "a \<le> b \<longleftrightarrow> severity a \<le> severity b"

definition less_log_level :: "log_level \<Rightarrow> log_level \<Rightarrow> bool" where
  "a < b \<longleftrightarrow> severity a < severity b"

instance
  by standard (auto simp: less_eq_log_level_def less_log_level_def severity_inj)

end

record log_state =
  lg_debug :: bool
  lg_name :: "string option"
  lg_toStderr :: bool
  lg_minLevel :: log_level

definition log_start :: log_state where
  "log_start = \<lparr>lg_debug = False, lg_name = None, lg_toStderr = False, lg_minLevel = LOG_INFO\<rparr>"

definition initLSMIORelease :: "string \<Rightarrow> log_state \<Rightarrow> log_state" where
  "initLSMIORelease name g = g\<lparr>lg_name := Some name, lg_toStderr := True, lg_minLevel := LOG_ERROR\<rparr>"

definition initLSMIODebug :: "string \<Rightarrow> log_state \<Rightarrow> log_state" where
  "initLSMIODebug name g = g\<lparr>lg_debug := True, lg_name := Some name, lg_toStderr := True, lg_minLevel := LOG_INFO\<rparr>"

definition increaseLSMIOLogging :: "log_state \<Rightarrow> log_state" where
  "increaseLSMIOLogging g = g\<lparr>lg_minLevel := LOG_INFO\<rparr>"

definition decreaseLSMIOLogging :: "log_state \<Rightarrow> log_state" where
  "decreaseLSMIOLogging g = g\<lparr>lg_minLevel := LOG_WARNING\<rparr>"

definition defaultLSMIOLogging :: "log_state \<Rightarrow> log_state" where
  "defaultLSMIOLogging g = (if lg_debug g then g\<lparr>lg_toStderr := True, lg_minLevel := LOG_INFO\<rparr>
     else g\<lparr>lg_toStderr := True, lg_minLevel := LOG_ERROR\<rparr>)"

definition log_shown :: "log_level \<Rightarrow> log_state \<Rightarrow> bool" where
  "log_shown l g \<longleftrightarrow> lg_minLevel g \<le> l"

lemmas log_defs = initLSMIORelease_def initLSMIODebug_def increaseLSMIOLogging_def decreaseLSMIOLogging_def
  defaultLSMIOLogging_def log_shown_def

text \<open>Both initialisations are fixed points of the default, which undoes every change of the verbosity.\<close>

lemma default_after_init:
  "defaultLSMIOLogging (initLSMIODebug name g) = initLSMIODebug name g"
  "\<not> lg_debug g \<Longrightarrow> defaultLSMIOLogging (initLSMIORelease name g) = initLSMIORelease name g"
  by (simp_all add: log_defs)

lemma default_undoes:
  "defaultLSMIOLogging (increaseLSMIOLogging g) = defaultLSMIOLogging g"
  "defaultLSMIOLogging (decreaseLSMIOLogging g) = defaultLSMIOLogging g"
  "defaultLSMIOLogging (defaultLSMIOLogging g) = defaultLSMIOLogging g"
  by (simp_all add: log_defs)

text \<open>In a process that is not debugged \<open>decreaseLSMIOLogging\<close> shows what the default hides.\<close>

lemma decrease_shows_more:
  assumes "\<not> lg_debug g"
  shows "log_shown LOG_WARNING (decreaseLSMIOLogging g) \<and> \<not> log_shown LOG_WARNING (defaultLSMIOLogging g)"
  using assms by (simp add: log_defs less_eq_log_level_def)

text \<open>\<open>handlerSIGSEGV\<close> prints a backtrace and ends the process with \<open>EXIT_FAILURE\<close>.\<close>

definition handlerSIGSEGV :: "int \<Rightarrow> unit outcome" where
  "handlerSIGSEGV signal = Exits 1"

definition FLAG_DUAL :: string where "FLAG_DUAL = ''flag_dual''"
definition FLAG_FALLBACK :: string where "FLAG_FALLBACK = ''flag_fallback''"

end
