(* ===== verification/Store.thy ===== *)
theory Store
  imports Kv_Levels Config
begin

text \<open>
  The abstract class \<open>LSMIOStore\<close> of \<open>include/lsmio/manager/store/store.hpp\<close> and
  \<open>lib/manager/store/store.cpp\<close>. Its pure virtual functions are the fields of a record
  of functions over a state (the virtual table of one concrete store); the operations the
  base class implements on top of them (\<open>put\<close>, \<open>del\<close>, \<open>metaGet\<close>, \<open>metaGetAll\<close>, \<open>metaPut\<close>)
  are definitions over such a record. The locale \<open>lsmio_store\<close> is the contract that the
  layers above rely on; the native store, the LevelDB store and the RocksDB store
  interpret it.
\<close>

section \<open>The interface\<close>

datatype mutation_type = Put | Del

fun getMutationType :: "mutation_type \<Rightarrow> string" where
  "getMutationType Put = ''Put''"
| "getMutationType Del = ''Del''"

text \<open>
  Results: the boolean a C++ function returns, the values it stores through its pointer
  arguments, and the new state of the store.
\<close>

record 's store_ops =
  op_batchMutation :: "mutation_type \<Rightarrow> key \<Rightarrow> val \<Rightarrow> bool \<Rightarrow> 's \<Rightarrow> (bool \<times> 's) outcome"
  op_get :: "key \<Rightarrow> 's \<Rightarrow> val option outcome"
  op_getPrefix :: "key \<Rightarrow> 's \<Rightarrow> (bool \<times> (key \<times> val) list) outcome"
  op_readBarrier :: "'s \<Rightarrow> (bool \<times> 's) outcome"
  op_writeBarrier :: "'s \<Rightarrow> (bool \<times> 's) outcome"
  op_close :: "'s \<Rightarrow> 's outcome"

definition meta_prefix :: string where
  "meta_prefix = ''__lsmio_md::''"

definition store_put :: "'s store_ops \<Rightarrow> key \<Rightarrow> val \<Rightarrow> bool \<Rightarrow> 's \<Rightarrow> (bool \<times> 's) outcome" where
  "store_put ops k v flush s = op_batchMutation ops Put k v flush s"

definition store_del :: "'s store_ops \<Rightarrow> key \<Rightarrow> bool \<Rightarrow> 's \<Rightarrow> (bool \<times> 's) outcome" where
  "store_del ops k flush s = op_batchMutation ops Del k '''' flush s"

definition store_metaGet :: "'s store_ops \<Rightarrow> key \<Rightarrow> 's \<Rightarrow> val option outcome" where
  "store_metaGet ops k s = op_get ops (meta_prefix @ k) s"

definition store_metaGetAll :: "'s store_ops \<Rightarrow> string \<Rightarrow> 's \<Rightarrow> (bool \<times> (key \<times> val) list) outcome" where
  "store_metaGetAll ops inFix s =
     op_getPrefix ops (meta_prefix @ (if inFix = [] then '''' else inFix)) s"

definition store_metaPut :: "'s store_ops \<Rightarrow> key \<Rightarrow> val \<Rightarrow> bool \<Rightarrow> 's \<Rightarrow> (bool \<times> 's) outcome" where
  "store_metaPut ops k v flush s = store_put ops (meta_prefix @ k) v flush s"

text \<open>The members of the base class, and its barrier, which the stores override.\<close>

record store_base =
  sb_dbPath :: string
  sb_maxBatchSize :: int
  sb_maxBatchBytes :: int

definition store_base_new :: "lsmio_config \<Rightarrow> string \<Rightarrow> bool \<Rightarrow> store_base" where
  "store_base_new cfg dbPath overWrite =
     \<lparr>sb_dbPath = dbPath, sb_maxBatchSize = cfg_asyncBatchSize cfg, sb_maxBatchBytes = cfg_asyncBatchBytes cfg\<rparr>"

definition store_writeBarrier :: "('s \<Rightarrow> (bool \<times> 's) outcome) \<Rightarrow> 's \<Rightarrow> (bool \<times> 's) outcome" where
  "store_writeBarrier stopBatch s = bind_outcome (stopBatch s) (\<lambda>(status, s'). Returns (True, s'))"

lemmas store_defs [lsm_defs] = store_put_def store_del_def store_metaGet_def store_metaGetAll_def
  store_metaPut_def

section \<open>The contract\<close>

text \<open>
  \<open>content\<close> is what the store holds once its pending work is done. A point lookup agrees
  with it in a \<open>readable\<close> state and a prefix scan in a \<open>scannable\<close> one; a write barrier
  establishes both. \<open>room\<close> says that a mutation fits the limits of the store (string
  lengths, free file ids, reserved values).
\<close>

definition apply_mutation :: "mutation_type \<Rightarrow> key \<Rightarrow> val \<Rightarrow> (key \<rightharpoonup> val) \<Rightarrow> key \<rightharpoonup> val" where
  "apply_mutation t k v m = (case t of Put \<Rightarrow> m(k \<mapsto> v) | Del \<Rightarrow> m(k := None))"

locale lsmio_store =
  fixes ops :: "'s store_ops"
    and ok :: "'s \<Rightarrow> bool"
    and content :: "'s \<Rightarrow> key \<rightharpoonup> val"
    and readable :: "'s \<Rightarrow> bool"
    and scannable :: "'s \<Rightarrow> bool"
    and room :: "mutation_type \<Rightarrow> key \<Rightarrow> val \<Rightarrow> 's \<Rightarrow> bool"
  assumes mutation:
    "ok s \<Longrightarrow> room t k v s \<Longrightarrow> \<exists>s'. op_batchMutation ops t k v flush s = Returns (True, s')
       \<and> ok s' \<and> content s' = apply_mutation t k v (content s)
       \<and> (flush \<and> readable s \<longrightarrow> readable s')"
    and get: "ok s \<Longrightarrow> readable s \<Longrightarrow> op_get ops k s = Returns (content s k)"
    and scan: "ok s \<Longrightarrow> scannable s \<Longrightarrow>
       \<exists>b xs. op_getPrefix ops p s = Returns (b, xs) \<and> omap_ok xs \<and> map_of xs = content s |` with_prefix p"
    and write_barrier: "ok s \<Longrightarrow> \<exists>s'. op_writeBarrier ops s = Returns (True, s')
       \<and> ok s' \<and> content s' = content s \<and> readable s' \<and> scannable s'"
begin

text \<open>Metadata is what the store holds under the prefix.\<close>

definition meta_content :: "'s \<Rightarrow> key \<rightharpoonup> val" where
  "meta_content s = (\<lambda>k. content s (meta_prefix @ k))"

lemma put_spec:
  assumes "ok s" and "room Put k v s"
  obtains s' where "store_put ops k v flush s = Returns (True, s')" and "ok s'"
    and "content s' = (content s)(k \<mapsto> v)" and "flush \<and> readable s \<longrightarrow> readable s'"
  using mutation [OF assms, of flush] that by (auto simp: store_put_def apply_mutation_def)

lemma del_spec:
  assumes "ok s" and "room Del k '''' s"
  obtains s' where "store_del ops k flush s = Returns (True, s')" and "ok s'"
    and "content s' = (content s)(k := None)" and "flush \<and> readable s \<longrightarrow> readable s'"
  using mutation [OF assms, of flush] that by (auto simp: store_del_def apply_mutation_def)

lemma put_get:
  assumes "ok s" and "readable s" and "room Put k v s"
  shows "\<exists>s'. store_put ops k v True s = Returns (True, s') \<and> ok s'
    \<and> op_get ops k' s' = Returns (if k' = k then Some v else content s k')"
proof -
  from put_spec [OF assms(1,3)] obtain s' where s': "store_put ops k v True s = Returns (True, s')"
    "ok s'" "content s' = (content s)(k \<mapsto> v)" "True \<and> readable s \<longrightarrow> readable s'" .
  with assms(2) show ?thesis by (auto simp: get)
qed

lemma metaPut_spec:
  assumes "ok s" and "room Put (meta_prefix @ k) v s"
  obtains s' where "store_metaPut ops k v flush s = Returns (True, s')" and "ok s'"
    and "meta_content s' = (meta_content s)(k \<mapsto> v)"
    and "\<forall>k'. \<not> prefix meta_prefix k' \<longrightarrow> content s' k' = content s k'"
    and "flush \<and> readable s \<longrightarrow> readable s'"
proof -
  from put_spec [OF assms] obtain s' where s': "store_put ops (meta_prefix @ k) v flush s = Returns (True, s')"
    "ok s'" "content s' = (content s)(meta_prefix @ k \<mapsto> v)" "flush \<and> readable s \<longrightarrow> readable s'" .
  show ?thesis
    by (rule that) (use s' in \<open>auto simp: store_metaPut_def meta_content_def fun_eq_iff\<close>)
qed

lemma metaGet_spec: "ok s \<Longrightarrow> readable s \<Longrightarrow> store_metaGet ops k s = Returns (meta_content s k)"
  by (simp add: store_metaGet_def meta_content_def get)

text \<open>The listing of the metadata holds, in key order, exactly the metadata keys with the infix.\<close>

lemma metaGetAll_spec:
  assumes "ok s" and "scannable s"
  shows "\<exists>b xs. store_metaGetAll ops inFix s = Returns (b, xs) \<and> omap_ok xs
    \<and> (\<forall>k v. (k, v) \<in> set xs \<longleftrightarrow>
         (\<exists>k'. k = meta_prefix @ k' \<and> prefix inFix k' \<and> meta_content s k' = Some v))"
proof -
  from scan [OF assms, of "meta_prefix @ inFix"] obtain b xs where
    xs: "op_getPrefix ops (meta_prefix @ inFix) s = Returns (b, xs)" "omap_ok xs"
      "map_of xs = content s |` with_prefix (meta_prefix @ inFix)"
    by blast
  have "(k, v) \<in> set xs \<longleftrightarrow> map_of xs k = Some v" for k v
    using xs(2) by (auto simp: omap_ok_distinct)
  then have "(k, v) \<in> set xs \<longleftrightarrow>
      (\<exists>k'. k = meta_prefix @ k' \<and> prefix inFix k' \<and> meta_content s k' = Some v)" for k v
    by (auto simp: xs(3) restrict_map_def with_prefix_def meta_content_def prefix_def split: if_splits)
  with xs(1,2) show ?thesis by (auto simp: store_metaGetAll_def)
qed

text \<open>A write barrier makes every earlier mutation readable, whatever its flush flag was.\<close>

lemma put_barrier_get:
  assumes "ok s" and "room Put k v s"
  shows "\<exists>s' s''. store_put ops k v flush s = Returns (True, s')
    \<and> op_writeBarrier ops s' = Returns (True, s'')
    \<and> op_get ops k s'' = Returns (Some v)"
proof -
  from put_spec [OF assms] obtain s' where s': "store_put ops k v flush s = Returns (True, s')"
    "ok s'" "content s' = (content s)(k \<mapsto> v)" .
  from write_barrier [OF s'(2)] obtain s'' where "op_writeBarrier ops s' = Returns (True, s'')"
    "ok s''" "content s'' = content s'" "readable s''" by blast
  with s' get [of s'' k] show ?thesis by auto
qed

end

end
