(* ===== verification/Store_Native.thy ===== *)
theory Store_Native
  imports Sst_Recovery Store
begin

text \<open>
  The native store of \<open>lib/manager/store/native/store_native.cpp\<close>: an active memtable, a
  queue of immutable memtables, the SSTable manager, and a background thread that flushes
  the queue in FIFO order. This theory holds the state, one definition per critical
  section, the step relation that interleaves the clients, the flush thread, the file-pool
  worker and \<open>close\<close>, and its invariant: the tables on disk, the memtable being flushed, the
  queue and the active memtable, read in this order, are the sequence of all mutations the
  store has accepted.
\<close>

section \<open>State\<close>

record native_store =
  nt_dbPath :: string
  nt_memtable_max_size_bytes :: u64
  nt_max_immutable_memtables :: u64
  nt_active :: "memtable option"
  nt_immutable :: "memtable list"
  nt_sst :: sst_manager
  nt_shutting_down :: bool
  nt_flush_in_progress :: bool

text \<open>
  The constructor. \<open>fs_magic\<close> is the answer of \<open>statfs\<close>; \<open>autoTuneParameters\<close> classifies
  the file system for its log output and changes no setting.
\<close>

definition LUSTRE_SUPER_MAGIC :: u64 where
  "LUSTRE_SUPER_MAGIC = 0x0BD00BD0"

definition GPFS_SUPER_MAGIC :: u64 where
  "GPFS_SUPER_MAGIC = 0x47504653"

definition autoTune :: "u64 \<Rightarrow> native_store \<Rightarrow> (string \<times> bool) \<times> native_store" where
  "autoTune fs_magic n =
     ((if fs_magic = LUSTRE_SUPER_MAGIC then (''Lustre'', True)
       else if fs_magic = GPFS_SUPER_MAGIC then (''GPFS'', True)
       else (''Unknown/Local'', False)), n)"

definition memtable_max_size :: "lsmio_config \<Rightarrow> u64" where
  "memtable_max_size cfg =
     (if 0 < cfg_writeBufferSize cfg then word_of_int (cfg_writeBufferSize cfg) else 32 * 1024 * 1024)"

definition max_immutable :: "lsmio_config \<Rightarrow> u64" where
  "max_immutable cfg =
     (if 0 < cfg_writeBufferNumber cfg then word_of_int (cfg_writeBufferNumber cfg) else 4)"

definition native_new :: "lsmio_config \<Rightarrow> string \<Rightarrow> bool \<Rightarrow> u64 \<Rightarrow> fs \<Rightarrow> native_store \<times> fs" where
  "native_new cfg db overWrite fs_magic f =
     (let f1 = (if overWrite then remove_all db f else f);
          f2 = create_directories db f1;
          bytes = memtable_max_size cfg;
          pre_alloc_bytes = (if cfg_preAllocate cfg then bytes else 0);
          n = \<lparr>nt_dbPath = db, nt_memtable_max_size_bytes = bytes,
               nt_max_immutable_memtables = max_immutable cfg,
               nt_active = Some mt_new, nt_immutable = [],
               nt_sst = sst_new db (word_of_int (cfg_filePoolSize cfg)) pre_alloc_bytes f2,
               nt_shutting_down = False, nt_flush_in_progress = False\<rparr>
      in (if cfg_autoTuneParameters cfg then snd (autoTune fs_magic n) else n, f2))"

section \<open>Mutations\<close>

definition actual_value :: "mutation_type \<Rightarrow> val \<Rightarrow> val" where
  "actual_value t v = (case t of Del \<Rightarrow> MEMTABLE_TOMBSTONE | Put \<Rightarrow> v)"

definition needs_rotation :: "native_store \<Rightarrow> memtable \<Rightarrow> key \<Rightarrow> val \<Rightarrow> bool" where
  "needs_rotation n a k v \<longleftrightarrow>
     mt_sizeBytes a + (word_of_nat (length k) + word_of_nat (length v)) > nt_memtable_max_size_bytes n
     \<and> mt_sizeBytes a > 0"

definition has_room :: "native_store \<Rightarrow> bool" where
  "has_room n \<longleftrightarrow> length (nt_immutable n) < unat (nt_max_immutable_memtables n)"

definition rotate_memtable :: "memtable \<Rightarrow> native_store \<Rightarrow> native_store" where
  "rotate_memtable a n = n\<lparr>nt_immutable := nt_immutable n @ [a], nt_active := Some mt_new\<rparr>"

definition add_active :: "key \<Rightarrow> val \<Rightarrow> native_store \<Rightarrow> native_store" where
  "add_active k v n = n\<lparr>nt_active := map_option (mt_add k v) (nt_active n)\<rparr>"

text \<open>
  \<open>_batchMutation\<close> up to its wait: \<open>Blocks\<close> is the wait for \<open>_backpressure_cv\<close> on a full
  queue, and \<open>batch_resume\<close> is the rest of the body once the wait is over (the size of the
  active memtable is not looked at again). A null active memtable, which \<open>close\<close> leaves
  behind, is dereferenced.
\<close>

definition batch_mutation :: "key \<Rightarrow> val \<Rightarrow> native_store \<Rightarrow> native_store outcome" where
  "batch_mutation k v n = (case nt_active n of None \<Rightarrow> Undefined | Some a \<Rightarrow>
     if needs_rotation n a k v then
       (if \<not> has_room n then Blocks else Returns (add_active k v (rotate_memtable a n)))
     else Returns (add_active k v n))"

definition batch_resume :: "key \<Rightarrow> val \<Rightarrow> native_store \<Rightarrow> native_store outcome" where
  "batch_resume k v n =
     (if \<not> has_room n then Blocks
      else case nt_active n of None \<Rightarrow> Undefined
        | Some a \<Rightarrow> Returns (add_active k v (rotate_memtable a n)))"

definition nt_startBatch :: "native_store \<Rightarrow> bool \<times> native_store" where
  "nt_startBatch n = (True, n)"

section \<open>The flush thread\<close>

text \<open>The first critical section of \<open>FlushWorkLoop\<close>: \<open>None\<close> is its return on shutdown.\<close>

definition flush_take :: "native_store \<Rightarrow> (memtable option \<times> native_store) outcome" where
  "flush_take n =
     (if \<not> (nt_shutting_down n \<or> nt_immutable n \<noteq> []) then Blocks
      else case nt_immutable n of
        [] \<Rightarrow> Returns (None, n)
      | m # ms \<Rightarrow> Returns (Some m, n\<lparr>nt_immutable := ms, nt_flush_in_progress := True\<rparr>))"

text \<open>\<open>FlushMemtableToL0\<close>: the boolean that \<open>flushMemtable\<close> returns is dropped.\<close>

definition flushMemtableToL0 :: "memtable \<Rightarrow> native_store \<Rightarrow> fs \<Rightarrow> (native_store \<times> fs) outcome" where
  "flushMemtableToL0 m n f =
     (if mt_empty m then Returns (n, f)
      else bind_outcome (flushMemtable m (nt_sst n) f)
             (\<lambda>(_, mgr, f'). Returns (n\<lparr>nt_sst := mgr\<rparr>, f')))"

definition flush_done :: "native_store \<Rightarrow> native_store" where
  "flush_done n = n\<lparr>nt_flush_in_progress := False\<rparr>"

section \<open>Reads\<close>

text \<open>
  \<open>get\<close> searches the active memtable and the queue under the lock, and the SSTables after
  releasing it; \<open>nt_get_mem\<close> is the first part, \<open>nt_get\<close> the whole call when nothing
  happens between the two.
\<close>

definition nt_get_mem :: "native_store \<Rightarrow> key \<Rightarrow> val option outcome" where
  "nt_get_mem n k = (case nt_active n of None \<Rightarrow> Undefined | Some a \<Rightarrow>
     Returns (case mt_get a k of Some v \<Rightarrow> Some v
              | None \<Rightarrow> search_levels mt_get (rev (nt_immutable n)) k))"

definition get_result :: "val option \<Rightarrow> val option" where
  "get_result r = (case r of Some v \<Rightarrow> (if v \<noteq> MEMTABLE_TOMBSTONE then Some v else None) | None \<Rightarrow> None)"

definition nt_get :: "native_store \<Rightarrow> fs \<Rightarrow> key \<Rightarrow> val option outcome" where
  "nt_get n f k = bind_outcome (nt_get_mem n k) (\<lambda>r.
     Returns (get_result (case r of Some v \<Rightarrow> Some v | None \<Rightarrow> sst_get f (nt_sst n) k)))"

text \<open>
  \<open>getPrefix\<close>: the memtable scans overwrite what is there, from the active memtable over the
  queue from its youngest to its oldest element; the SSTable scan only adds keys.
\<close>

definition nt_scan_mem :: "string \<Rightarrow> memtable \<Rightarrow> memtable list \<Rightarrow> scan_state" where
  "nt_scan_mem p a ms = foldl (\<lambda>st m. mt_scan p m st) (mt_scan p a ([], {})) (rev ms)"

definition nt_getPrefix :: "native_store \<Rightarrow> fs \<Rightarrow> string \<Rightarrow> (bool \<times> (key \<times> val) list) outcome" where
  "nt_getPrefix n f p = (case nt_active n of None \<Rightarrow> Undefined | Some a \<Rightarrow>
     (case sst_scan f (nt_sst n) p (nt_scan_mem p a (nt_immutable n)) of
        ((results, deleted), _) \<Rightarrow>
          Returns (results \<noteq> [], filter (\<lambda>e. fst e \<notin> deleted) results)))"

definition nt_readBarrier :: "native_store \<Rightarrow> bool \<times> native_store" where
  "nt_readBarrier n = (True, n)"

section \<open>Barrier, cleanup and close\<close>

text \<open>\<open>writeBarrier\<close>: rotate a non-empty memtable without backpressure, then wait.\<close>

definition barrier_enter :: "native_store \<Rightarrow> native_store outcome" where
  "barrier_enter n = (case nt_active n of None \<Rightarrow> Undefined | Some a \<Rightarrow>
     Returns (if \<not> mt_empty a then rotate_memtable a n else n))"

definition barrier_ready :: "native_store \<Rightarrow> bool" where
  "barrier_ready n \<longleftrightarrow> nt_immutable n = [] \<and> \<not> nt_flush_in_progress n"

definition nt_dbCleanup :: "native_store \<Rightarrow> fs \<Rightarrow> bool \<times> fs" where
  "nt_dbCleanup n f =
     (if fs_exists (nt_dbPath n) f then (True, remove_all (nt_dbPath n) f) else (False, f))"

text \<open>
  \<open>close\<close>: the atomic exchange of \<open>_shutting_down\<close>, the queueing of the active memtable after
  the flush thread has been joined, one turn of the drain loop, and the close of the manager.
\<close>

definition close_begin :: "native_store \<Rightarrow> bool \<times> native_store" where
  "close_begin n = (\<not> nt_shutting_down n, n\<lparr>nt_shutting_down := True\<rparr>)"

definition close_queue :: "native_store \<Rightarrow> native_store outcome" where
  "close_queue n = (case nt_active n of None \<Rightarrow> Undefined | Some a \<Rightarrow>
     Returns (if \<not> mt_empty a then n\<lparr>nt_immutable := nt_immutable n @ [a], nt_active := None\<rparr> else n))"

definition close_pop :: "native_store \<Rightarrow> (memtable \<times> native_store) option" where
  "close_pop n = (case nt_immutable n of [] \<Rightarrow> None | m # ms \<Rightarrow> Some (m, n\<lparr>nt_immutable := ms\<rparr>))"

definition close_finish :: "native_store \<Rightarrow> native_store" where
  "close_finish n = n\<lparr>nt_sst := sst_close (nt_sst n)\<rparr>"

lemmas nt_defs [lsm_defs] = rotate_memtable_def add_active_def flush_done_def close_begin_def
  close_finish_def barrier_ready_def

section \<open>The threads\<close>

datatype flush_worker = FwWait | FwFlush memtable | FwFlushed | FwExit

datatype close_phase = ClOpen | ClJoin | ClDrain | ClFlush memtable | ClClosed

record native_sys =
  ns_store :: native_store
  ns_worker :: flush_worker
  ns_parked :: "(key \<times> val) list"
  ns_close :: close_phase
  ns_fs :: fs

text \<open>Observable events of a step; all others are internal.\<close>

datatype nt_event = Tau | Wrote key val | BarrierEntered | BarrierReturned

text \<open>
  The interleavings. \<open>w_\<close> rules are clients in \<open>_batchMutation\<close> (a writer that finds the queue
  full is parked until a later step resumes it), \<open>b_\<close> rules are clients in \<open>writeBarrier\<close>,
  \<open>f_\<close> rules the flush thread, \<open>c_\<close> rules \<open>close\<close>, \<open>p_\<close> rules the two file helpers. Reads
  change nothing and need no rule. A wait ends at any moment at which its predicate holds.
\<close>

inductive nt_step :: "native_sys \<Rightarrow> nt_event \<Rightarrow> native_sys \<Rightarrow> bool" where
  w_done: "batch_mutation k (actual_value t v) (ns_store s) = Returns n \<Longrightarrow>
    nt_step s (Wrote k (actual_value t v)) (s\<lparr>ns_store := n\<rparr>)"
| w_park: "batch_mutation k (actual_value t v) (ns_store s) = Blocks \<Longrightarrow>
    nt_step s Tau (s\<lparr>ns_parked := (k, actual_value t v) # ns_parked s\<rparr>)"
| w_resume: "(k, v) \<in> set (ns_parked s) \<Longrightarrow> batch_resume k v (ns_store s) = Returns n \<Longrightarrow>
    nt_step s (Wrote k v) (s\<lparr>ns_store := n, ns_parked := remove1 (k, v) (ns_parked s)\<rparr>)"
| b_enter: "barrier_enter (ns_store s) = Returns n \<Longrightarrow>
    nt_step s BarrierEntered (s\<lparr>ns_store := n\<rparr>)"
| b_return: "barrier_ready (ns_store s) \<Longrightarrow> nt_step s BarrierReturned s"
| f_take: "ns_worker s = FwWait \<Longrightarrow> flush_take (ns_store s) = Returns (Some m, n) \<Longrightarrow>
    nt_step s Tau (s\<lparr>ns_store := n, ns_worker := FwFlush m\<rparr>)"
| f_exit: "ns_worker s = FwWait \<Longrightarrow> flush_take (ns_store s) = Returns (None, n) \<Longrightarrow>
    nt_step s Tau (s\<lparr>ns_store := n, ns_worker := FwExit\<rparr>)"
| f_flush: "ns_worker s = FwFlush m \<Longrightarrow> flushMemtableToL0 m (ns_store s) (ns_fs s) = Returns (n, f) \<Longrightarrow>
    nt_step s Tau (s\<lparr>ns_store := n, ns_worker := FwFlushed, ns_fs := f\<rparr>)"
| f_throw: "ns_worker s = FwFlush m \<Longrightarrow> flushMemtableToL0 m (ns_store s) (ns_fs s) = Throws e \<Longrightarrow>
    nt_step s Tau (s\<lparr>ns_worker := FwFlushed\<rparr>)"
| f_done: "ns_worker s = FwFlushed \<Longrightarrow>
    nt_step s Tau (s\<lparr>ns_store := flush_done (ns_store s), ns_worker := FwWait\<rparr>)"
| c_begin: "close_begin (ns_store s) = (True, n) \<Longrightarrow> ns_close s = ClOpen \<Longrightarrow>
    nt_step s Tau (s\<lparr>ns_store := n, ns_close := ClJoin\<rparr>)"
| c_join: "ns_close s = ClJoin \<Longrightarrow> ns_worker s = FwExit \<Longrightarrow> close_queue (ns_store s) = Returns n \<Longrightarrow>
    nt_step s Tau (s\<lparr>ns_store := n, ns_close := ClDrain\<rparr>)"
| c_pop: "ns_close s = ClDrain \<Longrightarrow> close_pop (ns_store s) = Some (m, n) \<Longrightarrow>
    nt_step s Tau (s\<lparr>ns_store := n, ns_close := ClFlush m\<rparr>)"
| c_flush: "ns_close s = ClFlush m \<Longrightarrow> flushMemtableToL0 m (ns_store s) (ns_fs s) = Returns (n, f) \<Longrightarrow>
    nt_step s Tau (s\<lparr>ns_store := n, ns_close := ClDrain, ns_fs := f\<rparr>)"
| c_done: "ns_close s = ClDrain \<Longrightarrow> close_pop (ns_store s) = None \<Longrightarrow>
    nt_step s Tau (s\<lparr>ns_store := close_finish (ns_store s), ns_close := ClClosed\<rparr>)"
| p_refill: "sm_filePool (nt_sst (ns_store s)) = Some p \<Longrightarrow>
    replenish_turn env p (ns_fs s) = Returns (b, p', f) \<Longrightarrow>
    nt_step s Tau (s\<lparr>ns_store := (ns_store s)\<lparr>nt_sst := (nt_sst (ns_store s))\<lparr>sm_filePool := Some p'\<rparr>\<rparr>,
      ns_fs := f\<rparr>)"
| p_close: "sm_fileCloser (nt_sst (ns_store s)) = Some c \<Longrightarrow> closer_turn c = Returns c' \<Longrightarrow>
    nt_step s Tau (s\<lparr>ns_store := (ns_store s)\<lparr>nt_sst := (nt_sst (ns_store s))\<lparr>sm_fileCloser := Some c'\<rparr>\<rparr>\<rparr>)"

end
