(* ===== verification/Native_Inv.thy ===== *)
theory Native_Inv
  imports Store_Native
begin

text \<open>
  The invariant of the native store over all interleavings of \<open>Store_Native\<close>, and its
  refinement to a log of mutations: every accepted mutation is, in order and exactly once,
  in the flushed tables, the memtable in flight, the queue or the active memtable. From it
  follow what a read returns, that the write barrier makes the log durable, and that
  \<open>close\<close> leaves everything on disk.
\<close>

section \<open>The log of a state\<close>

definition flushed_entries :: "generation list \<Rightarrow> (key \<times> val) list" where
  "flushed_entries gens = concat (map snd (rev gens))"

definition worker_entries :: "flush_worker \<Rightarrow> (key \<times> val) list" where
  "worker_entries w = (case w of FwFlush m \<Rightarrow> mt_data m | _ \<Rightarrow> [])"

definition close_entries :: "close_phase \<Rightarrow> (key \<times> val) list" where
  "close_entries c = (case c of ClFlush m \<Rightarrow> mt_data m | _ \<Rightarrow> [])"

definition queue_entries :: "memtable list \<Rightarrow> (key \<times> val) list" where
  "queue_entries ms = concat (map mt_data ms)"

definition active_entries :: "native_store \<Rightarrow> (key \<times> val) list" where
  "active_entries n = (case nt_active n of None \<Rightarrow> [] | Some a \<Rightarrow> mt_data a)"

definition sealed_entries :: "generation list \<Rightarrow> native_sys \<Rightarrow> (key \<times> val) list" where
  "sealed_entries gens s = flushed_entries gens @ worker_entries (ns_worker s)
     @ close_entries (ns_close s) @ queue_entries (nt_immutable (ns_store s))"

definition sys_log :: "generation list \<Rightarrow> native_sys \<Rightarrow> (key \<times> val) list" where
  "sys_log gens s = sealed_entries gens s @ active_entries (ns_store s)"

lemma flushed_entries_simps [simp]:
  "flushed_entries [] = []" "flushed_entries (g # gens) = flushed_entries gens @ snd g"
  by (simp_all add: flushed_entries_def)

lemma queue_entries_simps [simp]:
  "queue_entries [] = []" "queue_entries (m # ms) = mt_data m @ queue_entries ms"
  "queue_entries (ms @ [m]) = queue_entries ms @ mt_data m"
  by (simp_all add: queue_entries_def)

lemma entries_map_append: "entries_map (es @ es') = entries_map es ++ entries_map es'"
  by (simp add: entries_map_def)

text \<open>The tables, searched youngest first, are the map of the flushed part of the log.\<close>

lemma gens_map_flushed: "gens_map gens = entries_map (flushed_entries gens)"
  by (induction gens) (simp_all add: entries_map_append)

lemma merge_queue: "merge_levels mt_map (rev ms) = entries_map (queue_entries ms)"
  by (induction ms) (simp_all add: merge_levels_append entries_map_append mt_map_def)

section \<open>The invariant\<close>

text \<open>The log stays within the format: string lengths below 4 GiB, images below \<open>2^63\<close> bytes.\<close>

definition log_ok :: "(key \<times> val) list \<Rightarrow> bool" where
  "log_ok h \<longleftrightarrow> (\<forall>e \<in> set h. wf_entry e) \<and> length (file_bytes h) < 2 ^ 63"

definition phases_ok :: "native_sys \<Rightarrow> bool" where
  "phases_ok s \<longleftrightarrow>
     (nt_flush_in_progress (ns_store s) \<longleftrightarrow> ns_worker s \<noteq> FwWait \<and> ns_worker s \<noteq> FwExit)
     \<and> (ns_close s \<noteq> ClOpen \<and> ns_close s \<noteq> ClJoin \<longrightarrow> ns_worker s = FwExit)
     \<and> (ns_worker s = FwExit \<longrightarrow> nt_shutting_down (ns_store s))
     \<and> (ns_close s \<noteq> ClOpen \<longrightarrow> nt_shutting_down (ns_store s))
     \<and> (ns_close s = ClOpen \<longrightarrow> \<not> nt_shutting_down (ns_store s) \<and> nt_active (ns_store s) \<noteq> None)"

definition tables_ok :: "u64 \<Rightarrow> generation list \<Rightarrow> u64 list \<Rightarrow> native_sys \<Rightarrow> bool" where
  "tables_ok pre gens ids s \<longleftrightarrow>
     (let mgr = nt_sst (ns_store s) in
      if ns_close s = ClClosed
      then disk_inv pre (sm_dbPath mgr) gens (sm_head mgr) (ns_fs s)
        \<and> sm_filePool mgr = None \<and> sm_fileCloser mgr = None
      else sst_inv pre gens ids mgr (ns_fs s))"

definition sys_inv :: "u64 \<Rightarrow> generation list \<Rightarrow> u64 list \<Rightarrow> (key \<times> val) list \<Rightarrow> native_sys \<Rightarrow> bool" where
  "sys_inv pre gens ids h s \<longleftrightarrow> tables_ok pre gens ids s \<and> phases_ok s \<and> sys_log gens s = h"

definition wrote :: "nt_event \<Rightarrow> (key \<times> val) list" where
  "wrote e = (case e of Wrote k v \<Rightarrow> [(k, v)] | _ \<Rightarrow> [])"

definition ids_left :: "native_sys \<Rightarrow> bool" where
  "ids_left s \<longleftrightarrow> (\<forall>p. sm_filePool (nt_sst (ns_store s)) = Some p \<longrightarrow> fp_next_id p < - 1)"

text \<open>
  What one step keeps: the invariant, with the log extended by the write of the step, the
  tables extended at the young end only, and the sealed part of the log never shrinking.
\<close>

definition step_ok ::
  "u64 \<Rightarrow> generation list \<Rightarrow> (key \<times> val) list \<Rightarrow> native_sys \<Rightarrow> nt_event \<Rightarrow> native_sys \<Rightarrow> bool" where
  "step_ok pre gens h s e s' \<longleftrightarrow>
     (\<exists>gens' ids'. sys_inv pre gens' ids' (h @ wrote e) s'
        \<and> length (sealed_entries gens s) \<le> length (sealed_entries gens' s')
        \<and> prefix (flushed_entries gens) (flushed_entries gens')
        \<and> (e = BarrierEntered \<longrightarrow> sealed_entries gens' s' = h)
        \<and> (e = BarrierReturned \<and> close_entries (ns_close s) = []
              \<longrightarrow> flushed_entries gens' = sealed_entries gens' s'))"

lemma log_ok_part: "log_ok (xs @ ys @ zs) \<Longrightarrow> log_ok ys"
  by (auto simp: log_ok_def)

section \<open>The steps that leave the tables alone\<close>

text \<open>A step that changes neither the SSTable manager nor the file system.\<close>

lemma step_ok_mem:
  assumes inv: "sys_inv pre gens ids h s" and "phases_ok s'"
    and "nt_sst (ns_store s') = nt_sst (ns_store s)" and "ns_fs s' = ns_fs s"
    and "ns_close s' = ClClosed \<longleftrightarrow> ns_close s = ClClosed"
    and "sys_log gens s' = h @ wrote e"
    and "length (sealed_entries gens s) \<le> length (sealed_entries gens s')"
    and "e = BarrierEntered \<Longrightarrow> sealed_entries gens s' = h"
    and "e = BarrierReturned \<Longrightarrow> close_entries (ns_close s) = [] \<Longrightarrow>
      flushed_entries gens = sealed_entries gens s'"
  shows "step_ok pre gens h s e s'"
  unfolding step_ok_def
  by (rule exI [of _ gens], rule exI [of _ ids])
    (use assms in \<open>simp add: sys_inv_def tables_ok_def Let_def\<close>)

lemma batch_mutation_result:
  assumes "batch_mutation k v n = Returns n'"
  obtains a where "nt_active n = Some a"
    and "n' = (if needs_rotation n a k v then add_active k v (rotate_memtable a n) else add_active k v n)"
    and "needs_rotation n a k v \<Longrightarrow> has_room n"
  using assms that by (auto simp: batch_mutation_def split: option.splits if_splits)

lemma batch_resume_result:
  assumes "batch_resume k v n = Returns n'"
  obtains a where "nt_active n = Some a" and "n' = add_active k v (rotate_memtable a n)" and "has_room n"
  using assms that by (auto simp: batch_resume_def split: option.splits if_splits)

lemma write_effect:
  assumes "nt_active n = Some a" and "n' = add_active k v (rotate_memtable a n) \<or> n' = add_active k v n"
  shows "nt_sst n' = nt_sst n" and "nt_shutting_down n' = nt_shutting_down n"
    and "nt_flush_in_progress n' = nt_flush_in_progress n" and "nt_active n' \<noteq> None"
    and "queue_entries (nt_immutable n') @ active_entries n' =
      queue_entries (nt_immutable n) @ active_entries n @ [(k, v)]"
    and "length (queue_entries (nt_immutable n)) \<le> length (queue_entries (nt_immutable n'))"
  using assms by (auto simp: add_active_def rotate_memtable_def active_entries_def mt_add_def mt_new_def)

lemma step_ok_write:
  assumes inv: "sys_inv pre gens ids h s" and a: "nt_active (ns_store s) = Some a"
    and n: "n = add_active k v (rotate_memtable a (ns_store s)) \<or> n = add_active k v (ns_store s)"
  shows "step_ok pre gens h s (Wrote k v) (s\<lparr>ns_store := n, ns_parked := ps\<rparr>)"
proof (rule step_ok_mem [OF inv])
  note eff = write_effect [OF a n]
  show "phases_ok (s\<lparr>ns_store := n, ns_parked := ps\<rparr>)"
    using inv eff(1-4) by (simp add: sys_inv_def phases_ok_def)
  show "sys_log gens (s\<lparr>ns_store := n, ns_parked := ps\<rparr>) = h @ wrote (Wrote k v)"
    using inv eff(5) by (simp add: sys_inv_def sys_log_def sealed_entries_def wrote_def)
  show "length (sealed_entries gens s) \<le> length (sealed_entries gens (s\<lparr>ns_store := n, ns_parked := ps\<rparr>))"
    using eff(6) by (simp add: sealed_entries_def)
qed (use write_effect [OF a n] in simp_all)

lemma mt_empty_data: "mt_empty m \<longleftrightarrow> mt_data m = []"
  by (simp add: mt_empty_def)

lemma step_ok_barrier:
  assumes inv: "sys_inv pre gens ids h s" and n: "barrier_enter (ns_store s) = Returns n"
  shows "step_ok pre gens h s BarrierEntered (s\<lparr>ns_store := n\<rparr>)"
proof (rule step_ok_mem [OF inv])
  from n obtain a where a: "nt_active (ns_store s) = Some a"
      and n': "n = (if \<not> mt_empty a then rotate_memtable a (ns_store s) else ns_store s)"
    by (auto simp: barrier_enter_def split: option.splits)
  have log: "sys_log gens s = h" using inv by (simp add: sys_inv_def)
  show "phases_ok (s\<lparr>ns_store := n\<rparr>)"
    using inv a n' by (auto simp: sys_inv_def phases_ok_def rotate_memtable_def)
  show "nt_sst (ns_store (s\<lparr>ns_store := n\<rparr>)) = nt_sst (ns_store s)"
    by (simp add: n' rotate_memtable_def)
  have *: "sealed_entries gens (s\<lparr>ns_store := n\<rparr>) = h" "active_entries n = []"
    using log a n'
    by (auto simp: sys_log_def sealed_entries_def active_entries_def rotate_memtable_def mt_new_def mt_empty_data)
  then show "sealed_entries gens (s\<lparr>ns_store := n\<rparr>) = h" by simp
  from * show "sys_log gens (s\<lparr>ns_store := n\<rparr>) = h @ wrote BarrierEntered"
    by (simp add: sys_log_def wrote_def)
  show "length (sealed_entries gens s) \<le> length (sealed_entries gens (s\<lparr>ns_store := n\<rparr>))"
    unfolding * log [symmetric] by (simp add: sys_log_def)
qed simp_all

lemma step_ok_barrier_return:
  assumes inv: "sys_inv pre gens ids h s" and ready: "barrier_ready (ns_store s)"
  shows "step_ok pre gens h s BarrierReturned s"
proof (rule step_ok_mem [OF inv])
  show "phases_ok s" using inv by (simp add: sys_inv_def)
  show "sys_log gens s = h @ wrote BarrierReturned" using inv by (simp add: sys_inv_def wrote_def)
  have "worker_entries (ns_worker s) = []"
    using inv ready by (auto simp: sys_inv_def phases_ok_def barrier_ready_def worker_entries_def)
  then show "flushed_entries gens = sealed_entries gens s" if "close_entries (ns_close s) = []"
    using that ready by (simp add: sealed_entries_def barrier_ready_def)
qed simp_all

lemma step_ok_take:
  assumes inv: "sys_inv pre gens ids h s" and w: "ns_worker s = FwWait"
    and t: "flush_take (ns_store s) = Returns (Some m, n)"
  shows "step_ok pre gens h s Tau (s\<lparr>ns_store := n, ns_worker := FwFlush m\<rparr>)"
proof (rule step_ok_mem [OF inv])
  from t obtain ms where ms: "nt_immutable (ns_store s) = m # ms"
      and n: "n = (ns_store s)\<lparr>nt_immutable := ms, nt_flush_in_progress := True\<rparr>"
    by (auto simp: flush_take_def split: if_splits list.splits)
  have cl: "ns_close s = ClOpen \<or> ns_close s = ClJoin"
    using inv w by (auto simp: sys_inv_def phases_ok_def)
  then have ce: "close_entries (ns_close s) = []" by (auto simp: close_entries_def)
  show "phases_ok (s\<lparr>ns_store := n, ns_worker := FwFlush m\<rparr>)"
    using inv cl n by (auto simp: sys_inv_def phases_ok_def)
  show "sys_log gens (s\<lparr>ns_store := n, ns_worker := FwFlush m\<rparr>) = h @ wrote Tau"
    "length (sealed_entries gens s) \<le> length (sealed_entries gens (s\<lparr>ns_store := n, ns_worker := FwFlush m\<rparr>))"
    using inv ms n w ce
    by (auto simp: sys_inv_def sys_log_def sealed_entries_def worker_entries_def active_entries_def wrote_def)
  show "nt_sst (ns_store (s\<lparr>ns_store := n, ns_worker := FwFlush m\<rparr>)) = nt_sst (ns_store s)"
    by (simp add: n)
qed simp_all

lemma step_ok_exit:
  assumes inv: "sys_inv pre gens ids h s" and w: "ns_worker s = FwWait"
    and t: "flush_take (ns_store s) = Returns (None, n)"
  shows "step_ok pre gens h s Tau (s\<lparr>ns_store := n, ns_worker := FwExit\<rparr>)"
proof (rule step_ok_mem [OF inv])
  from t have n: "n = ns_store s" "nt_shutting_down (ns_store s)"
    by (auto simp: flush_take_def split: if_splits list.splits)
  show "phases_ok (s\<lparr>ns_store := n, ns_worker := FwExit\<rparr>)"
    using inv n w by (auto simp: sys_inv_def phases_ok_def)
  show "sys_log gens (s\<lparr>ns_store := n, ns_worker := FwExit\<rparr>) = h @ wrote Tau"
    "length (sealed_entries gens s) \<le> length (sealed_entries gens (s\<lparr>ns_store := n, ns_worker := FwExit\<rparr>))"
    using inv w n(1) by (simp_all add: sys_inv_def sys_log_def sealed_entries_def worker_entries_def wrote_def)
qed (use t in \<open>auto simp: flush_take_def split: if_splits list.splits\<close>)

lemma step_ok_done:
  assumes inv: "sys_inv pre gens ids h s" and w: "ns_worker s = FwFlushed"
  shows "step_ok pre gens h s Tau (s\<lparr>ns_store := flush_done (ns_store s), ns_worker := FwWait\<rparr>)"
    (is "step_ok _ _ _ _ _ ?s'")
proof (rule step_ok_mem [OF inv])
  show "phases_ok ?s'" using inv w by (auto simp: sys_inv_def phases_ok_def flush_done_def)
  show "sys_log gens ?s' = h @ wrote Tau" "length (sealed_entries gens s) \<le> length (sealed_entries gens ?s')"
    using inv w by (simp_all add: sys_inv_def sys_log_def sealed_entries_def worker_entries_def
        active_entries_def wrote_def flush_done_def)
qed (simp_all add: flush_done_def)

section \<open>The steps of close\<close>

lemma step_ok_close_begin:
  assumes inv: "sys_inv pre gens ids h s" and "close_begin (ns_store s) = (True, n)" and "ns_close s = ClOpen"
  shows "step_ok pre gens h s Tau (s\<lparr>ns_store := n, ns_close := ClJoin\<rparr>)" (is "step_ok _ _ _ _ _ ?s'")
proof (rule step_ok_mem [OF inv])
  have n: "n = (ns_store s)\<lparr>nt_shutting_down := True\<rparr>" using assms(2) by (simp add: close_begin_def)
  show "phases_ok ?s'" using inv by (auto simp: sys_inv_def phases_ok_def n)
  show "sys_log gens ?s' = h @ wrote Tau" "length (sealed_entries gens s) \<le> length (sealed_entries gens ?s')"
    using inv assms(3) by (simp_all add: sys_inv_def sys_log_def sealed_entries_def close_entries_def
        active_entries_def wrote_def n)
  show "nt_sst (ns_store ?s') = nt_sst (ns_store s)" by (simp add: n)
qed (simp_all add: assms(3))

lemma step_ok_close_join:
  assumes inv: "sys_inv pre gens ids h s" and "ns_close s = ClJoin" and "ns_worker s = FwExit"
    and q: "close_queue (ns_store s) = Returns n"
  shows "step_ok pre gens h s Tau (s\<lparr>ns_store := n, ns_close := ClDrain\<rparr>)" (is "step_ok _ _ _ _ _ ?s'")
proof (rule step_ok_mem [OF inv])
  from q obtain a where a: "nt_active (ns_store s) = Some a" and n: "n = (if \<not> mt_empty a
      then (ns_store s)\<lparr>nt_immutable := nt_immutable (ns_store s) @ [a], nt_active := None\<rparr> else ns_store s)"
    by (auto simp: close_queue_def split: option.splits)
  show "phases_ok ?s'" using inv assms(2,3) by (auto simp: sys_inv_def phases_ok_def n)
  show "sys_log gens ?s' = h @ wrote Tau" "length (sealed_entries gens s) \<le> length (sealed_entries gens ?s')"
    using inv assms(2) a by (auto simp: sys_inv_def sys_log_def sealed_entries_def close_entries_def
        active_entries_def wrote_def n mt_empty_data)
  show "nt_sst (ns_store ?s') = nt_sst (ns_store s)" by (simp add: n)
qed (simp_all add: assms(2))

lemma step_ok_close_pop:
  assumes inv: "sys_inv pre gens ids h s" and "ns_close s = ClDrain"
    and p: "close_pop (ns_store s) = Some (m, n)"
  shows "step_ok pre gens h s Tau (s\<lparr>ns_store := n, ns_close := ClFlush m\<rparr>)" (is "step_ok _ _ _ _ _ ?s'")
proof (rule step_ok_mem [OF inv])
  from p obtain ms where ms: "nt_immutable (ns_store s) = m # ms" and n: "n = (ns_store s)\<lparr>nt_immutable := ms\<rparr>"
    by (auto simp: close_pop_def split: list.splits)
  show "phases_ok ?s'" using inv assms(2) by (auto simp: sys_inv_def phases_ok_def n)
  show "sys_log gens ?s' = h @ wrote Tau" "length (sealed_entries gens s) \<le> length (sealed_entries gens ?s')"
    using inv assms(2) by (simp_all add: sys_inv_def sys_log_def sealed_entries_def close_entries_def
        active_entries_def wrote_def n ms)
  show "nt_sst (ns_store ?s') = nt_sst (ns_store s)" by (simp add: n)
qed (simp_all add: assms(2))

lemma step_ok_close_done:
  assumes inv: "sys_inv pre gens ids h s" and "ns_close s = ClDrain"
  shows "step_ok pre gens h s Tau (s\<lparr>ns_store := close_finish (ns_store s), ns_close := ClClosed\<rparr>)"
    (is "step_ok _ _ _ _ _ ?s'")
proof -
  have "tables_ok pre gens ids ?s'"
    using inv assms(2) by (auto simp: sys_inv_def tables_ok_def close_finish_def sst_close_def sst_inv_def Let_def)
  moreover have "phases_ok ?s'" using inv assms(2) by (auto simp: sys_inv_def phases_ok_def close_finish_def)
  moreover have "sealed_entries gens ?s' = sealed_entries gens s" "active_entries (ns_store ?s') = active_entries (ns_store s)"
    using assms(2) by (simp_all add: sealed_entries_def close_entries_def close_finish_def active_entries_def)
  ultimately show ?thesis
    using inv unfolding step_ok_def
    by (intro exI [of _ gens] exI [of _ ids]) (simp add: sys_inv_def sys_log_def wrote_def)
qed

section \<open>The steps that change the tables\<close>

text \<open>\<open>FlushMemtableToL0\<close> turns a memtable into the youngest generation.\<close>

lemma flushMemtableToL0_spec:
  assumes inv: "sst_inv pre gens ids (nt_sst n) f"
    and wf: "\<forall>e \<in> set (mt_data m). wf_entry e" "length (file_bytes (mt_data m)) < 2 ^ 63"
    and fl: "flushMemtableToL0 m n f = Returns (n', f')"
  obtains gens' ids' where "sst_inv pre gens' ids' (nt_sst n') f'"
    and "flushed_entries gens' = flushed_entries gens @ mt_data m"
    and "n' = n\<lparr>nt_sst := nt_sst n'\<rparr>"
proof (cases "mt_empty m")
  case True
  with fl that [of gens ids] inv show ?thesis by (simp add: flushMemtableToL0_def mt_empty_data)
next
  case False
  with fl obtain b mgr where mgr: "flushMemtable m (nt_sst n) f = Returns (b, mgr, f')" "n' = n\<lparr>nt_sst := mgr\<rparr>"
    by (auto simp: flushMemtableToL0_def bind_outcome_Returns_iff)
  from flush_spec [OF inv False wf mgr(1)] obtain i ids' where
    "sst_inv pre ((i, mt_data m) # gens) ids' mgr f'" by blast
  with that mgr(2) show ?thesis by simp
qed

lemma flushMemtableToL0_no_throw:
  "sst_inv pre gens ids (nt_sst n) f \<Longrightarrow> flushMemtableToL0 m n f \<noteq> Throws e"
  using flush_no_error(1) [of pre gens ids "nt_sst n" f m]
  by (cases "flushMemtable m (nt_sst n) f") (auto simp: flushMemtableToL0_def)

lemma step_ok_flush:
  assumes inv: "sys_inv pre gens ids h s" and ok: "log_ok h" and w: "ns_worker s = FwFlush m"
    and fl: "flushMemtableToL0 m (ns_store s) (ns_fs s) = Returns (n, f)"
  shows "step_ok pre gens h s Tau (s\<lparr>ns_store := n, ns_worker := FwFlushed, ns_fs := f\<rparr>)"
    (is "step_ok _ _ _ _ _ ?s'")
proof -
  have cl: "ns_close s = ClOpen \<or> ns_close s = ClJoin"
    using inv w by (auto simp: sys_inv_def phases_ok_def)
  then have ce: "close_entries (ns_close s) = []" by (auto simp: close_entries_def)
  have log: "h = flushed_entries gens @ mt_data m @ queue_entries (nt_immutable (ns_store s)) @ active_entries (ns_store s)"
    using inv w ce by (simp add: sys_inv_def sys_log_def sealed_entries_def worker_entries_def)
  with ok have wf: "\<forall>e \<in> set (mt_data m). wf_entry e" "length (file_bytes (mt_data m)) < 2 ^ 63"
    by (auto simp: log_ok_def)
  have "sst_inv pre gens ids (nt_sst (ns_store s)) (ns_fs s)"
    using inv cl by (auto simp: sys_inv_def tables_ok_def)
  from flushMemtableToL0_spec [OF this wf fl] obtain gens' ids' where
    g: "sst_inv pre gens' ids' (nt_sst n) f" "flushed_entries gens' = flushed_entries gens @ mt_data m"
    and n: "n = (ns_store s)\<lparr>nt_sst := nt_sst n\<rparr>" .
  have f: "nt_active n = nt_active (ns_store s)" "nt_immutable n = nt_immutable (ns_store s)"
      "nt_shutting_down n = nt_shutting_down (ns_store s)" "nt_flush_in_progress n = nt_flush_in_progress (ns_store s)"
    by (subst n, simp)+
  have "tables_ok pre gens' ids' ?s'" using g(1) cl by (auto simp: tables_ok_def)
  moreover have "phases_ok ?s'" using inv w f by (auto simp: sys_inv_def phases_ok_def)
  moreover have "sealed_entries gens' ?s' = sealed_entries gens s"
    using g(2) w ce f by (simp add: sealed_entries_def worker_entries_def)
  moreover have "active_entries n = active_entries (ns_store s)" using f by (simp add: active_entries_def)
  ultimately show ?thesis
    using inv g(2) unfolding step_ok_def
    by (intro exI [of _ gens'] exI [of _ ids']) (simp add: sys_inv_def sys_log_def wrote_def)
qed

lemma step_ok_close_flush:
  assumes inv: "sys_inv pre gens ids h s" and ok: "log_ok h" and c: "ns_close s = ClFlush m"
    and fl: "flushMemtableToL0 m (ns_store s) (ns_fs s) = Returns (n, f)"
  shows "step_ok pre gens h s Tau (s\<lparr>ns_store := n, ns_close := ClDrain, ns_fs := f\<rparr>)"
    (is "step_ok _ _ _ _ _ ?s'")
proof -
  have w: "ns_worker s = FwExit" using inv c by (auto simp: sys_inv_def phases_ok_def)
  have log: "h = flushed_entries gens @ mt_data m @ queue_entries (nt_immutable (ns_store s)) @ active_entries (ns_store s)"
    using inv w c by (simp add: sys_inv_def sys_log_def sealed_entries_def worker_entries_def close_entries_def)
  with ok have wf: "\<forall>e \<in> set (mt_data m). wf_entry e" "length (file_bytes (mt_data m)) < 2 ^ 63"
    by (auto simp: log_ok_def)
  have "sst_inv pre gens ids (nt_sst (ns_store s)) (ns_fs s)"
    using inv c by (auto simp: sys_inv_def tables_ok_def)
  from flushMemtableToL0_spec [OF this wf fl] obtain gens' ids' where
    g: "sst_inv pre gens' ids' (nt_sst n) f" "flushed_entries gens' = flushed_entries gens @ mt_data m"
    and n: "n = (ns_store s)\<lparr>nt_sst := nt_sst n\<rparr>" .
  have f: "nt_active n = nt_active (ns_store s)" "nt_immutable n = nt_immutable (ns_store s)"
      "nt_shutting_down n = nt_shutting_down (ns_store s)" "nt_flush_in_progress n = nt_flush_in_progress (ns_store s)"
    by (subst n, simp)+
  have "tables_ok pre gens' ids' ?s'" using g(1) by (simp add: tables_ok_def)
  moreover have "phases_ok ?s'" using inv c w f by (auto simp: sys_inv_def phases_ok_def)
  moreover have "sealed_entries gens' ?s' = sealed_entries gens s"
    using g(2) w c f by (simp add: sealed_entries_def worker_entries_def close_entries_def)
  moreover have "active_entries n = active_entries (ns_store s)" using f by (simp add: active_entries_def)
  ultimately show ?thesis
    using inv g(2) unfolding step_ok_def
    by (intro exI [of _ gens'] exI [of _ ids']) (simp add: sys_inv_def sys_log_def wrote_def)
qed

lemma step_ok_refill:
  assumes inv: "sys_inv pre gens ids h s" and left: "ids_left s"
    and p: "sm_filePool (nt_sst (ns_store s)) = Some p"
    and turn: "replenish_turn env p (ns_fs s) = Returns (b, p', f)"
  shows "step_ok pre gens h s Tau
    (s\<lparr>ns_store := (ns_store s)\<lparr>nt_sst := (nt_sst (ns_store s))\<lparr>sm_filePool := Some p'\<rparr>\<rparr>, ns_fs := f\<rparr>)"
    (is "step_ok _ _ _ _ _ ?s'")
proof -
  have cl: "ns_close s \<noteq> ClClosed" and "sst_inv pre gens ids (nt_sst (ns_store s)) (ns_fs s)"
    using inv p by (auto simp: sys_inv_def tables_ok_def Let_def split: if_splits)
  from refill_inv [OF this(2) p turn] left p obtain ids' where
    "sst_inv pre gens ids' ((nt_sst (ns_store s))\<lparr>sm_filePool := Some p'\<rparr>) f"
    by (auto simp: ids_left_def)
  then have "tables_ok pre gens ids' ?s'" using cl by (simp add: tables_ok_def)
  moreover have "phases_ok ?s'" using inv by (simp add: sys_inv_def phases_ok_def)
  moreover have "sealed_entries gens ?s' = sealed_entries gens s" "sys_log gens ?s' = sys_log gens s"
    by (simp_all add: sealed_entries_def sys_log_def active_entries_def)
  ultimately show ?thesis
    using inv unfolding step_ok_def
    by (intro exI [of _ gens] exI [of _ ids']) (simp add: sys_inv_def wrote_def)
qed

lemma step_ok_closer:
  assumes inv: "sys_inv pre gens ids h s" and c: "sm_fileCloser (nt_sst (ns_store s)) = Some c"
  shows "step_ok pre gens h s Tau
    (s\<lparr>ns_store := (ns_store s)\<lparr>nt_sst := (nt_sst (ns_store s))\<lparr>sm_fileCloser := Some c'\<rparr>\<rparr>\<rparr>)"
    (is "step_ok _ _ _ _ _ ?s'")
proof -
  have "tables_ok pre gens ids ?s'"
    using inv c by (auto simp: sys_inv_def tables_ok_def Let_def sst_inv_def split: if_splits)
  moreover have "phases_ok ?s'" using inv by (simp add: sys_inv_def phases_ok_def)
  moreover have "sealed_entries gens ?s' = sealed_entries gens s" "sys_log gens ?s' = sys_log gens s"
    by (simp_all add: sealed_entries_def sys_log_def active_entries_def)
  ultimately show ?thesis
    using inv unfolding step_ok_def
    by (intro exI [of _ gens] exI [of _ ids]) (simp add: sys_inv_def wrote_def)
qed

section \<open>Every step\<close>

lemma step_ok_throw:
  assumes inv: "sys_inv pre gens ids h s" and w: "ns_worker s = FwFlush m"
  shows "flushMemtableToL0 m (ns_store s) (ns_fs s) \<noteq> Throws e"
proof -
  have "ns_close s = ClOpen \<or> ns_close s = ClJoin"
    using inv w by (auto simp: sys_inv_def phases_ok_def)
  then have "sst_inv pre gens ids (nt_sst (ns_store s)) (ns_fs s)"
    using inv by (auto simp: sys_inv_def tables_ok_def)
  then show ?thesis by (rule flushMemtableToL0_no_throw)
qed

lemma step_ok_park:
  "sys_inv pre gens ids h s \<Longrightarrow> step_ok pre gens h s Tau (s\<lparr>ns_parked := ps\<rparr>)"
  by (rule step_ok_mem, assumption)
    (simp_all add: sys_inv_def phases_ok_def sys_log_def sealed_entries_def wrote_def)

lemma nt_step_ok:
  assumes "nt_step s e s'" and "sys_inv pre gens ids h s" and "log_ok h" and "ids_left s"
  shows "step_ok pre gens h s e s'"
  using assms
proof (induction rule: nt_step.induct)
  case (w_done k t v s n)
  from w_done.hyps obtain a where "nt_active (ns_store s) = Some a"
    "n = add_active k (actual_value t v) (rotate_memtable a (ns_store s)) \<or> n = add_active k (actual_value t v) (ns_store s)"
    by (auto elim!: batch_mutation_result)
  from step_ok_write [OF w_done.prems(1) this, of "ns_parked s"] show ?case by simp
next
  case (w_resume k v s n)
  from w_resume.hyps(2) obtain a where "nt_active (ns_store s) = Some a"
    "n = add_active k v (rotate_memtable a (ns_store s)) \<or> n = add_active k v (ns_store s)"
    by (auto elim!: batch_resume_result)
  from step_ok_write [OF w_resume.prems(1) this] show ?case .
next
  case (f_throw s m e)
  then show ?case using step_ok_throw by blast
qed (blast intro: step_ok_park step_ok_barrier step_ok_barrier_return step_ok_take step_ok_exit
    step_ok_flush step_ok_done step_ok_close_begin step_ok_close_join step_ok_close_pop
    step_ok_close_flush step_ok_close_done step_ok_refill step_ok_closer)+

section \<open>Runs\<close>

text \<open>
  A run and the events it emits. File ids are 64-bit counters; a run stops before the last
  one is used.
\<close>

inductive nt_run :: "native_sys \<Rightarrow> nt_event list \<Rightarrow> native_sys \<Rightarrow> bool" for s0 where
  run_refl: "nt_run s0 [] s0"
| run_step: "nt_run s0 es s \<Longrightarrow> nt_step s e s' \<Longrightarrow> ids_left s \<Longrightarrow> nt_run s0 (es @ [e]) s'"

definition writes :: "nt_event list \<Rightarrow> (key \<times> val) list" where
  "writes es = concat (map wrote es)"

lemma writes_simps [simp]: "writes [] = []" "writes (es @ es') = writes es @ writes es'" "writes [e] = wrote e"
  by (simp_all add: writes_def)

lemma log_ok_prefix: "log_ok (xs @ ys) \<Longrightarrow> log_ok xs"
  by (simp add: log_ok_def)

lemma nt_run_inv:
  "nt_run s0 es s \<Longrightarrow> sys_inv pre gens ids h s0 \<Longrightarrow> log_ok (h @ writes es) \<Longrightarrow>
    \<exists>gens' ids'. sys_inv pre gens' ids' (h @ writes es) s
      \<and> length (sealed_entries gens s0) \<le> length (sealed_entries gens' s)
      \<and> prefix (flushed_entries gens) (flushed_entries gens')"
proof (induction rule: nt_run.induct)
  case run_refl
  then show ?case by auto
next
  case (run_step es s e s')
  then have ok: "log_ok (h @ writes es)" by (auto intro: log_ok_prefix [of "h @ writes es"])
  with run_step obtain gens' ids' where IH: "sys_inv pre gens' ids' (h @ writes es) s"
      "length (sealed_entries gens s0) \<le> length (sealed_entries gens' s)"
      "prefix (flushed_entries gens) (flushed_entries gens')"
    by blast
  from nt_step_ok [OF run_step.hyps(2) IH(1) ok run_step.hyps(3)] obtain gens'' ids'' where
    "sys_inv pre gens'' ids'' ((h @ writes es) @ wrote e) s'"
    "length (sealed_entries gens' s) \<le> length (sealed_entries gens'' s')"
    "prefix (flushed_entries gens') (flushed_entries gens'')"
    by (auto simp: step_ok_def)
  with IH(2,3) show ?case
    by (intro exI [of _ gens''] exI [of _ ids'']) (auto intro: prefix_order.trans)
qed

lemma nt_run_trans: "nt_run s es t \<Longrightarrow> nt_run t es' u \<Longrightarrow> nt_run s (es @ es') u"
proof (rotate_tac, induction rule: nt_run.induct)
  case (run_step es' u e u')
  then show ?case using nt_run.run_step [of s "es @ es'" u e u'] by simp
qed simp

section \<open>Durability of the write barrier\<close>

text \<open>
  Everything accepted before \<open>writeBarrier\<close> was entered is in the tables when it returns.
\<close>

lemma barrier_log:
  assumes inv: "sys_inv pre gens ids h s" and enter: "nt_step s BarrierEntered s1" and "ids_left s"
    and run: "nt_run s1 es s2" and ready: "barrier_ready (ns_store s2)"
    and ok: "log_ok (h @ writes es)" and close: "close_entries (ns_close s2) = []"
  shows "\<exists>gens' ids'. sys_inv pre gens' ids' (h @ writes es) s2 \<and> prefix h (flushed_entries gens')"
proof -
  from nt_step_ok [OF enter inv log_ok_prefix [OF ok] assms(3)] obtain gens1 ids1 where
    1: "sys_inv pre gens1 ids1 h s1" "sealed_entries gens1 s1 = h"
    by (auto simp: step_ok_def wrote_def)
  from nt_run_inv [OF run 1(1) ok] obtain gens2 ids2 where
    2: "sys_inv pre gens2 ids2 (h @ writes es) s2" "length h \<le> length (sealed_entries gens2 s2)"
    by (auto simp: 1(2))
  have "worker_entries (ns_worker s2) = []"
    using 2(1) ready by (auto simp: sys_inv_def phases_ok_def barrier_ready_def worker_entries_def)
  then have fl: "sealed_entries gens2 s2 = flushed_entries gens2"
    using ready close by (simp add: sealed_entries_def barrier_ready_def)
  have "prefix (flushed_entries gens2) (h @ writes es)"
    using 2(1) fl by (simp add: sys_inv_def sys_log_def) (metis prefixI)
  then have "prefix h (flushed_entries gens2)"
    using 2(2) fl by (metis prefixI prefix_length_prefix)
  with 2(1) show ?thesis by blast
qed

section \<open>Reads\<close>

text \<open>
  While the flush thread and \<open>close\<close> hold no memtable, a lookup returns the live value of the
  log. A memtable in flight is in neither place a lookup searches.
\<close>

definition no_flight :: "native_sys \<Rightarrow> bool" where
  "no_flight s \<longleftrightarrow> worker_entries (ns_worker s) = [] \<and> close_entries (ns_close s) = []"

lemma tables_ok_disk:
  "tables_ok pre gens ids s \<Longrightarrow>
    disk_inv pre (sm_dbPath (nt_sst (ns_store s))) gens (sm_head (nt_sst (ns_store s))) (ns_fs s)"
  by (auto simp: tables_ok_def sst_inv_def Let_def split: if_splits)

lemma get_result_live: "get_result (m k) = live m k"
  by (auto simp: get_result_def live_def split: option.splits)

text \<open>What a lookup sees: the tables, the queue and the active memtable.\<close>

definition visible_map :: "generation list \<Rightarrow> native_store \<Rightarrow> key \<rightharpoonup> val" where
  "visible_map gens n = entries_map (flushed_entries gens @ queue_entries (nt_immutable n) @ active_entries n)"

lemma nt_get_visible:
  assumes "tables_ok pre gens ids s" and "nt_active (ns_store s) \<noteq> None"
  shows "nt_get (ns_store s) (ns_fs s) k = Returns (live (visible_map gens (ns_store s)) k)"
proof -
  obtain a where a: "nt_active (ns_store s) = Some a" using assms(2) by auto
  let ?q = "nt_immutable (ns_store s)"
  have sst: "sst_get (ns_fs s) (nt_sst (ns_store s)) k = entries_map (flushed_entries gens) k"
    using sst_get_gens [OF tables_ok_disk [OF assms(1)]] by (simp add: gens_map_flushed)
  have q: "search_levels mt_get (rev ?q) k = entries_map (queue_entries ?q) k"
    by (simp add: memtable_level.search_content merge_queue)
  have "(case (case mt_get a k of Some v \<Rightarrow> Some v | None \<Rightarrow> search_levels mt_get (rev ?q) k) of
      Some v \<Rightarrow> Some v | None \<Rightarrow> sst_get (ns_fs s) (nt_sst (ns_store s)) k) =
    visible_map gens (ns_store s) k"
    by (simp add: visible_map_def active_entries_def a sst q mt_get_map mt_map_def entries_map_append
        map_add_def split: option.split)
  then show ?thesis
    by (simp add: nt_get_def nt_get_mem_def a get_result_live [symmetric])
qed

lemma visible_no_flight:
  "sys_inv pre gens ids h s \<Longrightarrow> no_flight s \<Longrightarrow> visible_map gens (ns_store s) = entries_map h"
  by (auto simp: sys_inv_def visible_map_def sys_log_def sealed_entries_def no_flight_def)

text \<open>
  What a prefix scan sees: with a non-empty queue, the \<^emph>\<open>oldest\<close> queued memtable wins over
  the younger ones and over the active memtable.
\<close>

definition scanned_map :: "generation list \<Rightarrow> native_store \<Rightarrow> key \<rightharpoonup> val" where
  "scanned_map gens n =
     gens_map gens ++ entries_map (active_entries n) ++ merge_levels mt_map (nt_immutable n)"

lemma mt_scan_foldl:
  "scan_ok st \<Longrightarrow> scan_ok (foldl (\<lambda>st m. mt_scan p m st) st (rev ms))
    \<and> scan_view (foldl (\<lambda>st m. mt_scan p m st) st (rev ms)) =
        scan_view st ++ (merge_levels mt_map ms |` with_prefix p)"
proof (induction ms arbitrary: st)
  case (Cons m ms)
  let ?st = "foldl (\<lambda>st m. mt_scan p m st) st (rev ms)"
  have "scan_ok ?st" "scan_view ?st = scan_view st ++ (merge_levels mt_map ms |` with_prefix p)"
    using Cons by auto
  then show ?case
    by (simp add: scan_view_mt_scan) (auto simp: map_add_def restrict_map_def fun_eq_iff split: option.split)
qed simp

lemma nt_getPrefix_spec:
  assumes "tables_ok pre gens ids s" and "nt_active (ns_store s) = Some a"
  shows "\<exists>xs. nt_getPrefix (ns_store s) (ns_fs s) p = Returns (xs \<noteq> [], xs) \<and> omap_ok xs
    \<and> map_of xs = live (scanned_map gens (ns_store s)) |` with_prefix p"
proof -
  let ?n = "ns_store s"
  let ?st = "nt_scan_mem p a (nt_immutable ?n)"
  obtain results deleted b where res: "sst_scan (ns_fs s) (nt_sst ?n) p ?st = ((results, deleted), b)"
    by (metis prod.collapse)
  have mem: "scan_ok ?st" "scan_view ?st =
      (entries_map (active_entries ?n) |` with_prefix p) ++ (merge_levels mt_map (nt_immutable ?n) |` with_prefix p)"
    using mt_scan_foldl [of "mt_scan p a ([], {})" p "nt_immutable ?n"] assms(2)
    by (simp_all add: nt_scan_mem_def scan_view_mt_scan mt_map_def active_entries_def)
  note sc = sst_scan_gens [OF tables_ok_disk [OF assms(1)] mem(1), of p]
  have ok: "scan_ok (results, deleted)" and view: "scan_view (results, deleted) =
      scanned_map gens ?n |` with_prefix p"
    using sc mem(2)
    by (auto simp: res scanned_map_def map_add_def restrict_map_def fun_eq_iff split: option.split)
  from ok have "filter (\<lambda>e. fst e \<notin> deleted) results = results" by (simp add: filter_id_conv scan_ok_def)
  moreover have "map_of results = live (scanned_map gens ?n) |` with_prefix p"
    using scan_view_live [OF ok] view by (auto simp: live_def restrict_map_def fun_eq_iff)
  moreover have "omap_ok results" using ok by (simp add: scan_ok_def)
  ultimately show ?thesis by (simp add: nt_getPrefix_def assms(2) res)
qed

lemma scanned_empty_queue:
  "nt_immutable n = [] \<Longrightarrow> scanned_map gens n = visible_map gens n"
  by (simp add: scanned_map_def visible_map_def gens_map_flushed entries_map_append)

section \<open>Bounds\<close>

text \<open>Writers keep the queue within its bound; only a barrier pushes without looking at it.\<close>

lemma batch_mutation_queue:
  "batch_mutation k v n = Returns n' \<Longrightarrow>
    length (nt_immutable n') \<le> max (length (nt_immutable n)) (unat (nt_max_immutable_memtables n))"
  by (auto elim!: batch_mutation_result simp: add_active_def rotate_memtable_def has_room_def)

lemma batch_resume_queue:
  "batch_resume k v n = Returns n' \<Longrightarrow>
    length (nt_immutable n') \<le> unat (nt_max_immutable_memtables n)"
  by (auto elim!: batch_resume_result simp: add_active_def rotate_memtable_def has_room_def)

text \<open>
  The active memtable stays within the configured size, unless it holds a single entry that
  is larger, or entries of size zero only besides.
\<close>

lemma batch_mutation_size:
  assumes "batch_mutation k v n = Returns n'"
    and "\<forall>a. nt_active n = Some a \<longrightarrow> mt_sizeBytes a \<le> nt_memtable_max_size_bytes n"
    and "word_of_nat (length k) + word_of_nat (length v) \<le> nt_memtable_max_size_bytes n"
  shows "\<forall>a. nt_active n' = Some a \<longrightarrow> mt_sizeBytes a \<le> nt_memtable_max_size_bytes n"
  using assms
  by (auto elim!: batch_mutation_result simp: needs_rotation_def add_active_def rotate_memtable_def
      mt_add_def mt_new_def mt_sizeBytes_def not_less word_neq_0_conv split: if_splits)

section \<open>After close\<close>

lemma closed_log:
  assumes "sys_inv pre gens ids h s" and "ns_close s = ClClosed" and "nt_immutable (ns_store s) = []"
    and "active_entries (ns_store s) = []"
  shows "flushed_entries gens = h"
    and "disk_inv pre (sm_dbPath (nt_sst (ns_store s))) gens (sm_head (nt_sst (ns_store s))) (ns_fs s)"
  using assms tables_ok_disk [of pre gens ids s]
  by (auto simp: sys_inv_def phases_ok_def sys_log_def sealed_entries_def worker_entries_def close_entries_def)

section \<open>The state after construction\<close>

lemma tables_open: "ns_close s \<noteq> ClClosed \<Longrightarrow>
    tables_ok pre gens ids s = sst_inv pre gens ids (nt_sst (ns_store s)) (ns_fs s)"
  by (simp add: tables_ok_def)

definition sys_start :: "native_store \<Rightarrow> fs \<Rightarrow> native_sys" where
  "sys_start n f = \<lparr>ns_store = n, ns_worker = FwWait, ns_parked = [], ns_close = ClOpen, ns_fs = f\<rparr>"

lemma autoTune_state [simp]: "snd (autoTune mg n) = n"
  by (simp add: autoTune_def)

lemma native_new_fields:
  assumes "native_new cfg db ow mg f = (n, f')"
  shows "f' = create_directories db (if ow then remove_all db f else f)"
    and "nt_sst n = sst_new db (word_of_int (cfg_filePoolSize cfg))
           (if cfg_preAllocate cfg then memtable_max_size cfg else 0) f'"
    and "nt_active n = Some mt_new" and "nt_immutable n = []"
    and "\<not> nt_shutting_down n" and "\<not> nt_flush_in_progress n"
    and "nt_memtable_max_size_bytes n = memtable_max_size cfg"
    and "nt_max_immutable_memtables n = max_immutable cfg"
    and "nt_dbPath n = db"
  using assms by (cases "cfg_autoTuneParameters cfg"; auto simp: native_new_def Let_def)+

lemma sys_inv_start:
  assumes "sst_inv pre gens ids (nt_sst n) f" and "nt_active n = Some mt_new" and "nt_immutable n = []"
    and "\<not> nt_shutting_down n" and "\<not> nt_flush_in_progress n"
  shows "sys_inv pre gens ids (flushed_entries gens) (sys_start n f)"
  using assms by (simp add: sys_inv_def tables_ok_def phases_ok_def sys_log_def sealed_entries_def
      worker_entries_def close_entries_def active_entries_def sys_start_def mt_new_def)

text \<open>An overwritten database starts with no tables; a reopened one with the recovered tables.\<close>

lemma fresh_small:
  assumes "fs_small f"
  shows "fs_small (create_directories db (remove_all db f))"
proof -
  let ?f = "create_directories db (remove_all db f)"
  have files: "fs_files ?f = filter (\<lambda>e. fst e \<noteq> db \<and> \<not> prefix (path_dir db) (fst e)) (fs_files f)"
    by (simp add: create_directories_def remove_all_def)
  then have "fs_read ?f q = Some c \<Longrightarrow> fs_read f q = Some c" for q c
    by (simp add: fs_read_def map_of_filter_key [of "\<lambda>q. q \<noteq> db \<and> \<not> prefix (path_dir db) q"] split: if_splits)
  with assms show ?thesis by (auto simp: fs_small_def)
qed

lemma disk_inv_empty:
  assumes "fs_ok f" and "fs_small f"
  shows "disk_inv pre db [] [] (create_directories db (remove_all db f))"
proof -
  let ?g = "create_directories db (remove_all db f)"
  have files: "fs_files ?g = filter (\<lambda>e. fst e \<noteq> db \<and> \<not> prefix (path_dir db) (fst e)) (fs_files f)"
    by (simp add: create_directories_def remove_all_def)
  have "fs_read ?g q = None" if "in_dir db q" for q
  proof -
    have "prefix (path_dir db) q" using that by (auto simp: in_dir_def take_prefix_iff [symmetric])
    then show ?thesis by (auto simp: fs_read_def files map_of_eq_None_iff)
  qed
  moreover have "fs_ok ?g" using assms(1) by (simp add: fs_ok_def files distinct_map_filter)
  ultimately show ?thesis using fresh_small [OF assms(2), of db]
    by (auto simp: disk_inv_def create_directories_def)
qed

lemma found_files_empty:
  assumes "disk_inv pre db [] [] f" and "\<And>q. in_dir db q \<Longrightarrow> fs_read f q = None"
  shows "found_files db f = []"
proof (rule ccontr)
  assume "found_files db f \<noteq> []"
  then obtain e where "e \<in> set (found_files db f)" by (cases "found_files db f") auto
  from found_files_disk [OF assms(1) this] assms(2) l0_file_in_dir show False by fastforce
qed

lemma create_directories_present: "db \<in> set (fs_dirs f) \<Longrightarrow> create_directories db f = f"
  by (simp add: create_directories_def)

text \<open>The preallocated size is a stream offset, and \<open>pre\<close> tells whether there is preallocation.\<close>

definition prealloc_ok :: "u64 \<Rightarrow> lsmio_config \<Rightarrow> bool" where
  "prealloc_ok pre cfg \<longleftrightarrow> (cfg_preAllocate cfg \<longrightarrow> pre \<noteq> 0 \<and> unat (memtable_max_size cfg) < 2 ^ 63)"

text \<open>
  Opening a store over a directory that satisfies the disk invariant: the start state
  satisfies the invariant of the system, with the recovered generations.
\<close>

lemma native_reopen_inv:
  assumes disk: "disk_inv pre db gens head f" and room: "max_file_id (found_files db f) < - 1"
    and pre: "prealloc_ok pre cfg"
    and new: "native_new cfg db False mg f = (n, f')"
  shows "f' = f" and "sys_inv pre (recovered_gens db f gens) []
      (flushed_entries (recovered_gens db f gens)) (sys_start n f)"
proof -
  note fields = native_new_fields [OF new]
  have "db \<in> set (fs_dirs f)" using disk by (simp add: disk_inv_def)
  with fields(1) show f': "f' = f" by (simp add: create_directories_present)
  have "sst_inv pre (recovered_gens db f gens) [] (nt_sst n) f"
    unfolding fields(2) f' by (rule sst_new_inv [OF disk room]) (use pre in \<open>simp_all add: prealloc_ok_def\<close>)
  then show "sys_inv pre (recovered_gens db f gens) []
      (flushed_entries (recovered_gens db f gens)) (sys_start n f)"
    by (rule sys_inv_start) (rule fields)+
qed

end
