(* ===== verification/Native_Ops.thy ===== *)
theory Native_Ops
  imports Native_Inv
begin

text \<open>
  The operations of the native store as a single client sees them: a call that has to wait
  (on a full queue, or in the write barrier) lets the flush thread run, and the file pool
  creates a file when the flush thread needs one. Every such call is a run of the step
  relation, so it inherits the invariant of \<open>Native_Inv\<close>; in addition it returns. The theory
  ends with the interpretation of the store contract on these operations.
\<close>

section \<open>Turns of the background threads\<close>

definition pool_refill :: "io_env \<Rightarrow> native_store \<Rightarrow> fs \<Rightarrow> native_store \<times> fs" where
  "pool_refill env n f = (case sm_filePool (nt_sst n) of None \<Rightarrow> (n, f) | Some p \<Rightarrow>
     if fp_pool p \<noteq> [] then (n, f)
     else case replenish_turn env p f of
       Returns (_, p', f') \<Rightarrow> (n\<lparr>nt_sst := (nt_sst n)\<lparr>sm_filePool := Some p'\<rparr>\<rparr>, f')
     | _ \<Rightarrow> (n, f))"

text \<open>One turn of \<open>FlushWorkLoop\<close>, with its exception handler.\<close>

definition flush_turn :: "io_env \<Rightarrow> native_store \<Rightarrow> fs \<Rightarrow> (native_store \<times> fs) outcome" where
  "flush_turn env n f = bind_outcome (flush_take n) (\<lambda>(r, n1). case r of
       None \<Rightarrow> Returns (n1, f)
     | Some m \<Rightarrow> (case pool_refill env n1 f of (n2, f2) \<Rightarrow>
         (case flushMemtableToL0 m n2 f2 of
            Returns (n3, f3) \<Rightarrow> Returns (flush_done n3, f3)
          | Throws e \<Rightarrow> Returns (flush_done n2, f2)
          | Blocks \<Rightarrow> Blocks
          | Undefined \<Rightarrow> Undefined
          | Exits c \<Rightarrow> Exits c)))"

fun settle :: "io_env \<Rightarrow> nat \<Rightarrow> native_store \<Rightarrow> fs \<Rightarrow> (native_store \<times> fs) outcome" where
  "settle env 0 n f = Returns (n, f)"
| "settle env (Suc c) n f = bind_outcome (flush_turn env n f) (\<lambda>(n', f'). settle env c n' f')"

section \<open>The operations\<close>

type_synonym native_state = "native_store \<times> fs"

fun seq_mutation ::
  "io_env \<Rightarrow> mutation_type \<Rightarrow> key \<Rightarrow> val \<Rightarrow> bool \<Rightarrow> native_state \<Rightarrow> (bool \<times> native_state) outcome" where
  "seq_mutation env t k v flush (n, f) =
     (case batch_mutation k (actual_value t v) n of
        Returns n' \<Rightarrow> Returns (True, n', f)
      | Blocks \<Rightarrow> bind_outcome (flush_turn env n f) (\<lambda>(n1, f1).
          bind_outcome (batch_resume k (actual_value t v) n1) (\<lambda>n2. Returns (True, n2, f1)))
      | Throws e \<Rightarrow> Throws e
      | Undefined \<Rightarrow> Undefined
      | Exits c \<Rightarrow> Exits c)"

fun seq_writeBarrier :: "io_env \<Rightarrow> native_state \<Rightarrow> (bool \<times> native_state) outcome" where
  "seq_writeBarrier env (n, f) = bind_outcome (barrier_enter n) (\<lambda>n1.
     bind_outcome (settle env (length (nt_immutable n1)) n1 f) (\<lambda>(n2, f2).
       if barrier_ready n2 then Returns (True, n2, f2) else Blocks))"

text \<open>\<open>stopBatch\<close> is a barrier; there is no batch to close.\<close>

definition nt_stopBatch :: "io_env \<Rightarrow> native_state \<Rightarrow> (bool \<times> native_state) outcome" where
  "nt_stopBatch env s = seq_writeBarrier env s"

text \<open>
  \<open>close\<close>: a second call returns at once; the flush thread drains the queue before it ends,
  then \<open>close\<close> drains what it queued itself.
\<close>

fun close_drain :: "io_env \<Rightarrow> nat \<Rightarrow> native_store \<Rightarrow> fs \<Rightarrow> (native_store \<times> fs) outcome" where
  "close_drain env 0 n f = Returns (n, f)"
| "close_drain env (Suc c) n f = (case close_pop n of
       None \<Rightarrow> Returns (n, f)
     | Some (m, n1) \<Rightarrow> (case pool_refill env n1 f of (n2, f2) \<Rightarrow>
         bind_outcome (flushMemtableToL0 m n2 f2) (\<lambda>(n3, f3). close_drain env c n3 f3)))"

fun seq_close :: "io_env \<Rightarrow> native_state \<Rightarrow> native_state outcome" where
  "seq_close env (n, f) = (case close_begin n of
       (False, n1) \<Rightarrow> Returns (n1, f)
     | (True, n1) \<Rightarrow> bind_outcome (settle env (length (nt_immutable n1)) n1 f) (\<lambda>(n2, f2).
         bind_outcome (close_queue n2) (\<lambda>n3.
           bind_outcome (close_drain env (length (nt_immutable n3)) n3 f2) (\<lambda>(n4, f4).
             Returns (close_finish n4, f4)))))"

fun seq_get :: "key \<Rightarrow> native_state \<Rightarrow> val option outcome" where
  "seq_get k (n, f) = nt_get n f k"

fun seq_getPrefix :: "key \<Rightarrow> native_state \<Rightarrow> (bool \<times> (key \<times> val) list) outcome" where
  "seq_getPrefix p (n, f) = nt_getPrefix n f p"

definition native_ops :: "io_env \<Rightarrow> native_state store_ops" where
  "native_ops env = \<lparr>op_batchMutation = seq_mutation env, op_get = seq_get,
     op_getPrefix = seq_getPrefix,
     op_readBarrier = (\<lambda>(n, f). Returns (fst (nt_readBarrier n), snd (nt_readBarrier n), f)),
     op_writeBarrier = seq_writeBarrier env, op_close = seq_close env\<rparr>"

section \<open>The turns are runs\<close>

definition next_id :: "native_store \<Rightarrow> nat" where
  "next_id n = (case sm_filePool (nt_sst n) of None \<Rightarrow> 0 | Some p \<Rightarrow> unat (fp_next_id p))"

lemma u64_below_max: "(w :: u64) < - 1 \<longleftrightarrow> unat w < 2 ^ 64 - 1"
proof -
  have "unat (- 1 :: u64) = 2 ^ 64 - 1" by (simp add: unsigned_minus_1_eq_mask mask_eq_exp_minus_1)
  then show ?thesis by (simp only: word_less_nat_alt)
qed

lemma ids_left_next_id: "ids_left s \<longleftrightarrow> (sm_filePool (nt_sst (ns_store s)) \<noteq> None \<longrightarrow> next_id (ns_store s) < 2 ^ 64 - 1)"
  by (auto simp: ids_left_def next_id_def u64_below_max)

lemma run1: "nt_step s e s' \<Longrightarrow> ids_left s \<Longrightarrow> nt_run s [e] s'"
  using nt_run.run_step [OF nt_run.run_refl] by simp

lemma run_Cons: "nt_step s e s' \<Longrightarrow> ids_left s \<Longrightarrow> nt_run s' es u \<Longrightarrow> nt_run s (e # es) u"
  using nt_run_trans [OF run1] by simp

text \<open>The pool delivers a file, or already holds one; nothing else of the store changes.\<close>

lemma replenish_next_id:
  assumes "replenish_turn env p f = Returns (b, p', f')"
  shows "fp_next_id p' = fp_next_id p \<or> fp_next_id p' = fp_next_id p + 1"
    and "fp_poolSize p' = fp_poolSize p"
  using assms create_file_fields [of env p f]
  by (auto simp: replenish_turn_def publish_def split: if_splits option.splits prod.splits)

lemma pool_refill_next_id:
  assumes "pool_refill env n f = (n', f')" and "next_id n < 2 ^ 64 - 1"
  shows "next_id n' \<le> Suc (next_id n)"
proof (cases "sm_filePool (nt_sst n)")
  case (Some p)
  have "unat (fp_next_id p + 1) \<le> Suc (unat (fp_next_id p))"
    by (simp add: unat_word_ariths)
  then show ?thesis
    using assms Some replenish_next_id(1) [of env p f]
    by (fastforce simp: pool_refill_def next_id_def split: if_splits outcome.splits prod.splits)
qed (use assms in \<open>simp add: pool_refill_def next_id_def\<close>)

lemma pool_refill_run:
  assumes "pool_refill env n f = (n', f')" and s: "ns_store s = n" "ns_fs s = f" and "ids_left s"
  shows "\<exists>es. nt_run s es (s\<lparr>ns_store := n', ns_fs := f'\<rparr>) \<and> writes es = []"
proof -
  have "s\<lparr>ns_store := n, ns_fs := f\<rparr> = s" using s by (cases s) simp
  then have same: "nt_run s [] (s\<lparr>ns_store := n, ns_fs := f\<rparr>)" by (simp add: nt_run.run_refl)
  show ?thesis
  proof (cases "n' = n \<and> f' = f")
    case True
    with same show ?thesis by (intro exI [of _ "[]"]) simp
  next
    case False
    with assms(1) obtain p b p' where p: "sm_filePool (nt_sst n) = Some p"
        "replenish_turn env p f = Returns (b, p', f')"
        "n' = n\<lparr>nt_sst := (nt_sst n)\<lparr>sm_filePool := Some p'\<rparr>\<rparr>"
      by (auto simp: pool_refill_def split: option.splits if_splits outcome.splits prod.splits)
    have "nt_step s Tau (s\<lparr>ns_store := n', ns_fs := f'\<rparr>)"
      using nt_step.p_refill [of s p env b p' f'] p s by simp
    from run1 [OF this assms(4)] show ?thesis by (intro exI [of _ "[Tau]"]) (simp add: wrote_def)
  qed
qed

text \<open>The fields a turn does not touch.\<close>

definition pool_size :: "native_store \<Rightarrow> u64" where
  "pool_size n = (case sm_filePool (nt_sst n) of None \<Rightarrow> 0 | Some p \<Rightarrow> fp_poolSize p)"

definition same_memory :: "native_store \<Rightarrow> native_store \<Rightarrow> bool" where
  "same_memory n n' \<longleftrightarrow> nt_active n' = nt_active n
     \<and> nt_max_immutable_memtables n' = nt_max_immutable_memtables n
     \<and> nt_memtable_max_size_bytes n' = nt_memtable_max_size_bytes n
     \<and> nt_shutting_down n' = nt_shutting_down n \<and> pool_size n' = pool_size n
     \<and> sm_dbPath (nt_sst n') = sm_dbPath (nt_sst n)"

lemma same_memory_refl [simp]: "same_memory n n"
  by (simp add: same_memory_def)

lemma same_memory_trans: "same_memory n n' \<Longrightarrow> same_memory n' n'' \<Longrightarrow> same_memory n n''"
  by (simp add: same_memory_def)

lemma pool_refill_same:
  assumes "pool_refill env n f = (n', f')"
  shows "same_memory n n'" and "nt_immutable n' = nt_immutable n"
    and "nt_flush_in_progress n' = nt_flush_in_progress n"
proof -
  show "same_memory n n'"
    using assms replenish_next_id(2) [of env _ f]
    by (fastforce simp: pool_refill_def same_memory_def pool_size_def
        split: option.splits if_splits outcome.splits prod.splits)
  show "nt_immutable n' = nt_immutable n" "nt_flush_in_progress n' = nt_flush_in_progress n"
    using assms by (auto simp: pool_refill_def split: option.splits if_splits outcome.splits prod.splits)
qed

lemma flushMemtable_pool:
  "flushMemtable m mgr f = Returns (b, mgr', f') \<Longrightarrow> sm_filePool mgr = Some p \<Longrightarrow>
    (\<exists>es. sm_filePool mgr' = Some (p\<lparr>fp_pool := es\<rparr>)) \<and> sm_dbPath mgr' = sm_dbPath mgr"
  by (auto simp: flushMemtable_def acquire_def bind_outcome_Returns_iff Let_def
      split: if_splits list.splits option.splits prod.splits)
    (metis file_pool.surjective file_pool.update_convs(6))

lemma flushMemtable_has_pool:
  "flushMemtable m mgr f = Returns r \<Longrightarrow> \<not> mt_empty m \<Longrightarrow> \<exists>p. sm_filePool mgr = Some p"
  by (cases "sm_filePool mgr") (simp_all add: flushMemtable_def)

lemma flushMemtableToL0_same:
  assumes "flushMemtableToL0 m n f = Returns (n', f')"
  shows "same_memory n n'" and "nt_immutable n' = nt_immutable n" and "next_id n' = next_id n"
    and "nt_flush_in_progress n' = nt_flush_in_progress n"
proof -
  have "n' = n \<or> (\<exists>b mgr p. flushMemtable m (nt_sst n) f = Returns (b, mgr, f')
      \<and> n' = n\<lparr>nt_sst := mgr\<rparr> \<and> sm_filePool (nt_sst n) = Some p)"
  proof (cases "mt_empty m")
    case False
    with assms obtain b mgr where r: "flushMemtable m (nt_sst n) f = Returns (b, mgr, f')" "n' = n\<lparr>nt_sst := mgr\<rparr>"
      by (auto simp: flushMemtableToL0_def bind_outcome_Returns_iff)
    with flushMemtable_has_pool [OF r(1) False] show ?thesis by blast
  qed (use assms in \<open>simp add: flushMemtableToL0_def\<close>)
  then consider "n' = n" | b mgr p where "flushMemtable m (nt_sst n) f = Returns (b, mgr, f')"
    "n' = n\<lparr>nt_sst := mgr\<rparr>" "sm_filePool (nt_sst n) = Some p"
    by blast
  then have "same_memory n n' \<and> nt_immutable n' = nt_immutable n \<and> next_id n' = next_id n
      \<and> nt_flush_in_progress n' = nt_flush_in_progress n"
  proof cases
    case 2
    from flushMemtable_pool [OF 2(1,3)] obtain es where
      "sm_filePool mgr = Some (p\<lparr>fp_pool := es\<rparr>)" "sm_dbPath mgr = sm_dbPath (nt_sst n)" by blast
    with 2(2,3) show ?thesis by (simp add: same_memory_def pool_size_def next_id_def)
  qed simp
  then show "same_memory n n'" "nt_immutable n' = nt_immutable n" "next_id n' = next_id n"
    "nt_flush_in_progress n' = nt_flush_in_progress n" by simp_all
qed

text \<open>A turn of the flush thread takes the oldest memtable of the queue, and is a run.\<close>

lemma flush_turn_cases:
  assumes "flush_turn env n f = Returns (n', f')" and "nt_immutable n = m # ms"
  obtains n1 n2 f2 where "flush_take n = Returns (Some m, n1)"
    and "n1 = n\<lparr>nt_immutable := ms, nt_flush_in_progress := True\<rparr>" and "pool_refill env n1 f = (n2, f2)"
    and "(\<exists>n3. flushMemtableToL0 m n2 f2 = Returns (n3, f') \<and> n' = flush_done n3)
      \<or> (\<exists>e. flushMemtableToL0 m n2 f2 = Throws e \<and> n' = flush_done n2 \<and> f' = f2)"
proof -
  have t: "flush_take n = Returns (Some m, n\<lparr>nt_immutable := ms, nt_flush_in_progress := True\<rparr>)"
    using assms(2) by (simp add: flush_take_def)
  obtain n2 f2 where r: "pool_refill env (n\<lparr>nt_immutable := ms, nt_flush_in_progress := True\<rparr>) f = (n2, f2)"
    by (metis prod.collapse)
  show ?thesis
    by (rule that [OF t refl r])
      (use assms(1) t r in \<open>auto simp: flush_turn_def split: outcome.splits\<close>)
qed

lemma flush_turn_same:
  assumes ft: "flush_turn env n f = Returns (n', f')" and q: "nt_immutable n = m # ms"
    and id: "next_id n < 2 ^ 64 - 1"
  shows "same_memory n n'" and "nt_immutable n' = ms" and "next_id n' \<le> Suc (next_id n)"
    and "\<not> nt_flush_in_progress n'"
proof -
  from flush_turn_cases [OF ft q] obtain n1 n2 f2 where n1: "n1 = n\<lparr>nt_immutable := ms, nt_flush_in_progress := True\<rparr>"
    and r: "pool_refill env n1 f = (n2, f2)"
    and fl: "(\<exists>n3. flushMemtableToL0 m n2 f2 = Returns (n3, f') \<and> n' = flush_done n3)
      \<or> (\<exists>e. flushMemtableToL0 m n2 f2 = Throws e \<and> n' = flush_done n2 \<and> f' = f2)" .
  have "next_id n1 = next_id n" "same_memory n n1" by (simp_all add: n1 next_id_def same_memory_def pool_size_def)
  moreover have "same_memory m1 (flush_done m1)" "next_id (flush_done m1) = next_id m1" for m1
    by (simp_all add: flush_done_def same_memory_def pool_size_def next_id_def)
  ultimately show "same_memory n n'" "nt_immutable n' = ms" "next_id n' \<le> Suc (next_id n)"
    "\<not> nt_flush_in_progress n'"
    using fl pool_refill_same [OF r] pool_refill_next_id [OF r] id n1 flushMemtableToL0_same [of m n2 f2]
    by (auto simp: flush_done_def intro: same_memory_trans) (metis same_memory_trans)+
qed

lemma flush_turn_run:
  assumes ft: "flush_turn env n f = Returns (n', f')" and q: "nt_immutable n = m # ms"
    and s: "ns_store s = n" "ns_fs s = f" "ns_worker s = FwWait" and id: "Suc (next_id n) < 2 ^ 64 - 1"
  shows "\<exists>es. nt_run s es (s\<lparr>ns_store := n', ns_fs := f'\<rparr>) \<and> writes es = []"
proof -
  from flush_turn_cases [OF ft q] obtain n1 n2 f2 where t: "flush_take n = Returns (Some m, n1)"
    and n1: "n1 = n\<lparr>nt_immutable := ms, nt_flush_in_progress := True\<rparr>"
    and r: "pool_refill env n1 f = (n2, f2)"
    and fl: "(\<exists>n3. flushMemtableToL0 m n2 f2 = Returns (n3, f') \<and> n' = flush_done n3)
      \<or> (\<exists>e. flushMemtableToL0 m n2 f2 = Throws e \<and> n' = flush_done n2 \<and> f' = f2)" .
  let ?s1 = "s\<lparr>ns_store := n1, ns_worker := FwFlush m\<rparr>"
  let ?s2 = "?s1\<lparr>ns_store := n2, ns_fs := f2\<rparr>"
  have id1: "next_id n1 = next_id n" by (simp add: n1 next_id_def)
  then have "next_id n2 \<le> Suc (next_id n)" using pool_refill_next_id [OF r] id by simp
  with id id1 have left: "ids_left s" "ids_left ?s1" "ids_left ?s2"
    by (auto simp: ids_left_next_id s)
  have step1: "nt_step s Tau ?s1" using nt_step.f_take [of s m n1] t s by simp
  from pool_refill_run [OF r, of ?s1] left(2) s obtain es where
    run2: "nt_run ?s1 es ?s2" "writes es = []" by auto
  let ?s3 = "\<lambda>n3 f'. ?s2\<lparr>ns_store := n3, ns_worker := FwFlushed, ns_fs := f'\<rparr>"
  obtain n3 where step3: "nt_step ?s2 Tau (?s3 n3 f')" and n': "n' = flush_done n3"
      and id3: "next_id n3 = next_id n2"
  proof (cases "flushMemtableToL0 m n2 f2")
    case (Returns x)
    with fl obtain n3 where n3: "flushMemtableToL0 m n2 f2 = Returns (n3, f')" "n' = flush_done n3" by auto
    show ?thesis
      by (rule that [of n3]) (use nt_step.f_flush [of ?s2 m n3 f'] n3 flushMemtableToL0_same(3) [OF n3(1)] in simp_all)
  next
    case (Throws e)
    with fl have r: "n' = flush_done n2" "f' = f2" by auto
    have "nt_step ?s2 Tau (?s3 n2 f2)"
      using nt_step.f_throw [of ?s2 m e] Throws by (cases s) simp
    with r show ?thesis by (intro that [of n2]) simp_all
  qed (use fl in auto)
  have step4: "nt_step (?s3 n3 f') Tau (s\<lparr>ns_store := n', ns_fs := f'\<rparr>)"
    using nt_step.f_done [of "?s3 n3 f'"] n' s(3) by (cases s) simp
  have "ids_left (?s3 n3 f')"
    using id \<open>next_id n2 \<le> Suc (next_id n)\<close> by (simp add: ids_left_next_id id3)
  with step3 step4 left(3) have "nt_run ?s2 [Tau, Tau] (s\<lparr>ns_store := n', ns_fs := f'\<rparr>)"
    by (intro run_Cons [OF step3] run1)
  with run2 have "nt_run ?s1 (es @ [Tau, Tau]) (s\<lparr>ns_store := n', ns_fs := f'\<rparr>)" by (blast intro: nt_run_trans)
  from run_Cons [OF step1 left(1) this] run2(2) show ?thesis
    by (intro exI [of _ "Tau # es @ [Tau, Tau]"]) (simp add: wrote_def writes_def)
qed

section \<open>The operations return\<close>

text \<open>A file system that answers every request.\<close>

definition good_io :: io_env where
  "good_io = \<lparr>io_fd_ok = True, io_alloc_ok = True, io_open_ok = True\<rparr>"

lemma sys_start_simps [simp]:
  "ns_store (sys_start n f) = n" "ns_worker (sys_start n f) = FwWait" "ns_parked (sys_start n f) = []"
  "ns_close (sys_start n f) = ClOpen" "ns_fs (sys_start n f) = f"
  "sys_start n f\<lparr>ns_store := n', ns_fs := f'\<rparr> = sys_start n' f'"
  "sys_start n f\<lparr>ns_store := n'\<rparr> = sys_start n' f" "sys_start n f\<lparr>ns_fs := f'\<rparr> = sys_start n f'"
  "sys_start n f\<lparr>ns_parked := []\<rparr> = sys_start n f"
  by (simp_all add: sys_start_def)

text \<open>The state at a given point of the flush thread and of \<open>close\<close>.\<close>

definition sys_at :: "flush_worker \<Rightarrow> close_phase \<Rightarrow> native_store \<Rightarrow> fs \<Rightarrow> native_sys" where
  "sys_at w c n f = \<lparr>ns_store = n, ns_worker = w, ns_parked = [], ns_close = c, ns_fs = f\<rparr>"

lemma sys_at_simps [simp]:
  "ns_store (sys_at w c n f) = n" "ns_worker (sys_at w c n f) = w"
  "ns_close (sys_at w c n f) = c" "ns_fs (sys_at w c n f) = f"
  "sys_at w c n f\<lparr>ns_store := n'\<rparr> = sys_at w c n' f" "sys_at w c n f\<lparr>ns_fs := f'\<rparr> = sys_at w c n f'"
  "sys_at w c n f\<lparr>ns_worker := w'\<rparr> = sys_at w' c n f" "sys_at w c n f\<lparr>ns_close := c'\<rparr> = sys_at w c' n f"
  by (simp_all add: sys_at_def)

lemma sys_start_at: "sys_start n f = sys_at FwWait ClOpen n f"
  by (simp add: sys_start_def sys_at_def)

lemma sys_inv_start_sst: "sys_inv pre gens ids h (sys_start n f) \<Longrightarrow> sst_inv pre gens ids (nt_sst n) f"
  by (simp add: sys_inv_def tables_ok_def)

lemma sys_inv_start_active: "sys_inv pre gens ids h (sys_start n f) \<Longrightarrow> \<exists>a. nt_active n = Some a"
  by (auto simp: sys_inv_def phases_ok_def)

text \<open>With a positive pool size, the pool has a file after its turn.\<close>

lemma pool_refill_ready:
  assumes inv: "sst_inv pre gens ids (nt_sst n) f" and size: "0 < pool_size n" and id: "next_id n < 2 ^ 64 - 1"
    and r: "pool_refill good_io n f = (n', f')"
  shows "\<exists>ids'. sst_inv pre gens ids' (nt_sst n') f' \<and> ids' \<noteq> []"
proof -
  from inv obtain p where p: "sm_filePool (nt_sst n) = Some p" "pool_inv ids p f" "\<not> fp_shutdown p"
    by (auto simp: sst_inv_def)
  have room: "fp_next_id p < - 1" "0 < fp_poolSize p"
    using id size p(1) by (simp_all add: u64_below_max next_id_def pool_size_def)
  show ?thesis
  proof (cases "fp_pool p = []")
    case False
    with p have "ids \<noteq> []" by (auto simp: pool_inv_def)
    with False r p(1) inv show ?thesis by (auto simp: pool_refill_def)
  next
    case True
    from replenish_enables_acquire [OF True p(3) room(2), of good_io f] obtain p' f1 e p'' where
      t: "replenish_turn good_io p f = Returns (False, p', f1)" "acquire p' = Returns (e, p'')"
      by (auto simp: good_io_def)
    then have n': "n' = n\<lparr>nt_sst := (nt_sst n)\<lparr>sm_filePool := Some p'\<rparr>\<rparr>" "f' = f1"
      using r p(1) True by (auto simp: pool_refill_def)
    from refill_inv [OF inv p(1) t(1) room(1)] obtain ids' where
      i: "sst_inv pre gens ids' ((nt_sst n)\<lparr>sm_filePool := Some p'\<rparr>) f1" ..
    then have "pool_inv ids' p' f1" by (simp add: sst_inv_def)
    then have "ids' \<noteq> []" using t(2) by (auto simp: acquire_def pool_inv_def split: if_splits list.splits)
    with i n' show ?thesis by auto
  qed
qed

lemma flush_turn_returns:
  assumes inv: "sst_inv pre gens ids (nt_sst n) f" and q: "nt_immutable n = m # ms"
    and size: "0 < pool_size n" and id: "next_id n < 2 ^ 64 - 1"
  shows "\<exists>n' f'. flush_turn good_io n f = Returns (n', f')"
proof -
  let ?n1 = "n\<lparr>nt_immutable := ms, nt_flush_in_progress := True\<rparr>"
  have t: "flush_take n = Returns (Some m, ?n1)" using q by (simp add: flush_take_def)
  obtain n2 f2 where r: "pool_refill good_io ?n1 f = (n2, f2)" by (metis prod.collapse)
  have "sst_inv pre gens ids (nt_sst ?n1) f" using inv by simp
  moreover have "0 < pool_size ?n1" "next_id ?n1 < 2 ^ 64 - 1"
    using size id by (simp_all add: pool_size_def next_id_def)
  ultimately obtain ids' where "sst_inv pre gens ids' (nt_sst n2) f2" "ids' \<noteq> []"
    using pool_refill_ready [OF _ _ _ r] by blast
  from flush_returns [OF this] obtain b mgr f3 where "flushMemtable m (nt_sst n2) f2 = Returns (b, mgr, f3)"
    by blast
  then have "\<exists>n3 f3. flushMemtableToL0 m n2 f2 = Returns (n3, f3)" by (simp add: flushMemtableToL0_def)
  with t r show ?thesis by (auto simp: flush_turn_def)
qed

lemma flush_turn_inv:
  assumes inv: "sys_inv pre gens ids h s" and ok: "log_ok h" and s: "ns_store s = n" "ns_fs s = f" "ns_worker s = FwWait"
    and q: "nt_immutable n = m # ms"
    and id: "Suc (next_id n) < 2 ^ 64 - 1" and ft: "flush_turn env n f = Returns (n', f')"
  shows "\<exists>gens' ids'. sys_inv pre gens' ids' h (s\<lparr>ns_store := n', ns_fs := f'\<rparr>)"
proof -
  from flush_turn_run [OF ft q s id] obtain es where
    "nt_run s es (s\<lparr>ns_store := n', ns_fs := f'\<rparr>)" "writes es = []" by blast
  with nt_run_inv [of s es] inv ok show ?thesis by fastforce
qed

lemma settle_spec_at:
  "sys_inv pre gens ids h s \<Longrightarrow> log_ok h \<Longrightarrow> ns_worker s = FwWait \<Longrightarrow> ns_close s \<noteq> ClClosed \<Longrightarrow>
    ns_store s = n \<Longrightarrow> ns_fs s = f \<Longrightarrow> length (nt_immutable n) = c \<Longrightarrow>
    0 < pool_size n \<Longrightarrow> next_id n + c < 2 ^ 64 - 1 \<Longrightarrow>
    \<exists>n' f' gens' ids'. settle good_io c n f = Returns (n', f')
      \<and> sys_inv pre gens' ids' h (s\<lparr>ns_store := n', ns_fs := f'\<rparr>)
      \<and> nt_immutable n' = [] \<and> same_memory n n' \<and> next_id n' \<le> next_id n + c"
proof (induction c arbitrary: s n f gens ids)
  case 0
  then have e: "s\<lparr>ns_store := n, ns_fs := f\<rparr> = s" by (cases s) simp
  have "sys_inv pre gens ids h (s\<lparr>ns_store := n, ns_fs := f\<rparr>)" unfolding e by (rule 0(1))
  with 0 show ?case by simp blast
next
  case (Suc c)
  then obtain m ms where q: "nt_immutable n = m # ms" by (cases "nt_immutable n") auto
  have id: "next_id n < 2 ^ 64 - 1" "Suc (next_id n) < 2 ^ 64 - 1" using Suc.prems(9) by simp_all
  have "sst_inv pre gens ids (nt_sst n) f"
    using Suc.prems(1,4-6) by (auto simp: sys_inv_def tables_open)
  from flush_turn_returns [OF this q Suc.prems(8) id(1)] obtain n1 f1 where
    ft: "flush_turn good_io n f = Returns (n1, f1)" by blast
  note same = flush_turn_same [OF ft q id(1)]
  let ?s1 = "s\<lparr>ns_store := n1, ns_fs := f1\<rparr>"
  from flush_turn_inv [OF Suc.prems(1,2,5,6,3) q id(2) ft] obtain gens1 ids1 where
    inv1: "sys_inv pre gens1 ids1 h ?s1" by blast
  have "length (nt_immutable n1) = c" "0 < pool_size n1" "next_id n1 + c < 2 ^ 64 - 1"
    using same Suc.prems(7-9) q by (auto simp: same_memory_def)
  from Suc.IH [OF inv1 Suc.prems(2) _ _ _ _ this] Suc.prems(3,4) obtain n' f' gens' ids' where
    "settle good_io c n1 f1 = Returns (n', f')" "sys_inv pre gens' ids' h (?s1\<lparr>ns_store := n', ns_fs := f'\<rparr>)"
    "nt_immutable n' = []" "same_memory n1 n'" "next_id n' \<le> next_id n1 + c" by auto
  with ft same show ?case by (auto intro: same_memory_trans)
qed

lemma settle_spec:
  assumes "sys_inv pre gens ids h (sys_start n f)" and "log_ok h" and "length (nt_immutable n) = c"
    and "0 < pool_size n" and "next_id n + c < 2 ^ 64 - 1"
  shows "\<exists>n' f' gens' ids'. settle good_io c n f = Returns (n', f') \<and> sys_inv pre gens' ids' h (sys_start n' f')
      \<and> nt_immutable n' = [] \<and> same_memory n n' \<and> next_id n' \<le> next_id n + c"
  using settle_spec_at [OF assms(1,2) _ _ _ _ assms(3-5)] by simp

section \<open>The contract of the store\<close>

definition pending :: "native_store \<Rightarrow> nat" where
  "pending n = length (nt_immutable n) + (if active_entries n = [] then 0 else 1)"

definition native_ok :: "u64 \<Rightarrow> native_state \<Rightarrow> bool" where
  "native_ok pre s = (case s of (n, f) \<Rightarrow>
     (\<exists>gens ids h. sys_inv pre gens ids h (sys_start n f) \<and> log_ok h)
     \<and> next_id n + pending n < 2 ^ 64 - 1 \<and> 0 < pool_size n
     \<and> 0 < nt_max_immutable_memtables n
     \<and> length (nt_immutable n) \<le> unat (nt_max_immutable_memtables n))"

definition native_content :: "native_state \<Rightarrow> key \<rightharpoonup> val" where
  "native_content s k = (case seq_get k s of Returns r \<Rightarrow> r | _ \<Rightarrow> None)"

definition native_scannable :: "native_state \<Rightarrow> bool" where
  "native_scannable s \<longleftrightarrow> nt_immutable (fst s) = []"

definition native_room :: "u64 \<Rightarrow> mutation_type \<Rightarrow> key \<Rightarrow> val \<Rightarrow> native_state \<Rightarrow> bool" where
  "native_room pre t k v s = (case s of (n, f) \<Rightarrow>
     (t = Put \<longrightarrow> v \<noteq> MEMTABLE_TOMBSTONE)
     \<and> (\<forall>gens ids h. sys_inv pre gens ids h (sys_start n f) \<longrightarrow> log_ok (h @ [(k, actual_value t v)]))
     \<and> next_id n + pending n + 2 < 2 ^ 64 - 1)"

lemma native_get:
  assumes inv: "sys_inv pre gens ids h (sys_start n f)"
  shows "seq_get k (n, f) = Returns (live (entries_map h) k)"
proof -
  have "nt_get n f k = Returns (live (visible_map gens n) k)"
    using nt_get_visible [of pre gens ids "sys_start n f" k] inv sys_inv_start_active [OF inv]
    by (auto simp: sys_inv_def)
  moreover have "visible_map gens n = entries_map h"
    using visible_no_flight [OF inv] by (simp add: no_flight_def worker_entries_def close_entries_def)
  ultimately show ?thesis by simp
qed

lemma native_content_log:
  "sys_inv pre gens ids h (sys_start n f) \<Longrightarrow> native_content (n, f) = live (entries_map h)"
  by (rule ext) (simp add: native_content_def native_get del: seq_get.simps)

lemma live_mutation:
  "t = Put \<longrightarrow> v \<noteq> MEMTABLE_TOMBSTONE \<Longrightarrow>
    live (entries_map (h @ [(k, actual_value t v)])) = apply_mutation t k v (live (entries_map h))"
  by (cases t) (simp_all add: actual_value_def apply_mutation_def)

lemma write_step_inv:
  assumes inv: "sys_inv pre gens ids h (sys_start n f)" and a: "nt_active n = Some a"
    and n': "n' = add_active k v (rotate_memtable a n) \<or> n' = add_active k v n"
  shows "\<exists>gens ids. sys_inv pre gens ids (h @ [(k, v)]) (sys_start n' f)"
proof -
  have "sys_start n f\<lparr>ns_store := n', ns_parked := []\<rparr> = sys_start n' f" by (simp add: sys_start_def)
  with step_ok_write [OF inv, of a n' k v "[]"] a n' show ?thesis
    by (auto simp: step_ok_def wrote_def)
qed

lemma write_fields:
  assumes "n' = add_active k v (rotate_memtable a n) \<or> n' = add_active k v n"
  shows "next_id n' = next_id n" "pool_size n' = pool_size n"
    and "nt_max_immutable_memtables n' = nt_max_immutable_memtables n"
    and "length (nt_immutable n') \<le> Suc (length (nt_immutable n))"
    and "pending n' \<le> length (nt_immutable n') + 1"
    and "n' = add_active k v n \<Longrightarrow> pending n' \<le> pending n + 1"
    and "nt_immutable n' = (if n' = add_active k v n then nt_immutable n else nt_immutable n @ [a])"
  using assms
  by (auto simp: next_id_def pool_size_def add_active_def rotate_memtable_def pending_def)

text \<open>
  \<open>native_at db pre h b s\<close>: the store at rest in the directory \<open>db\<close> holds the log \<open>h\<close>, and the ids it
  has used and those its memtables still need stay below \<open>b\<close>.
\<close>

definition native_at :: "string \<Rightarrow> u64 \<Rightarrow> (key \<times> val) list \<Rightarrow> nat \<Rightarrow> native_state \<Rightarrow> bool" where
  "native_at db pre h b s = (case s of (n, f) \<Rightarrow>
     (\<exists>gens ids. sys_inv pre gens ids h (sys_start n f)) \<and> log_ok h \<and> sm_dbPath (nt_sst n) = db
     \<and> next_id n + pending n \<le> b \<and> 0 < pool_size n \<and> 0 < nt_max_immutable_memtables n
     \<and> length (nt_immutable n) \<le> unat (nt_max_immutable_memtables n))"

lemma native_at_ok: "native_at db pre h b s \<Longrightarrow> b < 2 ^ 64 - 1 \<Longrightarrow> native_ok pre s"
  by (auto simp: native_at_def native_ok_def)

lemma native_ok_at:
  assumes "native_ok pre s"
  obtains db h b where "native_at db pre h b s" and "b < 2 ^ 64 - 1" and "b = next_id (fst s) + pending (fst s)"
  using assms by (auto simp: native_at_def native_ok_def split: prod.splits)

lemma native_at_content: "native_at db pre h b s \<Longrightarrow> native_content s = live (entries_map h)"
  by (auto simp: native_at_def native_content_log split: prod.splits)

lemma write_at:
  assumes at: "native_at db pre h b (n, f)" and m: "same_memory n n1"
    and inv: "sys_inv pre gens ids h (sys_start n1 f1)" and a: "nt_active n1 = Some a"
    and n': "n' = add_active k v (rotate_memtable a n1) \<or> n' = add_active k v n1"
    and lok: "log_ok (h @ [(k, v)])" and q: "length (nt_immutable n') \<le> unat (nt_max_immutable_memtables n)"
    and id: "next_id n1 + pending n' \<le> b + 2"
  shows "native_at db pre (h @ [(k, v)]) (b + 2) (n', f1)"
proof -
  from write_step_inv [OF inv a n'] obtain gens2 ids2 where
    inv2: "sys_inv pre gens2 ids2 (h @ [(k, v)]) (sys_start n' f1)" by blast
  have "nt_sst n' = nt_sst n1" by (rule write_effect(1) [OF a n'])
  with inv2 at lok m q id write_fields(1-3) [OF n'] show ?thesis
    by (auto simp: native_at_def same_memory_def)
qed

text \<open>A mutation that finds room.\<close>

lemma mutation_at_room:
  assumes at: "native_at db pre h b (n, f)" and a: "nt_active n = Some a"
    and room: "\<not> (needs_rotation n a k v \<and> \<not> has_room n)" and lok: "log_ok (h @ [(k, v)])"
  shows "\<exists>n'. batch_mutation k v n = Returns n' \<and> native_at db pre (h @ [(k, v)]) (b + 2) (n', f)"
proof -
  let ?n' = "if needs_rotation n a k v then add_active k v (rotate_memtable a n) else add_active k v n"
  have r: "batch_mutation k v n = Returns ?n'" using a room by (simp add: batch_mutation_def)
  from at obtain gens ids where inv: "sys_inv pre gens ids h (sys_start n f)"
    and q: "length (nt_immutable n) \<le> unat (nt_max_immutable_memtables n)"
    and id: "next_id n + pending n \<le> b" by (auto simp: native_at_def)
  have "pending ?n' \<le> pending n + 2" by (auto simp: pending_def add_active_def rotate_memtable_def)
  then have "native_at db pre (h @ [(k, v)]) (b + 2) (?n', f)"
    using q batch_mutation_queue [OF r] id by (intro write_at [OF at same_memory_refl inv a _ lok]) auto
  with r show ?thesis by blast
qed

text \<open>A mutation that waits until the flush thread has taken a memtable.\<close>

lemma mutation_at_wait:
  assumes at: "native_at db pre h b (n, f)" and id: "b + 2 < 2 ^ 64 - 1" and a: "nt_active n = Some a"
    and full: "\<not> has_room n" and lok: "log_ok (h @ [(k, v)])"
  shows "\<exists>n1 f1 n'. flush_turn good_io n f = Returns (n1, f1) \<and> batch_resume k v n1 = Returns n'
    \<and> native_at db pre (h @ [(k, v)]) (b + 2) (n', f1)"
proof -
  from at obtain gens ids where inv: "sys_inv pre gens ids h (sys_start n f)" and hok: "log_ok h"
    and size: "0 < pool_size n" "0 < nt_max_immutable_memtables n"
    and q: "length (nt_immutable n) \<le> unat (nt_max_immutable_memtables n)"
    and b: "next_id n + pending n \<le> b" by (auto simp: native_at_def)
  from full size(2) have "nt_immutable n \<noteq> []" by (auto simp: has_room_def word_less_nat_alt)
  then obtain m ms where ms: "nt_immutable n = m # ms" by (cases "nt_immutable n") auto
  have id1: "next_id n < 2 ^ 64 - 1" "Suc (next_id n) < 2 ^ 64 - 1" using id b by simp_all
  from flush_turn_returns [OF sys_inv_start_sst [OF inv] ms size(1) id1(1)] obtain n1 f1 where
    ft: "flush_turn good_io n f = Returns (n1, f1)" by blast
  note same = flush_turn_same [OF ft ms id1(1)]
  from flush_turn_inv [OF inv hok _ _ _ ms id1(2) ft] obtain gens1 ids1 where
    inv1: "sys_inv pre gens1 ids1 h (sys_start n1 f1)" by auto
  have a1: "nt_active n1 = Some a" using same(1) a by (simp add: same_memory_def)
  let ?n' = "add_active k v (rotate_memtable a n1)"
  have hr: "has_room n1" using same(1,2) q ms by (simp add: has_room_def same_memory_def)
  then have r: "batch_resume k v n1 = Returns ?n'" using a1 by (simp add: batch_resume_def)
  have "length (nt_immutable ?n') \<le> unat (nt_max_immutable_memtables n)"
    using batch_resume_queue [OF r] same(1) by (simp add: same_memory_def)
  moreover have "pending ?n' \<le> pending n + 1"
    using same(2) ms by (simp add: pending_def add_active_def rotate_memtable_def)
  ultimately have "native_at db pre (h @ [(k, v)]) (b + 2) (?n', f1)"
    using b same(3) by (intro write_at [OF at same(1) inv1 a1 _ lok]) auto
  with ft r show ?thesis by blast
qed

lemma seq_mutation_at:
  assumes at: "native_at db pre h b s" and id: "b + 2 < 2 ^ 64 - 1" and lok: "log_ok (h @ [(k, actual_value t v)])"
  shows "\<exists>s'. seq_mutation good_io t k v flush s = Returns (True, s')
    \<and> native_at db pre (h @ [(k, actual_value t v)]) (b + 2) s'"
proof -
  obtain n f where s: "s = (n, f)" by (cases s)
  from at obtain a where a: "nt_active n = Some a" by (auto simp: native_at_def s dest: sys_inv_start_active)
  show ?thesis
  proof (cases "needs_rotation n a k (actual_value t v) \<and> \<not> has_room n")
    case False
    from mutation_at_room [OF at [unfolded s] a this lok] show ?thesis by (auto simp: s)
  next
    case True
    then have "batch_mutation k (actual_value t v) n = Blocks" using a by (simp add: batch_mutation_def)
    with mutation_at_wait [OF at [unfolded s] id a _ lok] True show ?thesis by (fastforce simp: s)
  qed
qed

lemma native_mutation:
  assumes ok: "native_ok pre s" and room: "native_room pre t k v s"
  shows "\<exists>s'. seq_mutation good_io t k v flush s = Returns (True, s') \<and> native_ok pre s'
    \<and> native_content s' = apply_mutation t k v (native_content s)"
proof -
  obtain db h b where at: "native_at db pre h b s" and b: "b = next_id (fst s) + pending (fst s)"
    by (rule native_ok_at [OF ok])
  from room at have lok: "log_ok (h @ [(k, actual_value t v)])" and tv: "t = Put \<longrightarrow> v \<noteq> MEMTABLE_TOMBSTONE"
    and id: "b + 2 < 2 ^ 64 - 1"
    by (auto simp: native_room_def native_at_def b split: prod.splits)
  from seq_mutation_at [OF at id lok, of flush] obtain s' where s': "seq_mutation good_io t k v flush s = Returns (True, s')"
    "native_at db pre (h @ [(k, actual_value t v)]) (b + 2) s'" by blast
  from native_at_ok [OF s'(2) id] live_mutation [OF tv] s' show ?thesis
    by (simp add: native_at_content [OF at] native_at_content [OF s'(2)])
qed

lemma barrier_enter_fields:
  assumes "barrier_enter n = Returns n1"
  shows "length (nt_immutable n1) = pending n" and "active_entries n1 = []" and "next_id n1 = next_id n"
    and "pool_size n1 = pool_size n" and "nt_max_immutable_memtables n1 = nt_max_immutable_memtables n"
    and "sm_dbPath (nt_sst n1) = sm_dbPath (nt_sst n)"
  using assms
  by (auto simp: barrier_enter_def pending_def active_entries_def rotate_memtable_def mt_new_def mt_empty_data
      next_id_def pool_size_def split: option.splits if_splits)

lemma seq_barrier_at:
  assumes at: "native_at db pre h b s" and id: "b < 2 ^ 64 - 1"
  shows "\<exists>s'. seq_writeBarrier good_io s = Returns (True, s') \<and> native_at db pre h b s' \<and> native_scannable s'"
proof -
  obtain n f where s: "s = (n, f)" by (cases s)
  from at obtain gens ids where inv: "sys_inv pre gens ids h (sys_start n f)" and hok: "log_ok h"
    and b: "next_id n + pending n \<le> b" and size: "0 < pool_size n" "0 < nt_max_immutable_memtables n"
    by (auto simp: native_at_def s)
  obtain n1 where e: "barrier_enter n = Returns n1"
    using sys_inv_start_active [OF inv] by (auto simp: barrier_enter_def)
  note fields = barrier_enter_fields [OF e]
  from step_ok_barrier [OF inv, of n1] e obtain gens1 ids1 where
    inv1: "sys_inv pre gens1 ids1 h (sys_start n1 f)"
    by (auto simp: step_ok_def wrote_def)
  from settle_spec [OF inv1 hok fields(1)] fields b id size obtain n2 f2 gens2 ids2 where
    st: "settle good_io (pending n) n1 f = Returns (n2, f2)"
    and inv2: "sys_inv pre gens2 ids2 h (sys_start n2 f2)" and q: "nt_immutable n2 = []"
    and m: "same_memory n1 n2" and id2: "next_id n2 \<le> next_id n1 + pending n" by auto
  have "\<not> nt_flush_in_progress n2" using inv2 by (simp add: sys_inv_def phases_ok_def)
  then have ready: "barrier_ready n2" using q by (simp add: barrier_ready_def)
  have "pending n2 = 0"
    using q m fields(2) by (simp add: pending_def same_memory_def active_entries_def)
  then have "native_at db pre h b (n2, f2)"
    using inv2 at b id2 fields m size q by (auto simp: native_at_def same_memory_def s)
  then show ?thesis
    using e st ready fields(1) q s by (auto simp: native_scannable_def)
qed

lemma native_barrier:
  assumes ok: "native_ok pre s"
  shows "\<exists>s'. seq_writeBarrier good_io s = Returns (True, s') \<and> native_ok pre s'
    \<and> native_content s' = native_content s \<and> native_scannable s'"
proof -
  obtain db h b where at: "native_at db pre h b s" and b: "b < 2 ^ 64 - 1" by (rule native_ok_at [OF ok])
  from seq_barrier_at [OF this] obtain s' where s': "seq_writeBarrier good_io s = Returns (True, s')"
    "native_at db pre h b s'" "native_scannable s'" by blast
  from native_at_ok [OF s'(2) b] s' show ?thesis
    by (simp add: native_at_content [OF at] native_at_content [OF s'(2)])
qed

lemma scan_log:
  assumes inv: "sys_inv pre gens ids h (sys_start n f)" and sc: "nt_immutable n = []"
  shows "\<exists>b xs. seq_getPrefix p (n, f) = Returns (b, xs) \<and> omap_ok xs
    \<and> map_of xs = live (entries_map h) |` with_prefix p"
proof -
  from inv have t: "tables_ok pre gens ids (sys_start n f)" by (simp add: sys_inv_def)
  obtain a where a: "nt_active n = Some a" using sys_inv_start_active [OF inv] by blast
  have "visible_map gens n = entries_map h"
    using visible_no_flight [OF inv] by (simp add: no_flight_def worker_entries_def close_entries_def)
  then have "scanned_map gens n = entries_map h" using sc by (simp add: scanned_empty_queue)
  with nt_getPrefix_spec [OF t, of a p] a show ?thesis by auto
qed

lemma native_scan:
  assumes ok: "native_ok pre s" and sc: "native_scannable s"
  shows "\<exists>b xs. seq_getPrefix p s = Returns (b, xs) \<and> omap_ok xs
    \<and> map_of xs = native_content s |` with_prefix p"
proof -
  obtain n f where s: "s = (n, f)" by (cases s)
  from ok s obtain gens ids h where inv: "sys_inv pre gens ids h (sys_start n f)" by (auto simp: native_ok_def)
  with scan_log [OF inv] sc show ?thesis by (simp add: s native_content_log native_scannable_def)
qed

interpretation native: lsmio_store "native_ops good_io" "native_ok pre" native_content "\<lambda>_. True"
  native_scannable "native_room pre" for pre
proof (unfold_locales, goal_cases)
  case (1 s t k v flush)
  from native_mutation [OF this] show ?case by (simp add: native_ops_def)
next
  case (2 s k)
  then obtain n f gens ids h where s: "s = (n, f)" "sys_inv pre gens ids h (sys_start n f)"
    by (cases s) (auto simp: native_ok_def)
  show ?case
    using native_get [OF s(2)] by (simp add: native_ops_def s(1) native_content_log [OF s(2)] del: seq_get.simps)
next
  case (3 s p)
  from native_scan [OF this] show ?case by (simp add: native_ops_def)
next
  case (4 s)
  from native_barrier [OF this] show ?case by (simp add: native_ops_def)
qed

section \<open>Close and reopen\<close>

lemma word_of_pos_int:
  assumes "0 < i" and "i < 2 ^ 31"
  shows "0 < (word_of_int i :: u64)"
proof -
  have "(word_of_int i :: u64) = word_of_nat (nat i)" "nat i < 2 ^ 64" "0 < nat i" using assms by simp_all
  then show ?thesis by (simp only: word_less_nat_alt unat_u64_of_nat) simp
qed

lemma pool_refill_inv:
  assumes inv: "sys_inv pre gens ids h s" and ok: "log_ok h" and s: "ns_store s = n" "ns_fs s = f"
    and id: "next_id n < 2 ^ 64 - 1" and r: "pool_refill env n f = (n', f')"
  shows "\<exists>gens' ids'. sys_inv pre gens' ids' h (s\<lparr>ns_store := n', ns_fs := f'\<rparr>)"
proof -
  have "ids_left s" using id s by (simp add: ids_left_next_id)
  from pool_refill_run [OF r s this] obtain es where
    "nt_run s es (s\<lparr>ns_store := n', ns_fs := f'\<rparr>)" "writes es = []" by blast
  with nt_run_inv [of s es] inv ok show ?thesis by fastforce
qed

lemma sst_inv_ids_below:
  assumes "sst_inv pre gens ids (nt_sst n) f"
  shows "ids_below (next_id n) (sm_dbPath (nt_sst n)) f"
proof -
  from assms obtain p where p: "sm_filePool (nt_sst n) = Some p" "fp_directory p = sm_dbPath (nt_sst n)"
    "fp_prefix p = ''L0-''" "fp_suffix p = ''.sst''" "pool_inv ids p f" by (auto simp: sst_inv_def)
  have "fs_read f (l0_file (sm_dbPath (nt_sst n)) i) = None" if "fp_next_id p \<le> i" for i
    using p that by (simp add: pool_inv_def pool_path_l0_file)
  with p(1) show ?thesis by (fastforce simp: ids_below_def next_id_def word_le_nat_alt not_less [symmetric])
qed

lemma close_drain_spec:
  "sys_inv pre gens ids h s \<Longrightarrow> log_ok h \<Longrightarrow> ns_close s = ClDrain \<Longrightarrow> ns_store s = n \<Longrightarrow> ns_fs s = f \<Longrightarrow>
    length (nt_immutable n) = c \<Longrightarrow> 0 < pool_size n \<Longrightarrow> next_id n + c < 2 ^ 64 - 1 \<Longrightarrow>
    \<exists>n' f' gens' ids'. close_drain good_io c n f = Returns (n', f')
      \<and> sys_inv pre gens' ids' h (s\<lparr>ns_store := n', ns_fs := f'\<rparr>)
      \<and> nt_immutable n' = [] \<and> nt_active n' = nt_active n
      \<and> sm_dbPath (nt_sst n') = sm_dbPath (nt_sst n) \<and> next_id n' \<le> next_id n + c"
proof (induction c arbitrary: s n f gens ids)
  case 0
  then have e: "s\<lparr>ns_store := n, ns_fs := f\<rparr> = s" by (cases s) simp
  have "sys_inv pre gens ids h (s\<lparr>ns_store := n, ns_fs := f\<rparr>)" unfolding e by (rule 0(1))
  with 0 show ?case by simp blast
next
  case (Suc c)
  then obtain m ms where q: "nt_immutable n = m # ms" by (cases "nt_immutable n") auto
  let ?n1 = "n\<lparr>nt_immutable := ms\<rparr>"
  let ?s1 = "s\<lparr>ns_store := ?n1, ns_close := ClFlush m\<rparr>"
  obtain n2 f2 where r: "pool_refill good_io ?n1 f = (n2, f2)" by (metis prod.collapse)
  have p: "close_pop n = Some (m, ?n1)" using q by (simp add: close_pop_def)
  from step_ok_close_pop [OF Suc.prems(1,3)] p Suc.prems(4) obtain gens1 ids1 where
    inv1: "sys_inv pre gens1 ids1 h ?s1" by (auto simp: step_ok_def wrote_def)
  have id1: "next_id ?n1 = next_id n" "0 < pool_size ?n1" "next_id ?n1 < 2 ^ 64 - 1"
    using Suc.prems(7,8) by (simp_all add: next_id_def pool_size_def)
  from pool_refill_inv [OF inv1 Suc.prems(2) _ _ id1(3) r] Suc.prems(5) obtain gens2 ids2 where
    inv2: "sys_inv pre gens2 ids2 h (?s1\<lparr>ns_store := n2, ns_fs := f2\<rparr>)" by auto
  have "sst_inv pre gens1 ids1 (nt_sst ?n1) f"
    using inv1 Suc.prems(5) by (simp add: sys_inv_def tables_open)
  from pool_refill_ready [OF this id1(2,3) r] obtain ids3 where
    "sst_inv pre gens1 ids3 (nt_sst n2) f2" "ids3 \<noteq> []" by blast
  from flush_returns [OF this] obtain b mgr f3 where "flushMemtable m (nt_sst n2) f2 = Returns (b, mgr, f3)"
    by blast
  then obtain n3 f3 where fl: "flushMemtableToL0 m n2 f2 = Returns (n3, f3)"
    by (cases "mt_empty m") (auto simp: flushMemtableToL0_def)
  let ?s3 = "s\<lparr>ns_store := n3, ns_fs := f3\<rparr>"
  have "(?s1\<lparr>ns_store := n2, ns_fs := f2\<rparr>)\<lparr>ns_store := n3, ns_close := ClDrain, ns_fs := f3\<rparr> = ?s3"
    using Suc.prems(3) by (cases s) simp
  with step_ok_close_flush [OF inv2 Suc.prems(2), of m n3 f3] fl obtain gens3 ids3 where
    inv3: "sys_inv pre gens3 ids3 h ?s3" by (auto simp: step_ok_def wrote_def)
  note same = pool_refill_same [OF r] flushMemtableToL0_same [OF fl] pool_refill_next_id [OF r id1(3)]
  have "length (nt_immutable n3) = c" "0 < pool_size n3" "next_id n3 + c < 2 ^ 64 - 1"
    using same id1 Suc.prems(6-8) q by (auto simp: same_memory_def)
  from Suc.IH [OF inv3 Suc.prems(2) _ _ _ this] Suc.prems(3) obtain n' f' gens' ids' where
    "close_drain good_io c n3 f3 = Returns (n', f')" "sys_inv pre gens' ids' h (?s3\<lparr>ns_store := n', ns_fs := f'\<rparr>)"
    "nt_immutable n' = []" "nt_active n' = nt_active n3" "sm_dbPath (nt_sst n') = sm_dbPath (nt_sst n3)"
    "next_id n' \<le> next_id n3 + c" by auto
  moreover have "nt_active n3 = nt_active n" "sm_dbPath (nt_sst n3) = sm_dbPath (nt_sst n)"
    "next_id n3 \<le> Suc (next_id n)"
    using same id1(1) by (simp_all add: same_memory_def)
  ultimately show ?case using p r fl by auto
qed

text \<open>\<open>close\<close> returns, and afterwards the tables on disk hold the whole log.\<close>

text \<open>\<open>close\<close> up to the join of the flush thread.\<close>

lemma close_settle:
  assumes inv: "sys_inv pre gens0 ids0 h (sys_start n f)" and hok: "log_ok h"
    and id: "next_id n + pending n < 2 ^ 64 - 1" and size: "0 < pool_size n"
  obtains gens ids n2 f2 where "close_begin n = (True, n\<lparr>nt_shutting_down := True\<rparr>)"
    and "settle good_io (length (nt_immutable n)) (n\<lparr>nt_shutting_down := True\<rparr>) f = Returns (n2, f2)"
    and "sys_inv pre gens ids h (sys_at FwExit ClJoin n2 f2)" and "nt_immutable n2 = []"
    and "same_memory (n\<lparr>nt_shutting_down := True\<rparr>) n2" and "next_id n2 \<le> next_id n + length (nt_immutable n)"
proof -
  let ?n1 = "n\<lparr>nt_shutting_down := True\<rparr>"
  have "\<not> nt_shutting_down n" using inv by (simp add: sys_inv_def phases_ok_def)
  then have cb: "close_begin n = (True, ?n1)" by (simp add: close_begin_def)
  from step_ok_close_begin [OF inv, of ?n1] cb sys_start_at [of n f] obtain gens1 ids1 where
    inv1: "sys_inv pre gens1 ids1 h (sys_at FwWait ClJoin ?n1 f)" by (auto simp: step_ok_def wrote_def)
  have f1: "length (nt_immutable ?n1) = length (nt_immutable n)" "0 < pool_size ?n1"
    "next_id ?n1 + length (nt_immutable n) < 2 ^ 64 - 1" "next_id ?n1 = next_id n"
    using size id by (simp_all add: pool_size_def next_id_def pending_def)
  from settle_spec_at [OF inv1 hok _ _ _ _ f1(1-3)] obtain n2 f2 gens2 ids2 where
    st: "settle good_io (length (nt_immutable n)) ?n1 f = Returns (n2, f2)"
    and inv2: "sys_inv pre gens2 ids2 h (sys_at FwWait ClJoin n2 f2)" and q2: "nt_immutable n2 = []"
    and m2: "same_memory ?n1 n2" and id2: "next_id n2 \<le> next_id ?n1 + length (nt_immutable n)" by auto
  have "flush_take n2 = Returns (None, n2)" using q2 m2 by (simp add: flush_take_def same_memory_def)
  with step_ok_exit [OF inv2, of n2] obtain gens3 ids3 where
    inv3: "sys_inv pre gens3 ids3 h (sys_at FwExit ClJoin n2 f2)" by (auto simp: step_ok_def wrote_def)
  show thesis by (rule that [OF cb st inv3 q2 m2]) (use id2 f1(4) in simp)
qed

text \<open>The rest of \<open>close\<close>, on a settled store.\<close>

lemma close_rest:
  assumes inv: "sys_inv pre gens ids h (sys_at FwExit ClJoin n f)" and hok: "log_ok h"
    and a: "nt_active n = Some a" and q: "nt_immutable n = []" and size: "0 < pool_size n"
    and id: "next_id n + (if mt_data a = [] then 0 else 1) < 2 ^ 64 - 1"
  shows "\<exists>n1 n2 f' gens'. close_queue n = Returns n1
    \<and> close_drain good_io (length (nt_immutable n1)) n1 f = Returns (n2, f')
    \<and> flushed_entries gens' = h \<and> disk_inv pre (sm_dbPath (nt_sst n)) gens' (sm_head (nt_sst (close_finish n2))) f'
    \<and> ids_below (next_id n + (if mt_data a = [] then 0 else 1)) (sm_dbPath (nt_sst n)) f'"
proof -
  obtain n1 where cq: "close_queue n = Returns n1" and q1: "nt_immutable n1 = (if mt_data a = [] then [] else [a])"
      and a1: "active_entries n1 = []" and f1: "next_id n1 = next_id n" "pool_size n1 = pool_size n"
        "sm_dbPath (nt_sst n1) = sm_dbPath (nt_sst n)"
    using a q by (cases "mt_empty a")
      (auto simp: close_queue_def mt_empty_data active_entries_def next_id_def pool_size_def)
  from step_ok_close_join [OF inv, of n1] cq obtain gens1 ids1 where
    inv1: "sys_inv pre gens1 ids1 h (sys_at FwExit ClDrain n1 f)" by (auto simp: step_ok_def wrote_def)
  have "0 < pool_size n1" "next_id n1 + length (nt_immutable n1) < 2 ^ 64 - 1"
    using f1 size q1 id by (simp_all split: if_splits)
  then obtain n2 f2 gens2 ids2 where cd: "close_drain good_io (length (nt_immutable n1)) n1 f = Returns (n2, f2)"
    and inv2: "sys_inv pre gens2 ids2 h (sys_at FwExit ClDrain n2 f2)"
    and q2: "nt_immutable n2 = []" "nt_active n2 = nt_active n1" "sm_dbPath (nt_sst n2) = sm_dbPath (nt_sst n1)"
      "next_id n2 \<le> next_id n1 + length (nt_immutable n1)"
    using close_drain_spec [OF inv1 hok _ _ _ refl, of n1 f] by auto
  have "sst_inv pre gens2 ids2 (nt_sst n2) f2" using inv2 by (simp add: sys_inv_def tables_open)
  from sst_inv_ids_below [OF this] have
    below: "ids_below (next_id n + (if mt_data a = [] then 0 else 1)) (sm_dbPath (nt_sst n)) f2"
    using q2(3,4) f1(1,3) q1 by (auto simp: ids_below_def split: if_splits)
  from step_ok_close_done [OF inv2] obtain gens3 ids3 where
    inv3: "sys_inv pre gens3 ids3 h (sys_at FwExit ClClosed (close_finish n2) f2)"
    by (auto simp: step_ok_def wrote_def)
  have "active_entries n2 = []" using a1 q2(2) by (simp add: active_entries_def)
  with closed_log [OF inv3] q2 f1(3) have "flushed_entries gens3 = h \<and>
      disk_inv pre (sm_dbPath (nt_sst n)) gens3 (sm_head (nt_sst (close_finish n2))) f2"
    by (simp add: close_finish_def sst_close_def active_entries_def)
  with cq cd below show ?thesis by blast
qed

lemma seq_close_spec:
  assumes inv: "sys_inv pre gens0 ids0 h (sys_start n f)" and hok: "log_ok h"
    and id: "next_id n + pending n < 2 ^ 64 - 1" and size: "0 < pool_size n"
  shows "\<exists>n' f' gens. seq_close good_io (n, f) = Returns (n', f') \<and> flushed_entries gens = h
    \<and> disk_inv pre (sm_dbPath (nt_sst n)) gens (sm_head (nt_sst n')) f'
    \<and> ids_below (next_id n + pending n) (sm_dbPath (nt_sst n)) f'
    \<and> max_file_id (found_files (sm_dbPath (nt_sst n)) f') < - 1"
proof -
  obtain gens1 ids1 n2 f2 where cb: "close_begin n = (True, n\<lparr>nt_shutting_down := True\<rparr>)"
    and st: "settle good_io (length (nt_immutable n)) (n\<lparr>nt_shutting_down := True\<rparr>) f = Returns (n2, f2)"
    and inv2: "sys_inv pre gens1 ids1 h (sys_at FwExit ClJoin n2 f2)" and q2: "nt_immutable n2 = []"
    and m2: "same_memory (n\<lparr>nt_shutting_down := True\<rparr>) n2" and id2: "next_id n2 \<le> next_id n + length (nt_immutable n)"
    by (rule close_settle [OF inv hok id size])
  from m2 sys_inv_start_active [OF inv] obtain a where a: "nt_active n2 = Some a" "active_entries n = mt_data a"
    by (auto simp: same_memory_def active_entries_def)
  have size2: "0 < pool_size n2" using size m2 by (simp add: same_memory_def pool_size_def)
  have id2: "next_id n2 + (if mt_data a = [] then 0 else 1) \<le> next_id n + pending n"
    using id2 a(2) by (simp add: pending_def split: if_splits)
  with id have "next_id n2 + (if mt_data a = [] then 0 else 1) < 2 ^ 64 - 1" by simp
  from close_rest [OF inv2 hok a(1) q2 size2 this] obtain n3 n4 f4 gens where
    r: "close_queue n2 = Returns n3" "close_drain good_io (length (nt_immutable n3)) n3 f2 = Returns (n4, f4)"
      "flushed_entries gens = h" "disk_inv pre (sm_dbPath (nt_sst n2)) gens (sm_head (nt_sst (close_finish n4))) f4"
      "ids_below (next_id n2 + (if mt_data a = [] then 0 else 1)) (sm_dbPath (nt_sst n2)) f4"
    by blast
  have db: "sm_dbPath (nt_sst n2) = sm_dbPath (nt_sst n)" using m2 by (simp add: same_memory_def)
  have below: "ids_below (next_id n + pending n) (sm_dbPath (nt_sst n)) f4"
    using r(5) id2 by (fastforce simp: ids_below_def db)
  have "unat (max_file_id (found_files (sm_dbPath (nt_sst n)) f4)) < max (next_id n + pending n) 1"
    using max_file_id_below [OF r(4) below [folded db]] by (simp add: db)
  with id have "max_file_id (found_files (sm_dbPath (nt_sst n)) f4) < - 1" by (simp add: u64_below_max)
  moreover have "seq_close good_io (n, f) = Returns (close_finish n4, f4)" using cb st r(1,2) by simp
  ultimately show ?thesis using r(3,4) below db by auto
qed

text \<open>
  A store opened again over the directory of a closed one has the same content. Where files
  are pre-allocated the empty key is an exception: zero bytes read as records of that key.
\<close>

text \<open>
  What a store answers that holds the mutations \<open>h\<close>; where files are pre-allocated, but for the empty
  key.
\<close>

definition native_answers :: "u64 \<Rightarrow> (key \<times> val) list \<Rightarrow> native_state \<Rightarrow> bool" where
  "native_answers pre h s \<longleftrightarrow>
     (\<forall>k. k \<noteq> [] \<or> pre = 0 \<longrightarrow> seq_get k s = Returns (live (entries_map h) k))
     \<and> (\<forall>p. p \<noteq> [] \<or> pre = 0 \<longrightarrow> (\<exists>b xs. seq_getPrefix p s = Returns (b, xs) \<and> omap_ok xs
          \<and> map_of xs = live (entries_map h) |` with_prefix p))"

lemma reopened_answers:
  assumes disk: "disk_inv pre db gens head f"
    and room: "max_file_id (found_files db f) < - 1" and pre: "prealloc_ok pre cfg"
  shows "native_answers pre (flushed_entries gens) (native_new cfg db False mg f)"
proof -
  obtain n f' where new: "native_new cfg db False mg f = (n, f')" by (metis prod.collapse)
  note r = native_reopen_inv [OF disk room pre new] and fields = native_new_fields [OF new]
  let ?h = "flushed_entries gens" and ?h' = "flushed_entries (recovered_gens db f gens)"
  have same: "live (entries_map ?h') k = live (entries_map ?h) k" if "k \<noteq> [] \<or> pre = 0" for k
    using gens_map_recovered [OF disk that] by (simp add: gens_map_flushed live_def)
  have restr: "live (entries_map ?h') |` with_prefix p = live (entries_map ?h) |` with_prefix p" if "p \<noteq> [] \<or> pre = 0" for p
  proof (rule ext)
    fix k
    show "(live (entries_map ?h') |` with_prefix p) k = (live (entries_map ?h) |` with_prefix p) k"
    proof (cases "prefix p k")
      case True
      then have "k \<noteq> [] \<or> pre = 0" using that by auto
      from same [OF this] show ?thesis by (simp add: restrict_map_def)
    qed (simp add: restrict_map_def with_prefix_def)
  qed
  show ?thesis
    unfolding native_answers_def new r(1)
  proof (intro conjI allI impI)
    show "seq_get k (n, f) = Returns (live (entries_map ?h) k)" if "k \<noteq> [] \<or> pre = 0" for k
      using native_get [OF r(2), of k] same [OF that] by (simp only:)
    show "\<exists>b xs. seq_getPrefix p (n, f) = Returns (b, xs) \<and> omap_ok xs \<and> map_of xs = live (entries_map ?h) |` with_prefix p"
      if "p \<noteq> [] \<or> pre = 0" for p
      using scan_log [OF r(2) fields(4), of p] restr [OF that] by (simp only:)
  qed
qed

lemma close_reopen:
  assumes at: "native_at db pre h b s" and id: "b < 2 ^ 64 - 1"
  shows "\<exists>s' gens head. seq_close good_io s = Returns s' \<and> fs_ok (snd s') \<and> fs_small (snd s')
    \<and> flushed_entries gens = h \<and> disk_inv pre db gens head (snd s') \<and> ids_below b db (snd s')
    \<and> (\<forall>cfg mg. prealloc_ok pre cfg \<longrightarrow> native_answers pre h (native_new cfg db False mg (snd s')))"
proof -
  obtain n f where s: "s = (n, f)" by (cases s)
  from at obtain gens0 ids0 where inv: "sys_inv pre gens0 ids0 h (sys_start n f)" and db: "sm_dbPath (nt_sst n) = db"
    and hok: "log_ok h" and b: "next_id n + pending n \<le> b" and size: "0 < pool_size n"
    by (auto simp: native_at_def s)
  have "next_id n + pending n < 2 ^ 64 - 1" using b id by simp
  from seq_close_spec [OF inv hok this size] obtain n' f' gens where
    c: "seq_close good_io (n, f) = Returns (n', f')" and h: "flushed_entries gens = h"
    and disk: "disk_inv pre db gens (sm_head (nt_sst n')) f'" and below: "ids_below (next_id n + pending n) db f'"
    and room: "max_file_id (found_files db f') < - 1" unfolding db by blast
  have "native_answers pre h (native_new cfg db False mg f')" if "prealloc_ok pre cfg" for cfg mg
    using reopened_answers [OF disk room that, of mg] by (simp add: h)
  moreover have "fs_ok f'" "fs_small f'" using disk by (simp_all add: disk_inv_def)
  moreover have "ids_below b db f'" using below b by (fastforce simp: ids_below_def)
  ultimately show ?thesis using c h disk by (auto simp: s)
qed

text \<open>
  Without preallocation what is found again is the log itself, and the store goes on where it was
  closed.
\<close>

lemma native_resume:
  assumes disk: "disk_inv 0 db gens head f" and below: "ids_below b db f" and b: "1 \<le> b" "b < 2 ^ 64 - 1"
    and hok: "log_ok (flushed_entries gens)" and pre: "\<not> cfg_preAllocate cfg"
    and pool: "0 < cfg_filePoolSize cfg" "cfg_filePoolSize cfg < 2 ^ 31" and num: "cfg_writeBufferNumber cfg < 2 ^ 31"
  shows "native_at db 0 (flushed_entries gens) b (native_new cfg db False mg f)"
proof -
  obtain n f' where new: "native_new cfg db False mg f = (n, f')" by (metis prod.collapse)
  have max: "unat (max_file_id (found_files db f)) < b" using max_file_id_below [OF disk below] b(1) by simp
  then have room: "max_file_id (found_files db f) < - 1" using b(2) by (simp add: u64_below_max)
  note r = native_reopen_inv [OF disk room _ new] and fields = native_new_fields [OF new]
  have "prealloc_ok 0 cfg" using pre by (simp add: prealloc_ok_def)
  note r = r [OF this]
  have h: "flushed_entries (recovered_gens db f gens) = flushed_entries gens"
    using recovered_entries [OF disk] by (simp add: flushed_entries_def)
  have pool_eq: "sm_filePool (nt_sst n) = Some (fp_new db ''L0-'' ''.sst'' (word_of_int (cfg_filePoolSize cfg))
      (max_file_id (found_files db f) + 1) 0)"
    using pre disk unfolding fields(2) r(1) by (simp add: sst_new_def recoverState_def fs_exists_def disk_inv_def)
  have "unat (max_file_id (found_files db f) + 1) \<le> Suc (unat (max_file_id (found_files db f)))"
    by (simp add: unat_word_ariths)
  then have "next_id n \<le> b" using max by (simp add: next_id_def pool_eq fp_new_def)
  moreover have "0 < pool_size n" using word_of_pos_int [OF pool] by (simp add: pool_size_def pool_eq fp_new_def)
  moreover have "0 < nt_max_immutable_memtables n"
    using word_of_pos_int [OF _ num] by (auto simp: fields(8) max_immutable_def)
  moreover have "pending n = 0" using fields(3,4) by (simp add: pending_def active_entries_def mt_new_def)
  moreover have "sm_dbPath (nt_sst n) = db" by (simp add: fields(2) sst_new_def recoverState_def Let_def split: prod.split)
  moreover have "sys_inv 0 (recovered_gens db f gens) [] (flushed_entries gens) (sys_start n f)" using r(2) by (simp add: h)
  ultimately show ?thesis using fields(4) hok unfolding new r(1) native_at_def by auto
qed

text \<open>A store that has been closed is shutting down: closing it again does nothing.\<close>

lemma pool_refill_shutting: "nt_shutting_down (fst (pool_refill env n f)) = nt_shutting_down n"
  by (simp add: pool_refill_def split: option.split outcome.split prod.split)

lemma flushMemtableToL0_shutting:
  "flushMemtableToL0 m n f = Returns (n', f') \<Longrightarrow> nt_shutting_down n' = nt_shutting_down n"
  by (auto simp: flushMemtableToL0_def bind_outcome_Returns_iff split: if_splits)

lemma flush_turn_shutting:
  assumes "flush_turn env n f = Returns (n', f')"
  shows "nt_shutting_down n' = nt_shutting_down n"
proof -
  from assms obtain r n1 where t: "flush_take n = Returns (r, n1)"
    and rest: "(case r of None \<Rightarrow> Returns (n1, f)
      | Some m \<Rightarrow> (case pool_refill env n1 f of (n2, f2) \<Rightarrow> (case flushMemtableToL0 m n2 f2 of
            Returns (n3, f3) \<Rightarrow> Returns (flush_done n3, f3) | Throws e \<Rightarrow> Returns (flush_done n2, f2)
          | Blocks \<Rightarrow> Blocks | Undefined \<Rightarrow> Undefined | Exits c \<Rightarrow> Exits c))) = Returns (n', f')"
    by (auto simp: flush_turn_def bind_outcome_Returns_iff)
  have n1: "nt_shutting_down n1 = nt_shutting_down n"
    using t by (auto simp: flush_take_def split: if_splits list.splits)
  show ?thesis
  proof (cases r)
    case None
    then show ?thesis using rest n1 by simp
  next
    case (Some m)
    obtain n2 f2 where p: "pool_refill env n1 f = (n2, f2)" by fastforce
    have "nt_shutting_down n2 = nt_shutting_down n1" using pool_refill_shutting [of env n1 f] p by simp
    with rest n1 Some p show ?thesis
      by (auto simp: flush_done_def dest: flushMemtableToL0_shutting split: outcome.splits)
  qed
qed

lemma settle_shutting: "settle env c n f = Returns (n', f') \<Longrightarrow> nt_shutting_down n' = nt_shutting_down n"
  by (induction c arbitrary: n f) (auto simp: bind_outcome_Returns_iff dest: flush_turn_shutting)

lemma close_drain_shutting: "close_drain env c n f = Returns (n', f') \<Longrightarrow> nt_shutting_down n' = nt_shutting_down n"
proof (induction c arbitrary: n f)
  case (Suc c)
  show ?case
  proof (cases "close_pop n")
    case None
    then show ?thesis using Suc.prems by simp
  next
    case (Some x)
    obtain m n1 where x: "x = (m, n1)" by (cases x)
    obtain n2 f2 where p: "pool_refill env n1 f = (n2, f2)" by fastforce
    from Suc.prems Some x p obtain n3 f3 where fl: "flushMemtableToL0 m n2 f2 = Returns (n3, f3)"
      and d: "close_drain env c n3 f3 = Returns (n', f')" by (auto simp: bind_outcome_Returns_iff)
    have "nt_shutting_down n1 = nt_shutting_down n" using Some x by (auto simp: close_pop_def split: list.splits)
    with Suc.IH [OF d] flushMemtableToL0_shutting [OF fl] pool_refill_shutting [of env n1 f] p show ?thesis by simp
  qed
qed simp

lemma close_queue_shutting: "close_queue n = Returns n' \<Longrightarrow> nt_shutting_down n' = nt_shutting_down n"
  by (auto simp: close_queue_def split: option.splits if_splits)

lemma seq_close_shutting:
  assumes "seq_close env (n, f) = Returns s'"
  shows "nt_shutting_down (fst s')"
proof (cases "nt_shutting_down n")
  case True
  then show ?thesis using assms by (auto simp: close_begin_def)
next
  case False
  with assms obtain n2 f2 n3 n4 f4 where "settle env (length (nt_immutable n)) (n\<lparr>nt_shutting_down := True\<rparr>) f = Returns (n2, f2)"
    "close_queue n2 = Returns n3" "close_drain env (length (nt_immutable n3)) n3 f2 = Returns (n4, f4)"
    "s' = (close_finish n4, f4)"
    by (auto simp: close_begin_def bind_outcome_Returns_iff)
  then show ?thesis
    using settle_shutting [of env _ "n\<lparr>nt_shutting_down := True\<rparr>" f n2 f2] close_queue_shutting [of n2 n3]
      close_drain_shutting [of env _ n3 f2 n4 f4]
    by (simp add: close_finish_def)
qed

lemma seq_close_again: "nt_shutting_down (fst s) \<Longrightarrow> seq_close env s = Returns s"
  by (cases s) (simp add: close_begin_def)

lemma seq_close_idle:
  assumes "nt_immutable n = []" and "nt_active n = Some mt_new"
  shows "\<exists>n'. seq_close env (n, f) = Returns (n', f)"
  using assms by (cases "nt_shutting_down n") (simp_all add: close_begin_def close_queue_def mt_empty_def mt_new_def)

section \<open>A new database\<close>

lemma max_file_id_Nil [simp]: "max_file_id [] = 0"
  by (simp add: max_file_id_def)

lemma fresh_directory:
  assumes "fs_ok f" and "fs_small f"
  shows "fs_small (create_directories db (remove_all db f))"
    and "found_files db (create_directories db (remove_all db f)) = []"
proof -
  let ?f = "create_directories db (remove_all db f)"
  have files: "fs_files ?f = filter (\<lambda>e. fst e \<noteq> db \<and> \<not> prefix (path_dir db) (fst e)) (fs_files f)"
    by (simp add: create_directories_def remove_all_def)
  show "fs_small ?f" by (rule fresh_small [OF assms(2)])
  have "fs_read ?f q = None" if "in_dir db q" for q
  proof -
    have "prefix (path_dir db) q" using that by (auto simp: in_dir_def take_prefix_iff [symmetric])
    then show ?thesis by (auto simp: fs_read_def files map_of_eq_None_iff)
  qed
  then show "found_files db ?f = []" by (rule found_files_empty [OF disk_inv_empty [OF assms]])
qed

lemma native_fresh_inv:
  assumes fs: "fs_ok f" "fs_small f" and pre: "prealloc_ok pre cfg"
    and new: "native_new cfg db True mg f = (n, f')"
  shows "sys_inv pre [] [] [] (sys_start n f')"
proof -
  note fields = native_new_fields [OF new] and fresh = fresh_directory [OF fs, of db]
  have "sst_inv pre (recovered_gens db f' []) [] (nt_sst n) f'"
    unfolding fields(2) using fields(1) pre fresh
    by (intro sst_new_inv [where head = "[]"])
      (simp_all add: disk_inv_empty [OF fs] word_greater_zero_iff prealloc_ok_def)
  moreover have "recovered_gens db f' [] = []" using fields(1) fresh(2) by (simp add: recovered_gens_def)
  ultimately show ?thesis using sys_inv_start [of pre "[]" "[]" n f'] fields(3-6) by simp
qed

lemma native_fresh_ids:
  assumes fs: "fs_ok f" "fs_small f" and new: "native_new cfg db True mg f = (n, f')"
  shows "next_id n = 1" and "pool_size n = word_of_int (cfg_filePoolSize cfg)"
proof -
  note fields = native_new_fields [OF new] and fresh = fresh_directory [OF fs, of db]
  have "sm_filePool (nt_sst n) = Some (fp_new db ''L0-'' ''.sst'' (word_of_int (cfg_filePoolSize cfg)) 1
      (if cfg_preAllocate cfg then memtable_max_size cfg else 0))"
    using fresh(2) disk_inv_empty [OF fs, of 0 db]
    by (simp add: fields(1,2) sst_new_def recoverState_def fs_exists_def disk_inv_def)
  then show "next_id n = 1" "pool_size n = word_of_int (cfg_filePoolSize cfg)"
    by (simp_all add: next_id_def pool_size_def fp_new_def)
qed

lemma native_fresh_ok:
  assumes fs: "fs_ok f" "fs_small f" and pre: "prealloc_ok pre cfg"
    and pool: "0 < cfg_filePoolSize cfg" "cfg_filePoolSize cfg < 2 ^ 31"
    and num: "cfg_writeBufferNumber cfg < 2 ^ 31"
    and new: "native_new cfg db True mg f = (n, f')"
  shows "native_ok pre (n, f')" and "native_content (n, f') = Map.empty"
proof -
  note fields = native_new_fields [OF new] and inv = native_fresh_inv [OF fs pre new]
  have "0 < pool_size n" using native_fresh_ids(2) [OF fs new] word_of_pos_int [OF pool] by simp
  moreover have "0 < nt_max_immutable_memtables n"
    using word_of_pos_int [OF _ num] by (auto simp: fields(8) max_immutable_def)
  moreover have "pending n = 0" using fields(3,4) by (simp add: pending_def active_entries_def mt_new_def)
  moreover have "\<exists>gens ids h. sys_inv pre gens ids h (sys_start n f') \<and> log_ok h"
    by (rule exI [of _ "[]"], rule exI [of _ "[]"], rule exI [of _ "[]"]) (simp add: inv log_ok_def)
  ultimately show "native_ok pre (n, f')"
    using fields(4) native_fresh_ids(1) [OF fs new] by (simp add: native_ok_def)
  show "native_content (n, f') = Map.empty" using native_content_log [OF inv] by simp
qed

lemma native_fresh_at:
  assumes fs: "fs_ok f" "fs_small f" and pre: "prealloc_ok pre cfg"
    and pool: "0 < cfg_filePoolSize cfg" "cfg_filePoolSize cfg < 2 ^ 31"
    and num: "cfg_writeBufferNumber cfg < 2 ^ 31"
  shows "native_at db pre [] 1 (native_new cfg db True mg f)"
proof -
  obtain n f' where new: "native_new cfg db True mg f = (n, f')" by (metis prod.collapse)
  note fields = native_new_fields [OF new] and ids = native_fresh_ids [OF fs new]
  have "native_ok pre (n, f')" by (rule native_fresh_ok [OF fs pre pool num new])
  moreover have "pending n = 0" using fields(3,4) by (simp add: pending_def active_entries_def mt_new_def)
  moreover have "sm_dbPath (nt_sst n) = db" by (simp add: fields(2) sst_new_def recoverState_def Let_def split: prod.split)
  ultimately show ?thesis
    using native_fresh_inv [OF fs pre new] ids(1) unfolding new native_at_def native_ok_def
    by (auto simp: log_ok_def)
qed

end
