(* ===== verification/Native_Laws.thy ===== *)
theory Native_Laws
  imports Native_Ops
begin

text \<open>
  The properties of the native store as a whole: what a run of its threads keeps, what
  survives a close and a new start, what lookups and listings answer, and two interleavings
  in which they do not answer what was written last.
\<close>

section \<open>A sample store\<close>

text \<open>A new database under the default configuration, and the same with one entry.\<close>

definition sample_native :: native_state where
  "sample_native = native_new default_config ''db'' True 0 fs_empty"

definition sample_written :: native_state where
  "sample_written = (case seq_mutation good_io Put ''k'' ''v'' False sample_native of
     Returns (b, s) \<Rightarrow> s | _ \<Rightarrow> sample_native)"

definition sample_closed :: native_state where
  "sample_closed = (case seq_close good_io sample_written of Returns s \<Rightarrow> s | _ \<Rightarrow> sample_native)"

abbreviation sample_start :: native_sys where
  "sample_start \<equiv> sys_start (fst sample_native) (snd sample_native)"

lemma fs_empty_ok [simp]: "fs_ok fs_empty" "fs_small fs_empty"
  by (simp_all add: fs_ok_def fs_small_def fs_empty_def fs_read_def)

lemma sample_new: "native_new default_config ''db'' True 0 fs_empty = (fst sample_native, snd sample_native)"
  by (simp add: sample_native_def)

lemma sample_no_prealloc: "prealloc_ok 0 default_config"
  by (simp add: prealloc_ok_def default_config_def)

lemma sample_ok: "native_ok 0 sample_native"
  using native_fresh_ok(1) [OF fs_empty_ok sample_no_prealloc _ _ _ sample_new] by (simp add: default_config_def)

lemma sample_inv: "sys_inv 0 [] [] [] sample_start"
  by (rule native_fresh_inv [OF fs_empty_ok sample_no_prealloc sample_new])

lemma sample_head: "sm_head (nt_sst (fst sample_native)) = []" "nt_immutable (fst sample_native) = []"
  "nt_active (fst sample_native) = Some mt_new" "next_id (fst sample_native) = 1"
  by code_simp+

lemma log_ok_single: "wf_entry (k, v) \<Longrightarrow> log_ok [(k, v)]"
  by (simp add: log_ok_def length_serialize wf_entry_def)

lemma sample_log:
  assumes "sys_inv pre gens ids h sample_start"
  shows "h = []"
proof -
  from assms have "list_all2 (table_rep pre db f) gens (sm_head (nt_sst (fst sample_native))) \<Longrightarrow> gens = []" for db f
    by (simp add: sample_head)
  with assms have "gens = []" by (auto simp: sys_inv_def tables_ok_def sst_inv_def disk_inv_def Let_def)
  with assms show ?thesis
    by (simp add: sys_inv_def sys_log_def sealed_entries_def worker_entries_def close_entries_def
        active_entries_def sample_head mt_new_def)
qed

lemma sample_room:
  assumes "v \<noteq> MEMTABLE_TOMBSTONE" and wf: "wf_entry (k, v)"
  shows "native_room 0 Put k v sample_native"
proof -
  obtain n f where s: "sample_native = (n, f)" by (cases sample_native)
  have "log_ok (h @ [(k, v)])" if "sys_inv 0 gens ids h (sys_start n f)" for gens ids h
    using sample_log [of 0 gens ids h] that log_ok_single [OF wf] by (simp add: s)
  moreover have "next_id n = 1" "pending n = 0"
    using sample_head by (simp_all add: s pending_def active_entries_def mt_new_def)
  ultimately show ?thesis using assms(1) by (simp add: native_room_def s actual_value_def)
qed

lemma sample_written_ok: "native_ok 0 sample_written"
proof -
  have "''v'' \<noteq> MEMTABLE_TOMBSTONE" "wf_entry (''k'', ''v'')" by (simp_all add: MEMTABLE_TOMBSTONE_def wf_entry_def)
  from native_mutation [OF sample_ok sample_room [OF this], of False] show ?thesis
    by (auto simp: sample_written_def)
qed

lemma sample_closed_eq: "seq_close good_io sample_written = Returns sample_closed"
  by code_simp

section \<open>Runs\<close>

text \<open>
  C3. Exactly once, in order: after any interleaving of writers, barriers, the flush thread, the
  file helpers and \<open>close\<close>, the tables on disk, the memtable being flushed, the queue and the
  active memtable, read one after the other, are the sequence of the writes of the run.
\<close>

theorem log_exactly_once:
  assumes new: "native_new cfg db True mg f = (n, f')" and fs: "fs_ok f" "fs_small f"
    and pre: "prealloc_ok pre cfg"
    and run: "nt_run (sys_start n f') es s" and ok: "log_ok (writes es)"
  shows "\<exists>gens ids. tables_ok pre gens ids s \<and> phases_ok s
    \<and> flushed_entries gens @ worker_entries (ns_worker s) @ close_entries (ns_close s)
        @ queue_entries (nt_immutable (ns_store s)) @ active_entries (ns_store s) = writes es"
  using nt_run_inv [OF run native_fresh_inv [OF fs pre new]] ok
  by (auto simp: sys_inv_def sys_log_def sealed_entries_def)

text \<open>A run of the sample: a write, a barrier that rotates, and the flush thread that takes the memtable.\<close>

abbreviation (input) run_write :: "key \<Rightarrow> val \<Rightarrow> native_sys \<Rightarrow> native_sys" where
  "run_write k v s \<equiv> s\<lparr>ns_store := add_active k v (ns_store s)\<rparr>"

definition sample_one :: native_sys where
  "sample_one = run_write ''k'' ''v'' sample_start"

definition sample_two :: native_sys where
  "sample_two = sample_one\<lparr>ns_store := rotate_memtable (mt_add ''k'' ''v'' mt_new) (ns_store sample_one)\<rparr>"

definition sample_three :: native_sys where
  "sample_three = sample_two\<lparr>ns_store := (ns_store sample_two)\<lparr>nt_immutable := [], nt_flush_in_progress := True\<rparr>,
     ns_worker := FwFlush (mt_add ''k'' ''v'' mt_new)\<rparr>"

lemma sample_ids: "ids_left sample_start" "ids_left sample_one" "ids_left sample_two" "ids_left sample_three"
proof -
  have "nt_sst (ns_store s) = nt_sst (fst sample_native) \<Longrightarrow> ids_left s" for s
    using sample_head(4) by (simp add: ids_left_next_id next_id_def)
  then show "ids_left sample_start" "ids_left sample_one" "ids_left sample_two" "ids_left sample_three"
    by (simp_all add: sample_one_def sample_two_def sample_three_def nt_defs)
qed

lemma sample_run_one: "nt_run sample_start [Wrote ''k'' ''v''] sample_one"
proof -
  have "batch_mutation ''k'' (actual_value Put ''v'') (ns_store sample_start) = Returns (ns_store sample_one)"
    by code_simp
  from w_done [OF this] show ?thesis
    by (intro run1 sample_ids) (simp add: sample_one_def actual_value_def)
qed

lemma sample_run_two: "nt_run sample_one [BarrierEntered] sample_two"
proof -
  have "barrier_enter (ns_store sample_one) = Returns (ns_store sample_two)" by code_simp
  from b_enter [OF this] show ?thesis by (intro run1 sample_ids) (simp add: sample_two_def)
qed

lemma sample_run_three: "nt_run sample_two [Tau] sample_three"
proof -
  have "flush_take (ns_store sample_two) = Returns (Some (mt_add ''k'' ''v'' mt_new), ns_store sample_three)"
    by code_simp
  from f_take [OF _ this] have "nt_step sample_two Tau sample_three"
    by (simp add: sample_three_def sample_two_def sample_one_def)
  then show ?thesis by (intro run1 sample_ids)
qed

lemma sample_run: "nt_run sample_start [Wrote ''k'' ''v'', BarrierEntered, Tau] sample_three"
  using nt_run_trans [OF nt_run_trans [OF sample_run_one sample_run_two] sample_run_three] by simp

theorem log_exactly_once_witness:
  "\<exists>gens ids. tables_ok 0 gens ids sample_three \<and> phases_ok sample_three
    \<and> flushed_entries gens @ worker_entries (ns_worker sample_three) @ close_entries (ns_close sample_three)
        @ queue_entries (nt_immutable (ns_store sample_three)) @ active_entries (ns_store sample_three)
      = [(''k'', ''v'')]"
proof -
  have "log_ok [(''k'', ''v'')]" by (rule log_ok_single) (simp add: wf_entry_def)
  with log_exactly_once [OF sample_new fs_empty_ok sample_no_prealloc sample_run] show ?thesis
    by (simp add: writes_def wrote_def)
qed


text \<open>The sample after the flush thread has written its memtable.\<close>

definition sample_refilled :: native_sys where
  "sample_refilled = (let r = pool_refill good_io (ns_store sample_three) (ns_fs sample_three)
     in sample_three\<lparr>ns_store := fst r, ns_fs := snd r\<rparr>)"

definition sample_flushed :: native_sys where
  "sample_flushed = (case flushMemtableToL0 (mt_add ''k'' ''v'' mt_new) (ns_store sample_refilled) (ns_fs sample_refilled) of
     Returns (n, f) \<Rightarrow> sample_refilled\<lparr>ns_store := n, ns_worker := FwFlushed, ns_fs := f\<rparr> | _ \<Rightarrow> sample_refilled)"

definition sample_idle :: native_sys where
  "sample_idle = sample_flushed\<lparr>ns_store := flush_done (ns_store sample_flushed), ns_worker := FwWait\<rparr>"

lemma sample_run_idle: "\<exists>es. nt_run sample_three es sample_idle \<and> writes es = []"
proof -
  obtain es where r: "nt_run sample_three es sample_refilled" "writes es = []"
    using pool_refill_run [of good_io "ns_store sample_three" "ns_fs sample_three" _ _ sample_three,
        OF prod.collapse [symmetric] refl refl sample_ids(4)]
    unfolding sample_refilled_def Let_def by blast
  have "next_id (ns_store sample_refilled) = 2" "next_id (ns_store sample_flushed) = 2" by code_simp+
  then have ids: "ids_left sample_refilled" "ids_left sample_flushed" by (simp_all add: ids_left_next_id)
  have "ns_worker sample_refilled = FwFlush (mt_add ''k'' ''v'' mt_new)"
    by (simp add: sample_refilled_def sample_three_def Let_def)
  moreover have "flushMemtableToL0 (mt_add ''k'' ''v'' mt_new) (ns_store sample_refilled) (ns_fs sample_refilled)
      = Returns (ns_store sample_flushed, ns_fs sample_flushed)" by code_simp
  then obtain n f where "flushMemtableToL0 (mt_add ''k'' ''v'' mt_new) (ns_store sample_refilled) (ns_fs sample_refilled)
      = Returns (n, f)" by blast
  ultimately have "nt_step sample_refilled Tau sample_flushed" by (simp add: sample_flushed_def f_flush)
  then have "nt_run sample_refilled [Tau] sample_flushed" by (rule run1 [OF _ ids(1)])
  moreover have "ns_worker sample_flushed = FwFlushed" by code_simp
  then have "nt_step sample_flushed Tau sample_idle" unfolding sample_idle_def by (rule f_done)
  then have "nt_run sample_flushed [Tau] sample_idle" by (rule run1 [OF _ ids(2)])
  ultimately have "nt_run sample_three (es @ [Tau] @ [Tau]) sample_idle" using r(1) by (blast intro: nt_run_trans)
  moreover have "writes (es @ [Tau] @ [Tau]) = []" using r(2) by (simp only: writes_simps) (simp add: wrote_def)
  ultimately show ?thesis by blast
qed


text \<open>
  C5. When no memtable is between the queue and its table, a lookup answers the last write of the
  key, and nothing when that write is a deletion or there is none.
\<close>

theorem quiescent_get:
  assumes new: "native_new cfg db True mg f = (n, f')" and fs: "fs_ok f" "fs_small f"
    and pre: "prealloc_ok pre cfg"
    and run: "nt_run (sys_start n f') es s" and ok: "log_ok (writes es)"
    and flight: "no_flight s" and active: "nt_active (ns_store s) \<noteq> None"
  shows "nt_get (ns_store s) (ns_fs s) k = Returns (live (map_of (rev (writes es))) k)"
proof -
  from native_fresh_inv [OF fs pre new] obtain gens ids where inv: "sys_inv pre gens ids (writes es) s"
    using nt_run_inv [OF run] ok by fastforce
  then have "tables_ok pre gens ids s" by (simp add: sys_inv_def)
  from nt_get_visible [OF this active] show ?thesis
    by (simp add: visible_no_flight [OF inv flight] entries_map_def)
qed

theorem quiescent_get_witness:
  "nt_get (ns_store sample_idle) (ns_fs sample_idle) ''k'' = Returns (Some ''v'')"
proof -
  obtain es where r: "nt_run sample_three es sample_idle" "writes es = []" using sample_run_idle by blast
  from nt_run_trans [OF sample_run r(1)] have run: "nt_run sample_start ([Wrote ''k'' ''v'', BarrierEntered, Tau] @ es) sample_idle" .
  have w: "writes ([Wrote ''k'' ''v'', BarrierEntered, Tau] @ es) = [(''k'', ''v'')]"
    using r(2) by (simp only: writes_simps) (simp add: writes_def wrote_def)
  have "log_ok [(''k'', ''v'')]" by (rule log_ok_single) (simp add: wf_entry_def)
  moreover have "no_flight sample_idle" "nt_active (ns_store sample_idle) \<noteq> None"
    by (simp only: no_flight_def, code_simp+)
  ultimately show ?thesis
    using quiescent_get [OF sample_new fs_empty_ok sample_no_prealloc run, of "''k''"]
    unfolding w by (simp add: live_def MEMTABLE_TOMBSTONE_def)
qed

text \<open>
  C26. While the flush thread holds a memtable that is in no table yet, a lookup does not find what
  the memtable holds: a completed write is invisible until its table is indexed.
\<close>

theorem get_misses_in_flight:
  "\<exists>es s. nt_run sample_start es s \<and> writes es = [(''k'', ''v'')] \<and> ns_close s = ClOpen
    \<and> nt_get (ns_store s) (ns_fs s) ''k'' = Returns None"
proof -
  have "writes [Wrote ''k'' ''v'', BarrierEntered, Tau] = [(''k'', ''v'')]" by (simp add: writes_def wrote_def)
  moreover have "ns_close sample_three = ClOpen" by code_simp
  moreover have "nt_get (ns_store sample_three) (ns_fs sample_three) ''k'' = Returns None" by code_simp
  ultimately show ?thesis using sample_run by blast
qed

definition sample_rewritten :: native_sys where
  "sample_rewritten = run_write ''k'' ''w'' sample_two"

definition sample_queued :: native_sys where
  "sample_queued = sample_rewritten\<lparr>ns_store := rotate_memtable (mt_add ''k'' ''w'' mt_new) (ns_store sample_rewritten)\<rparr>"

lemma sample_run_queued: "nt_run sample_two [Wrote ''k'' ''w'', BarrierEntered] sample_queued"
proof -
  have ids: "ids_left sample_rewritten"
    using sample_ids(3) by (simp add: ids_left_def sample_rewritten_def add_active_def)
  have "batch_mutation ''k'' (actual_value Put ''w'') (ns_store sample_two) = Returns (ns_store sample_rewritten)"
    by code_simp
  from w_done [OF this] have "nt_run sample_two [Wrote ''k'' ''w''] sample_rewritten"
    by (intro run1 sample_ids) (simp add: sample_rewritten_def actual_value_def)
  moreover have "barrier_enter (ns_store sample_rewritten) = Returns (ns_store sample_queued)" by code_simp
  from b_enter [OF this] have "nt_run sample_rewritten [BarrierEntered] sample_queued"
    by (intro run1 ids) (simp add: sample_queued_def)
  ultimately show ?thesis using nt_run_trans by fastforce
qed

text \<open>
  C25. With two memtables in the queue, a listing answers the value of the older one, while a
  lookup of the same key answers the newer value.
\<close>

theorem getPrefix_stale:
  "\<exists>es s. nt_run sample_start es s \<and> writes es = [(''k'', ''v''), (''k'', ''w'')] \<and> no_flight s
    \<and> nt_get (ns_store s) (ns_fs s) ''k'' = Returns (Some ''w'')
    \<and> nt_getPrefix (ns_store s) (ns_fs s) ''k'' = Returns (True, [(''k'', ''v'')])"
proof -
  have "nt_run sample_start ([Wrote ''k'' ''v''] @ [BarrierEntered] @ [Wrote ''k'' ''w'', BarrierEntered]) sample_queued"
    by (rule nt_run_trans [OF sample_run_one nt_run_trans [OF sample_run_two sample_run_queued]])
  moreover have "writes ([Wrote ''k'' ''v''] @ [BarrierEntered] @ [Wrote ''k'' ''w'', BarrierEntered]) = [(''k'', ''v''), (''k'', ''w'')]"
    by (simp add: writes_def wrote_def)
  moreover have "no_flight sample_queued" unfolding no_flight_def by code_simp
  moreover have "nt_get (ns_store sample_queued) (ns_fs sample_queued) ''k'' = Returns (Some ''w'')" by code_simp
  moreover have "nt_getPrefix (ns_store sample_queued) (ns_fs sample_queued) ''k'' = Returns (True, [(''k'', ''v'')])"
    by code_simp
  ultimately show ?thesis by blast
qed

section \<open>Sequential use\<close>

text \<open>
  A put or a deletion returns true and changes the answer to a lookup of its own key, to the new
  value or to nothing, and to no other key.
\<close>

theorem mutation_then_get:
  assumes "native_ok pre s" and "native_room pre t k v s"
  shows "\<exists>m s'. (\<forall>q. op_get (native_ops good_io) q s = Returns (m q))
    \<and> op_batchMutation (native_ops good_io) t k v flush s = Returns (True, s') \<and> native_ok pre s'
    \<and> (\<forall>q. op_get (native_ops good_io) q s' = Returns (apply_mutation t k v m q))"
proof -
  from native.mutation [OF assms, of flush] obtain s' where
    "op_batchMutation (native_ops good_io) t k v flush s = Returns (True, s')" "native_ok pre s'"
    "native_content s' = apply_mutation t k v (native_content s)" by blast
  with native.get [OF assms(1)] native.get [of pre s'] show ?thesis by auto
qed

theorem mutation_then_get_witness:
  "\<exists>m s'. op_batchMutation (native_ops good_io) Put ''k'' ''v'' False sample_native = Returns (True, s')
    \<and> op_get (native_ops good_io) ''k'' s' = Returns (Some ''v'')"
proof -
  have "''v'' \<noteq> MEMTABLE_TOMBSTONE" "wf_entry (''k'', ''v'')" by (simp_all add: MEMTABLE_TOMBSTONE_def wf_entry_def)
  from mutation_then_get [OF sample_ok sample_room [OF this], of False] show ?thesis
    by (force simp: apply_mutation_def)
qed

text \<open>
  After a barrier a listing under a prefix answers, in key order, exactly the keys with that prefix
  and the values that lookups answer.
\<close>

theorem barrier_then_scan:
  assumes "native_ok pre s"
  shows "\<exists>s' b xs. op_writeBarrier (native_ops good_io) s = Returns (True, s') \<and> native_ok pre s'
    \<and> op_getPrefix (native_ops good_io) p s' = Returns (b, xs) \<and> sorted (map fst xs) \<and> distinct (map fst xs)
    \<and> (\<forall>q v. (q, v) \<in> set xs \<longleftrightarrow> prefix p q \<and> op_get (native_ops good_io) q s = Returns (Some v))"
proof -
  from native.write_barrier [OF assms] obtain s' where s': "op_writeBarrier (native_ops good_io) s = Returns (True, s')"
    "native_ok pre s'" "native_content s' = native_content s" "native_scannable s'" by blast
  from native.scan [OF s'(2,4), of p] obtain b xs where xs: "op_getPrefix (native_ops good_io) p s' = Returns (b, xs)"
    "omap_ok xs" "map_of xs = native_content s' |` with_prefix p" by blast
  have d: "sorted (map fst xs)" "distinct (map fst xs)"
    using xs(2) omap_ok_distinct [OF xs(2)] by (simp_all add: omap_ok_def strict_sorted_imp_sorted)
  have "(q, v) \<in> set xs \<longleftrightarrow> prefix p q \<and> native_content s q = Some v" for q v
    using map_of_eq_Some_iff [OF d(2), of q v] xs(3) s'(3) by (auto simp: restrict_map_def with_prefix_def split: if_splits)
  with s' xs(1) d native.get [OF assms] show ?thesis by auto
qed

theorem barrier_then_scan_witness:
  "\<exists>s' b xs. op_writeBarrier (native_ops good_io) sample_written = Returns (True, s')
    \<and> op_getPrefix (native_ops good_io) ''k'' s' = Returns (b, xs) \<and> (''k'', ''v'') \<in> set xs"
proof -
  have "op_get (native_ops good_io) ''k'' sample_written = Returns (Some ''v'')" by code_simp
  with barrier_then_scan [OF sample_written_ok, of "''k''"] show ?thesis by fastforce
qed


lemma sample_closed_files: "max_file_id (found_files ''db'' (snd sample_closed)) = 1"
proof -
  have "dir_entries ''db'' (snd sample_closed) = [(''L0-'' @ padded_id 1 @ ''.sst'', l0_file ''db'' 1)]" by code_simp
  then have "found_files ''db'' (snd sample_closed) = [(1, l0_file ''db'' 1)]"
    by (simp only: found_files_def List.map_filter_simps found_file_l0 option.case)
  then show ?thesis by (simp add: max_file_id_def word_greater_zero_iff)
qed

lemma sample_closed_room: "max_file_id (found_files ''db'' (snd sample_closed)) < - 1"
  unfolding sample_closed_files by code_simp


section \<open>Tables\<close>

text \<open>
  C20. A manager built anew over the directory of another one answers as that one did, and no file has
  a number from which its pool will take new ones.
\<close>

theorem recovery_keeps_content:
  assumes disk: "disk_inv pre (sm_dbPath mgr) gens (sm_head mgr) f"
    and room: "max_file_id (found_files (sm_dbPath mgr) f) < - 1"
    and n: "n \<noteq> 0 \<longrightarrow> pre \<noteq> 0" "unat n < 2 ^ 63" and k: "k \<noteq> [] \<or> pre = 0"
  shows "sst_get f (sst_new (sm_dbPath mgr) sz n f) k = sst_get f mgr k
    \<and> (\<exists>p. sm_filePool (sst_new (sm_dbPath mgr) sz n f) = Some p \<and> fp_pool p = []
         \<and> (\<forall>i. fp_next_id p \<le> i \<longrightarrow> fs_read f (pool_path p i) = None))"
proof -
  let ?new = "sst_new (sm_dbPath mgr) sz n f"
  have inv: "sst_inv pre (recovered_gens (sm_dbPath mgr) f gens) [] ?new f" by (rule sst_new_inv [OF disk room n])
  then have "sst_get f ?new k = gens_map (recovered_gens (sm_dbPath mgr) f gens) k"
    by (auto simp: sst_inv_def sst_get_gens)
  also have "\<dots> = sst_get f mgr k" using gens_map_recovered [OF disk k] sst_get_gens [OF disk] by simp
  finally show ?thesis using inv by (auto simp: sst_inv_def pool_inv_def)
qed

theorem recovery_keeps_content_witness:
  "sst_get (snd sample_closed) (sst_new ''db'' 4 0 (snd sample_closed)) ''k'' = Some ''v''"
proof -
  obtain n f where s: "sample_written = (n, f)" by (cases sample_written)
  obtain n' f' where c: "sample_closed = (n', f')" by (cases sample_closed)
  have e: "sm_dbPath (nt_sst (fst sample_written)) = ''db''" "sm_dbPath (nt_sst (fst sample_closed)) = ''db''"
    "sst_get (snd sample_closed) (nt_sst (fst sample_closed)) ''k'' = Some ''v''" by code_simp+
  have room: "max_file_id (found_files ''db'' f') < - 1" using sample_closed_room unfolding c snd_conv .
  obtain gens0 ids0 h where "sys_inv 0 gens0 ids0 h (sys_start n f)" "log_ok h" "next_id n + pending n < 2 ^ 64 - 1" "0 < pool_size n"
    using sample_written_ok unfolding s native_ok_def by auto
  from seq_close_spec [OF this] obtain gens where
    "disk_inv 0 ''db'' gens (sm_head (nt_sst n')) f'" using sample_closed_eq e(1) unfolding s c by auto
  then have disk: "disk_inv 0 (sm_dbPath (nt_sst n')) gens (sm_head (nt_sst n')) f'"
    using e(2) unfolding c fst_conv by metis
  show ?thesis
    using recovery_keeps_content [OF disk, of 0 "''k''" 4] room e(2,3) by (simp add: c)
qed

section \<open>Bounds\<close>

text \<open>
  C29. A mutation leaves at most \<open>_max_immutable_memtables\<close> memtables in the queue, unless there were
  more before; one that had waited leaves at most that many in any case.
\<close>

theorem queue_bound:
  assumes "batch_mutation k v n = Returns n' \<or> batch_resume k v n = Returns n'"
  shows "length (nt_immutable n') \<le> max (length (nt_immutable n)) (unat (nt_max_immutable_memtables n))
    \<and> (batch_resume k v n = Returns n' \<longrightarrow> length (nt_immutable n') \<le> unat (nt_max_immutable_memtables n))"
  using assms batch_mutation_queue [of k v n n'] batch_resume_queue [of k v n n'] by auto

theorem queue_bound_witness:
  "length (nt_immutable (rotate_memtable mt_new (fst sample_native))) \<le> 4"
proof -
  let ?n = "fst sample_native" and ?n' = "add_active ''k'' ''v'' (rotate_memtable mt_new (fst sample_native))"
  have "unat (nt_max_immutable_memtables ?n) = 4" by code_simp
  moreover have "batch_resume ''k'' ''v'' ?n = Returns ?n'"
    using sample_head(2,3) calculation by (simp add: batch_resume_def has_room_def)
  ultimately show ?thesis using queue_bound [of "''k''" "''v''" ?n ?n'] sample_head(2) by (simp add: nt_defs)
qed

end
