(* ===== verification/Kv_Db.thy ===== *)
theory Kv_Db
  imports Store
begin

text \<open>
  The interface of the key/value libraries behind \<open>store_ldb.cpp\<close> and \<open>store_rdb.cpp\<close>
  (\<open>leveldb::DB\<close>, \<open>rocksdb::DB\<close>). The libraries are not part of the repository: they are a
  record of functions over an abstract database state, a parameter of the definitions of the
  two stores. \<open>kv_db_laws\<close> states what their documentation promises of a database on a
  healthy disk.
\<close>

section \<open>Batches\<close>

datatype write_op = WPut key val | WDelete key

fun apply_op :: "(key \<rightharpoonup> val) \<Rightarrow> write_op \<Rightarrow> key \<rightharpoonup> val" where
  "apply_op m (WPut k v) = m(k \<mapsto> v)"
| "apply_op m (WDelete k) = m(k := None)"

definition apply_ops :: "write_op list \<Rightarrow> (key \<rightharpoonup> val) \<Rightarrow> key \<rightharpoonup> val" where
  "apply_ops ops m = foldl apply_op m ops"

lemma apply_ops_simps [simp]:
  "apply_ops [] m = m" "apply_ops [x] m = apply_op m x" "apply_ops (ops @ [x]) m = apply_op (apply_ops ops m) x"
  by (simp_all add: apply_ops_def)

section \<open>The database functions\<close>

text \<open>
  \<open>kd_seek\<close> is the iterator after \<open>Seek(key)\<close>: the remaining entries in iteration order.
  Booleans are \<open>Status::ok()\<close>; a lookup is ok exactly when it finds the key.
\<close>

record 'd kv_db =
  kd_get :: "key \<Rightarrow> 'd \<Rightarrow> val option"
  kd_put :: "key \<Rightarrow> val \<Rightarrow> 'd \<Rightarrow> bool \<times> 'd"
  kd_delete :: "key \<Rightarrow> 'd \<Rightarrow> bool \<times> 'd"
  kd_write :: "write_op list \<Rightarrow> 'd \<Rightarrow> bool \<times> 'd"
  kd_seek :: "key \<Rightarrow> 'd \<Rightarrow> (key \<times> val) list"
  kd_iter_ok :: "'d \<Rightarrow> bool"
  kd_flush :: "'d \<Rightarrow> bool \<times> 'd"

definition kv_db_laws :: "'d kv_db \<Rightarrow> ('d \<Rightarrow> key \<rightharpoonup> val) \<Rightarrow> bool" where
  "kv_db_laws db repr \<longleftrightarrow>
     (\<forall>d k. kd_get db k d = repr d k)
     \<and> (\<forall>d k v. fst (kd_put db k v d) \<and> repr (snd (kd_put db k v d)) = (repr d)(k \<mapsto> v))
     \<and> (\<forall>d k. fst (kd_delete db k d) \<and> repr (snd (kd_delete db k d)) = (repr d)(k := None))
     \<and> (\<forall>d ops. fst (kd_write db ops d) \<and> repr (snd (kd_write db ops d)) = apply_ops ops (repr d))
     \<and> (\<forall>d k. omap_ok (kd_seek db k d) \<and> map_of (kd_seek db k d) = repr d |` {k'. k \<le> k'})
     \<and> (\<forall>d. kd_iter_ok db d)
     \<and> (\<forall>d. fst (kd_flush db d) \<and> repr (snd (kd_flush db d)) = repr d)"

lemma kv_db_laws_D:
  assumes "kv_db_laws db repr"
  shows "kd_get db k d = repr d k"
    and "fst (kd_put db k v d)" and "repr (snd (kd_put db k v d)) = (repr d)(k \<mapsto> v)"
    and "fst (kd_delete db k d)" and "repr (snd (kd_delete db k d)) = (repr d)(k := None)"
    and "fst (kd_write db ops d)" and "repr (snd (kd_write db ops d)) = apply_ops ops (repr d)"
    and "omap_ok (kd_seek db k d)" and "map_of (kd_seek db k d) = repr d |` {k'. k \<le> k'}"
    and "kd_iter_ok db d" and "fst (kd_flush db d)" and "repr (snd (kd_flush db d)) = repr d"
  using assms by (simp_all add: kv_db_laws_def)

section \<open>The iteration over a prefix\<close>

text \<open>\<open>for (it->Seek(key); it->Valid() && it->key().starts_with(key); it->Next())\<close>.\<close>

definition prefix_entries :: "string \<Rightarrow> (key \<times> val) list \<Rightarrow> (key \<times> val) list" where
  "prefix_entries p es = takeWhile (\<lambda>e. take (length p) (fst e) = p) es"

lemma takeWhile_prefix_all:
  "omap_ok (es :: (key \<times> val) list) \<Longrightarrow> \<forall>e \<in> set es. p \<le> fst e \<Longrightarrow>
    takeWhile (\<lambda>e. prefix p (fst e)) es = filter (\<lambda>e. prefix p (fst e)) es"
proof (induction es)
  case (Cons e es)
  show ?case
  proof (cases "prefix p (fst e)")
    case False
    have "\<forall>f \<in> set es. fst e < fst f" using Cons.prems(1) by (cases e) auto
    with False Cons.prems(2) have "\<not> prefix p (fst f)" if "f \<in> set es" for f
      using that prefix_interval [of p "fst e" "fst f"] by (simp add: less_imp_le)
    with False show ?thesis by (simp add: filter_empty_conv)
  qed (use Cons in \<open>cases e; simp\<close>)
qed simp

lemma omap_ok_filter: "omap_ok es \<Longrightarrow> omap_ok (filter P es)"
  by (simp add: omap_ok_def sorted_wrt_map sorted_wrt_filter)

lemma prefix_entries_spec:
  assumes "omap_ok (es :: (key \<times> val) list)" and "map_of es = m |` {k. p \<le> k}"
  shows "omap_ok (prefix_entries p es)" and "map_of (prefix_entries p es) = m |` with_prefix p"
proof -
  have "p \<le> k" if "(k, v) \<in> set es" for k v
  proof -
    have "map_of es k = Some v" using that assms(1) by (simp add: omap_ok_distinct)
    then show ?thesis using assms(2) by (simp add: restrict_map_def split: if_splits)
  qed
  then have "\<forall>e \<in> set es. p \<le> fst e" by auto
  then have f: "prefix_entries p es = filter (\<lambda>e. prefix p (fst e)) es"
    using takeWhile_prefix_all [OF assms(1)] by (simp add: prefix_entries_def take_prefix_iff)
  then show "omap_ok (prefix_entries p es)" using assms(1) by (simp add: omap_ok_filter)
  have "map_of (filter (\<lambda>e. prefix p (fst e)) es) k = (if prefix p k then map_of es k else None)" for k
    by (induction es) auto
  then show "map_of (prefix_entries p es) = m |` with_prefix p"
    using assms(2) by (auto simp: f restrict_map_def with_prefix_def fun_eq_iff prefix_le)
qed

section \<open>A database in memory\<close>

text \<open>An instance of the interface over \<open>std::map\<close>s, which satisfies the laws.\<close>

fun omap_apply :: "(key, val) omap \<Rightarrow> write_op \<Rightarrow> (key, val) omap" where
  "omap_apply m (WPut k v) = omap_put k v m"
| "omap_apply m (WDelete k) = omap_erase k m"

text \<open>Its states are sequences of operations, so that every state is well-formed.\<close>

definition mem_entries :: "write_op list \<Rightarrow> (key, val) omap" where
  "mem_entries d = foldl omap_apply [] d"

definition mem_db :: "write_op list kv_db" where
  "mem_db = \<lparr>kd_get = (\<lambda>k d. map_of (mem_entries d) k),
     kd_put = (\<lambda>k v d. (True, d @ [WPut k v])), kd_delete = (\<lambda>k d. (True, d @ [WDelete k])),
     kd_write = (\<lambda>ops d. (True, d @ ops)),
     kd_seek = (\<lambda>k d. filter (\<lambda>e. k \<le> fst e) (mem_entries d)),
     kd_iter_ok = (\<lambda>d. True), kd_flush = (\<lambda>d. (True, d))\<rparr>"

definition mem_repr :: "write_op list \<Rightarrow> key \<rightharpoonup> val" where
  "mem_repr d = apply_ops d Map.empty"

lemma mem_entries_spec: "omap_ok (mem_entries d) \<and> map_of (mem_entries d) = mem_repr d"
proof (induction d rule: rev_induct)
  case Nil
  show ?case by (simp add: mem_entries_def mem_repr_def)
next
  case (snoc x d)
  then show ?case by (cases x) (simp_all add: mem_entries_def mem_repr_def)
qed

lemma mem_db_laws: "kv_db_laws mem_db mem_repr"
proof -
  have "apply_ops (d @ ops) Map.empty = apply_ops ops (mem_repr d)" for d ops
    by (simp add: mem_repr_def apply_ops_def)
  moreover have "map_of (filter (\<lambda>e. k \<le> fst e) (mem_entries d)) = mem_repr d |` {k'. k \<le> k'}" for k d
  proof -
    have "map_of (filter (\<lambda>e. k \<le> fst e) es) k' = (if k \<le> k' then map_of es k' else None)"
      for es :: "(key \<times> val) list" and k'
      by (induction es) auto
    then show ?thesis using mem_entries_spec [of d] by (auto simp: restrict_map_def fun_eq_iff)
  qed
  ultimately show ?thesis
    using mem_entries_spec
    by (simp add: kv_db_laws_def mem_db_def omap_ok_filter) (simp add: mem_repr_def)
qed

end
