(* ===== verification/Store_Ldb.thy ===== *)
theory Store_Ldb
  imports Kv_Db
begin

text \<open>
  The LevelDB store of \<open>lib/manager/store/store_ldb.cpp\<close>: mutations that are not flushed
  collect in a write batch, which a barrier, a flushed mutation, a full batch or \<open>close\<close>
  hands to the database. What the store holds is the database with the pending batch
  applied; a read sees the database alone.
\<close>

section \<open>State\<close>

record leveldb_options =
  lo_create_if_missing :: bool
  lo_bloom_bits :: "int option"
  lo_compression :: bool
  lo_sync :: bool
  lo_cache :: "int option"
  lo_block_size :: int
  lo_write_buffer_size :: int
  lo_max_file_size :: int

definition ldb_options :: "lsmio_config \<Rightarrow> leveldb_options" where
  "ldb_options cfg = \<lparr>
     lo_create_if_missing = True,
     lo_bloom_bits = (if cfg_useBloomFilter cfg then Some 10 else None),
     lo_compression = cfg_compression cfg,
     lo_sync = cfg_useSync cfg,
     lo_cache = (if 0 < cfg_cacheSize cfg then Some (cfg_cacheSize cfg) else None),
     lo_block_size = cfg_blockSize cfg,
     lo_write_buffer_size = cfg_writeBufferSize cfg,
     lo_max_file_size = cfg_writeFileSize cfg\<rparr>"

record 'd ldb_store =
  ldb_dbPath :: string
  ldb_maxBatchSize :: int
  ldb_maxBatchBytes :: int
  ldb_batchSize :: u32
  ldb_batchBytes :: u32
  ldb_db :: "'d option"
  ldb_batch :: "write_op list option"

text \<open>
  The constructor. \<open>destroy\<close> and \<open>open_db\<close> are \<open>leveldb::DestroyDB\<close> and \<open>leveldb::DB::Open\<close>:
  a failure of either is logged as fatal, which aborts the process before the exception is thrown.
\<close>

definition ldb_dbCleanup :: "(string \<Rightarrow> bool) \<Rightarrow> string \<Rightarrow> bool outcome" where
  "ldb_dbCleanup destroy db = (if destroy db then Returns True else Exits ABORT_CODE)"

definition ldb_new ::
  "(string \<Rightarrow> bool) \<Rightarrow> (leveldb_options \<Rightarrow> string \<Rightarrow> 'd option) \<Rightarrow> lsmio_config \<Rightarrow> string \<Rightarrow> bool
    \<Rightarrow> 'd ldb_store outcome" where
  "ldb_new destroy open_db cfg db overWrite =
     bind_outcome (if overWrite then ldb_dbCleanup destroy db else Returns True) (\<lambda>removed.
       case open_db (ldb_options cfg) db of
        None \<Rightarrow> Exits ABORT_CODE
      | Some d \<Rightarrow> Returns \<lparr>ldb_dbPath = db, ldb_maxBatchSize = cfg_asyncBatchSize cfg,
          ldb_maxBatchBytes = cfg_asyncBatchBytes cfg, ldb_batchSize = 0, ldb_batchBytes = 0,
          ldb_db = Some d, ldb_batch = None\<rparr>)"

section \<open>Operations\<close>

definition ldb_get :: "'d kv_db \<Rightarrow> key \<Rightarrow> 'd ldb_store \<Rightarrow> val option outcome" where
  "ldb_get db k s = (case ldb_db s of None \<Rightarrow> Undefined | Some d \<Rightarrow> Returns (kd_get db k d))"

definition ldb_getPrefix :: "'d kv_db \<Rightarrow> key \<Rightarrow> 'd ldb_store \<Rightarrow> (bool \<times> (key \<times> val) list) outcome" where
  "ldb_getPrefix db k s = (case ldb_db s of None \<Rightarrow> Undefined
     | Some d \<Rightarrow> Returns (kd_iter_ok db d, prefix_entries k (kd_seek db k d)))"

definition ldb_startBatch :: "'d ldb_store \<Rightarrow> bool \<times> 'd ldb_store" where
  "ldb_startBatch s = (case ldb_batch s of Some b \<Rightarrow> (False, s)
     | None \<Rightarrow> (True, s\<lparr>ldb_batch := Some []\<rparr>))"

definition ldb_stopBatch :: "'d kv_db \<Rightarrow> 'd ldb_store \<Rightarrow> (bool \<times> 'd ldb_store) outcome" where
  "ldb_stopBatch db s = (case ldb_batch s of
       None \<Rightarrow> Returns (False, s)
     | Some ops \<Rightarrow> (case ldb_db s of None \<Rightarrow> Undefined
         | Some d \<Rightarrow> (case kd_write db ops d of (okw, d') \<Rightarrow>
             Returns (okw, s\<lparr>ldb_batch := None, ldb_batchSize := 0, ldb_batchBytes := 0, ldb_db := Some d'\<rparr>))))"

definition ldb_op :: "mutation_type \<Rightarrow> key \<Rightarrow> val \<Rightarrow> write_op" where
  "ldb_op t k v = (case t of Put \<Rightarrow> WPut k v | Del \<Rightarrow> WDelete k)"

text \<open>
  \<open>_batchMutation\<close>. The size of the value is compared with \<open>_maxBatchSize\<close>, which elsewhere
  bounds the number of operations; the \<open>int\<close> limits convert to the unsigned type of the other
  operand.
\<close>

definition ldb_direct :: "mutation_type \<Rightarrow> key \<Rightarrow> val \<Rightarrow> bool \<Rightarrow> 'd ldb_store \<Rightarrow> bool" where
  "ldb_direct t k v flush s \<longleftrightarrow>
     flush \<or> (word_of_int (ldb_maxBatchSize s) :: u64) \<le> word_of_nat (length v)"

definition ldb_batch_full :: "val \<Rightarrow> 'd ldb_store \<Rightarrow> bool" where
  "ldb_batch_full v s \<longleftrightarrow> word_of_int (ldb_maxBatchSize s) \<le> ldb_batchSize s + 1
     \<or> word_of_int (ldb_maxBatchBytes s) \<le> ldb_batchBytes s + word_of_nat (length v)"

definition ldb_append :: "write_op \<Rightarrow> val \<Rightarrow> 'd ldb_store \<Rightarrow> 'd ldb_store" where
  "ldb_append x v s = s\<lparr>
     ldb_batch := Some ((case ldb_batch s of None \<Rightarrow> [] | Some ops \<Rightarrow> ops) @ [x]),
     ldb_batchSize := ldb_batchSize s + 1,
     ldb_batchBytes := ldb_batchBytes s + word_of_nat (length v)\<rparr>"

definition ldb_batchMutation ::
  "'d kv_db \<Rightarrow> mutation_type \<Rightarrow> key \<Rightarrow> val \<Rightarrow> bool \<Rightarrow> 'd ldb_store \<Rightarrow> (bool \<times> 'd ldb_store) outcome" where
  "ldb_batchMutation db t k v flush s =
     (if ldb_direct t k v flush s then
        bind_outcome (if ldb_batch s \<noteq> None then ldb_stopBatch db s else Returns (True, s)) (\<lambda>(_, s1).
          case ldb_db s1 of None \<Rightarrow> Undefined | Some d \<Rightarrow>
            (case (case t of Put \<Rightarrow> kd_put db k v d | Del \<Rightarrow> kd_delete db k d) of (okw, d') \<Rightarrow>
               Returns (okw, s1\<lparr>ldb_db := Some d'\<rparr>)))
      else
        bind_outcome (if ldb_batch s \<noteq> None \<and> ldb_batch_full v s then ldb_stopBatch db s
                      else Returns (True, s)) (\<lambda>(_, s1).
          Returns (True, ldb_append (ldb_op t k v) v s1)))"

definition ldb_readBarrier :: "'d kv_db \<Rightarrow> 'd ldb_store \<Rightarrow> (bool \<times> 'd ldb_store) outcome" where
  "ldb_readBarrier db s = bind_outcome (ldb_stopBatch db s) (\<lambda>(_, s'). Returns (True, s'))"

definition ldb_writeBarrier :: "'d kv_db \<Rightarrow> 'd ldb_store \<Rightarrow> (bool \<times> 'd ldb_store) outcome" where
  "ldb_writeBarrier db s = bind_outcome (ldb_stopBatch db s) (\<lambda>(_, s'). Returns (True, s'))"

definition ldb_close :: "'d kv_db \<Rightarrow> 'd ldb_store \<Rightarrow> 'd ldb_store outcome" where
  "ldb_close db s = (case ldb_db s of None \<Rightarrow> Returns s
     | Some d \<Rightarrow> bind_outcome (ldb_writeBarrier db s) (\<lambda>(_, s'). Returns (s'\<lparr>ldb_db := None\<rparr>)))"

definition ldb_ops :: "'d kv_db \<Rightarrow> 'd ldb_store store_ops" where
  "ldb_ops db = \<lparr>op_batchMutation = ldb_batchMutation db, op_get = ldb_get db,
     op_getPrefix = ldb_getPrefix db, op_readBarrier = ldb_readBarrier db,
     op_writeBarrier = ldb_writeBarrier db, op_close = ldb_close db\<rparr>"

section \<open>The contract of the store\<close>

definition pending_ops :: "'d ldb_store \<Rightarrow> write_op list" where
  "pending_ops s = (case ldb_batch s of None \<Rightarrow> [] | Some ops \<Rightarrow> ops)"

definition ldb_ok :: "'d ldb_store \<Rightarrow> bool" where
  "ldb_ok s \<longleftrightarrow> ldb_db s \<noteq> None"

definition ldb_content :: "('d \<Rightarrow> key \<rightharpoonup> val) \<Rightarrow> 'd ldb_store \<Rightarrow> key \<rightharpoonup> val" where
  "ldb_content repr s = (case ldb_db s of None \<Rightarrow> Map.empty | Some d \<Rightarrow> apply_ops (pending_ops s) (repr d))"

definition ldb_readable :: "'d ldb_store \<Rightarrow> bool" where
  "ldb_readable s \<longleftrightarrow> pending_ops s = []"

lemma ldb_stopBatch_spec:
  assumes laws: "kv_db_laws db repr" and "ldb_ok s"
  shows "\<exists>b s'. ldb_stopBatch db s = Returns (b, s') \<and> ldb_ok s' \<and> pending_ops s' = []
    \<and> ldb_batch s' = None \<and> ldb_content repr s' = ldb_content repr s
    \<and> ldb_maxBatchSize s' = ldb_maxBatchSize s"
proof (cases "ldb_batch s")
  case None
  with assms(2) show ?thesis by (auto simp: ldb_stopBatch_def pending_ops_def)
next
  case (Some ops)
  from assms(2) obtain d where d: "ldb_db s = Some d" by (auto simp: ldb_ok_def)
  show ?thesis
    using Some d kv_db_laws_D(7) [OF laws, of ops d]
    by (cases "kd_write db ops d") (simp add: ldb_stopBatch_def pending_ops_def ldb_ok_def ldb_content_def)
qed

lemma apply_op_ldb_op: "apply_op m (ldb_op t k v) = apply_mutation t k v m"
  by (cases t) (simp_all add: ldb_op_def apply_mutation_def)

lemma ldb_append_spec:
  "ldb_ok s \<Longrightarrow> ldb_ok (ldb_append x v s) \<and>
    ldb_content repr (ldb_append x v s) = apply_op (ldb_content repr s) x"
  by (auto simp: ldb_ok_def ldb_append_def ldb_content_def pending_ops_def split: option.splits)

lemma ldb_mutation:
  assumes laws: "kv_db_laws db repr" and ok: "ldb_ok s"
  shows "\<exists>s'. ldb_batchMutation db t k v flush s = Returns (True, s') \<and> ldb_ok s'
    \<and> ldb_content repr s' = apply_mutation t k v (ldb_content repr s)
    \<and> (flush \<and> ldb_readable s \<longrightarrow> ldb_readable s')"
proof (cases "ldb_direct t k v flush s")
  case True
  obtain b s1 where s1: "(if ldb_batch s \<noteq> None then ldb_stopBatch db s else Returns (True, s)) = Returns (b, s1)"
      "ldb_ok s1" "pending_ops s1 = []" "ldb_content repr s1 = ldb_content repr s"
    using ldb_stopBatch_spec [OF laws ok] ok by (cases "ldb_batch s") (auto simp: pending_ops_def)
  then obtain d where d: "ldb_db s1 = Some d" by (auto simp: ldb_ok_def)
  let ?r = "case t of Put \<Rightarrow> kd_put db k v d | Del \<Rightarrow> kd_delete db k d"
  have r: "fst ?r" "repr (snd ?r) = apply_mutation t k v (repr d)"
    using kv_db_laws_D(2-5) [OF laws] by (cases t; simp add: apply_mutation_def)+
  have "ldb_batchMutation db t k v flush s = Returns (True, s1\<lparr>ldb_db := Some (snd ?r)\<rparr>)"
    using True s1(1) d r(1) by (simp add: ldb_batchMutation_def split_beta)
  moreover have "pending_ops (s1\<lparr>ldb_db := Some (snd ?r)\<rparr>) = []" using s1(3) by (simp add: pending_ops_def)
  moreover from this have "ldb_content repr (s1\<lparr>ldb_db := Some (snd ?r)\<rparr>) = apply_mutation t k v (ldb_content repr s)"
    using s1(3,4) d r(2) by (simp add: ldb_content_def)
  ultimately show ?thesis by (simp add: ldb_ok_def ldb_readable_def)
next
  case False
  obtain b s1 where s1: "(if ldb_batch s \<noteq> None \<and> ldb_batch_full v s then ldb_stopBatch db s else Returns (True, s))
      = Returns (b, s1)" "ldb_ok s1" "ldb_content repr s1 = ldb_content repr s"
    using ldb_stopBatch_spec [OF laws ok] ok by (cases "ldb_batch s \<noteq> None \<and> ldb_batch_full v s") auto
  with False ldb_append_spec [OF s1(2), of "ldb_op t k v" v repr] show ?thesis
    by (auto simp: ldb_batchMutation_def apply_op_ldb_op ldb_direct_def)
qed

lemma ldb_store_contract:
  assumes laws: "kv_db_laws db repr"
  shows "lsmio_store (ldb_ops db) ldb_ok (ldb_content repr) ldb_readable ldb_readable (\<lambda>_ _ _ _. True)"
proof (unfold_locales, goal_cases)
  case (1 s t k v flush)
  from ldb_mutation [OF laws this(1)] show ?case by (simp add: ldb_ops_def)
next
  case (2 s k)
  then show ?case
    using kv_db_laws_D(1) [OF laws]
    by (auto simp: ldb_ops_def ldb_get_def ldb_ok_def ldb_readable_def ldb_content_def)
next
  case (3 s p)
  then obtain d where d: "ldb_db s = Some d" "ldb_content repr s = repr d"
    by (auto simp: ldb_ok_def ldb_readable_def ldb_content_def)
  show ?case
    using d prefix_entries_spec [OF kv_db_laws_D(8,9) [OF laws], of p d]
    by (auto simp: ldb_ops_def ldb_getPrefix_def)
next
  case (4 s)
  from ldb_stopBatch_spec [OF laws this] show ?case
    by (auto simp: ldb_ops_def ldb_writeBarrier_def ldb_readable_def)
qed

interpretation ldb_mem: lsmio_store "ldb_ops mem_db" ldb_ok "ldb_content mem_repr" ldb_readable ldb_readable
  "\<lambda>_ _ _ _. True"
  by (rule ldb_store_contract [OF mem_db_laws])

section \<open>Batching\<close>

text \<open>
  With an \<open>asyncBatchSize\<close> of \<open>n\<close>, a value of \<open>n\<close> bytes or more is never batched, whatever the
  flush flag says.
\<close>

lemma large_value_direct:
  assumes "nat (ldb_maxBatchSize s) \<le> length v" and "0 \<le> ldb_maxBatchSize s" and "length v < 2 ^ 64"
  shows "ldb_direct t k v flush s"
proof -
  have "(word_of_int (ldb_maxBatchSize s) :: u64) = word_of_nat (nat (ldb_maxBatchSize s))"
    using assms(2) by simp
  moreover have "nat (ldb_maxBatchSize s) < 2 ^ 64" using assms(1,3) by linarith
  ultimately show ?thesis
    using assms(1,3) unat_u64_of_nat [of "nat (ldb_maxBatchSize s)"]
    by (simp only: ldb_direct_def word_le_nat_alt unat_u64_of_nat) simp
qed

text \<open>\<open>close\<close> hands the pending batch to the database before it drops it.\<close>

lemma ldb_close_spec:
  assumes "kv_db_laws db repr" and "ldb_ok s"
  shows "\<exists>s1 d. ldb_writeBarrier db s = Returns (True, s1) \<and> ldb_db s1 = Some d
    \<and> repr d = ldb_content repr s \<and> ldb_close db s = Returns (s1\<lparr>ldb_db := None\<rparr>)"
proof -
  from ldb_stopBatch_spec [OF assms] obtain b s1 where s1: "ldb_stopBatch db s = Returns (b, s1)"
    "ldb_ok s1" "pending_ops s1 = []" "ldb_content repr s1 = ldb_content repr s" by blast
  then obtain d where d: "ldb_db s1 = Some d" by (auto simp: ldb_ok_def)
  with s1(3,4) have "repr d = ldb_content repr s" by (simp add: ldb_content_def)
  with s1(1) d assms(2) show ?thesis
    by (auto simp: ldb_writeBarrier_def ldb_close_def ldb_ok_def)
qed

section \<open>Properties\<close>

definition sample_ldb :: "write_op list ldb_store" where
  "sample_ldb = \<lparr>ldb_dbPath = ''db'', ldb_maxBatchSize = 512, ldb_maxBatchBytes = 1024, ldb_batchSize = 1,
     ldb_batchBytes = 1, ldb_db = Some [WPut ''k'' ''0''], ldb_batch = Some [WPut ''k'' ''1'']\<rparr>"

text \<open>
  \<open>close\<close> hands the pending batch to the database before it drops it.
\<close>

theorem ldb_close_flushes:
  assumes "kv_db_laws db repr" and "ldb_ok s"
  shows "\<exists>s1 d. ldb_writeBarrier db s = Returns (True, s1) \<and> ldb_db s1 = Some d
    \<and> repr d = ldb_content repr s \<and> ldb_close db s = Returns (s1\<lparr>ldb_db := None\<rparr>)"
  using assms by (rule ldb_close_spec)

theorem ldb_close_flushes_witness:
  "\<exists>s1 d. ldb_writeBarrier mem_db sample_ldb = Returns (True, s1) \<and> ldb_db s1 = Some d
    \<and> mem_repr d ''k'' = Some ''1'' \<and> ldb_close mem_db sample_ldb = Returns (s1\<lparr>ldb_db := None\<rparr>)"
proof -
  have "ldb_ok sample_ldb" by (simp add: ldb_ok_def sample_ldb_def)
  moreover have "ldb_content mem_repr sample_ldb ''k'' = Some ''1''"
    by (simp add: ldb_content_def sample_ldb_def pending_ops_def mem_repr_def)
  ultimately show ?thesis using ldb_close_flushes [OF mem_db_laws, of sample_ldb] by auto
qed

end
