(* ===== verification/Store_Rdb.thy ===== *)
theory Store_Rdb
  imports Kv_Db
begin

text \<open>
  The RocksDB store of \<open>lib/manager/store/store_rdb.cpp\<close>: every mutation goes to the database
  at once, the batch functions do nothing, and the write barrier flushes the database.
\<close>

section \<open>State\<close>

record rocksdb_options =
  ro_create_if_missing :: bool
  ro_bloom_bits :: "int option"
  ro_compression :: bool
  ro_block_cache :: "int option"
  ro_block_size :: int
  ro_write_buffer_size :: int
  ro_max_write_buffer_number :: int
  ro_writable_file_max_buffer_size :: int
  ro_max_write_batch_group_size_bytes :: int
  ro_level0_file_num_compaction_trigger :: int
  ro_disable_auto_compactions :: bool
  ro_allow_mmap_writes :: bool
  ro_allow_mmap_reads :: bool
  ro_allow_fallocate :: bool
  ro_max_successive_merges :: int
  ro_disableWAL :: bool
  ro_sync :: bool

text \<open>Synchronous writes need the write-ahead log: without it the setting is ignored.\<close>

definition rdb_options :: "lsmio_config \<Rightarrow> rocksdb_options" where
  "rdb_options cfg = \<lparr>
     ro_create_if_missing = True,
     ro_bloom_bits = (if cfg_useBloomFilter cfg then Some 10 else None),
     ro_compression = cfg_compression cfg,
     ro_block_cache = (if 0 < cfg_cacheSize cfg then Some (cfg_cacheSize cfg) else None),
     ro_block_size = cfg_blockSize cfg,
     ro_write_buffer_size = cfg_writeBufferSize cfg,
     ro_max_write_buffer_number = cfg_writeBufferNumber cfg,
     ro_writable_file_max_buffer_size = cfg_writeFileSize cfg,
     ro_max_write_batch_group_size_bytes = cfg_asyncBatchBytes cfg,
     ro_level0_file_num_compaction_trigger = 1024,
     ro_disable_auto_compactions = True,
     ro_allow_mmap_writes = cfg_enableMMAP cfg,
     ro_allow_mmap_reads = cfg_enableMMAP cfg,
     ro_allow_fallocate = cfg_preAllocate cfg,
     ro_max_successive_merges = 4096,
     ro_disableWAL = (\<not> cfg_enableWAL cfg),
     ro_sync = (cfg_useSync cfg \<and> cfg_enableWAL cfg)\<rparr>"

record 'd rdb_store =
  rdb_dbPath :: string
  rdb_db :: "'d option"

definition rdb_dbCleanup :: "(string \<Rightarrow> bool) \<Rightarrow> string \<Rightarrow> bool outcome" where
  "rdb_dbCleanup destroy db = (if destroy db then Returns True else Exits ABORT_CODE)"

definition rdb_new ::
  "(string \<Rightarrow> bool) \<Rightarrow> (rocksdb_options \<Rightarrow> string \<Rightarrow> 'd option) \<Rightarrow> lsmio_config \<Rightarrow> string \<Rightarrow> bool
    \<Rightarrow> 'd rdb_store outcome" where
  "rdb_new destroy open_db cfg db overWrite =
     bind_outcome (if overWrite then rdb_dbCleanup destroy db else Returns True) (\<lambda>removed.
       case open_db (rdb_options cfg) db of
        None \<Rightarrow> Exits ABORT_CODE
      | Some d \<Rightarrow> Returns \<lparr>rdb_dbPath = db, rdb_db = Some d\<rparr>)"

section \<open>Operations\<close>

definition rdb_get :: "'d kv_db \<Rightarrow> key \<Rightarrow> 'd rdb_store \<Rightarrow> val option outcome" where
  "rdb_get db k s = (case rdb_db s of None \<Rightarrow> Undefined | Some d \<Rightarrow> Returns (kd_get db k d))"

definition rdb_getPrefix :: "'d kv_db \<Rightarrow> key \<Rightarrow> 'd rdb_store \<Rightarrow> (bool \<times> (key \<times> val) list) outcome" where
  "rdb_getPrefix db k s = (case rdb_db s of None \<Rightarrow> Undefined
     | Some d \<Rightarrow> Returns (kd_iter_ok db d, prefix_entries k (kd_seek db k d)))"

definition rdb_batchMutation ::
  "'d kv_db \<Rightarrow> mutation_type \<Rightarrow> key \<Rightarrow> val \<Rightarrow> bool \<Rightarrow> 'd rdb_store \<Rightarrow> (bool \<times> 'd rdb_store) outcome" where
  "rdb_batchMutation db t k v flush s = (case rdb_db s of None \<Rightarrow> Undefined | Some d \<Rightarrow>
     (case (case t of Put \<Rightarrow> kd_put db k v d | Del \<Rightarrow> kd_delete db k d) of (okw, d') \<Rightarrow>
        Returns (okw, s\<lparr>rdb_db := Some d'\<rparr>)))"

definition rdb_startBatch :: "'d rdb_store \<Rightarrow> bool \<times> 'd rdb_store" where
  "rdb_startBatch s = (True, s)"

definition rdb_stopBatch :: "'d rdb_store \<Rightarrow> bool \<times> 'd rdb_store" where
  "rdb_stopBatch s = (True, s)"

definition rdb_readBarrier :: "'d rdb_store \<Rightarrow> (bool \<times> 'd rdb_store) outcome" where
  "rdb_readBarrier s = Returns (True, s)"

definition rdb_writeBarrier :: "'d kv_db \<Rightarrow> 'd rdb_store \<Rightarrow> (bool \<times> 'd rdb_store) outcome" where
  "rdb_writeBarrier db s = (case rdb_db s of None \<Rightarrow> Undefined | Some d \<Rightarrow>
     (case kd_flush db d of (okf, d') \<Rightarrow> Returns (okf, s\<lparr>rdb_db := Some d'\<rparr>)))"

definition rdb_close :: "'d kv_db \<Rightarrow> 'd rdb_store \<Rightarrow> 'd rdb_store outcome" where
  "rdb_close db s = (case rdb_db s of None \<Rightarrow> Returns s
     | Some d \<Rightarrow> bind_outcome (rdb_writeBarrier db s) (\<lambda>(_, s'). Returns (s'\<lparr>rdb_db := None\<rparr>)))"

definition rdb_ops :: "'d kv_db \<Rightarrow> 'd rdb_store store_ops" where
  "rdb_ops db = \<lparr>op_batchMutation = rdb_batchMutation db, op_get = rdb_get db,
     op_getPrefix = rdb_getPrefix db, op_readBarrier = rdb_readBarrier,
     op_writeBarrier = rdb_writeBarrier db, op_close = rdb_close db\<rparr>"

section \<open>The contract of the store\<close>

definition rdb_ok :: "'d rdb_store \<Rightarrow> bool" where
  "rdb_ok s \<longleftrightarrow> rdb_db s \<noteq> None"

definition rdb_content :: "('d \<Rightarrow> key \<rightharpoonup> val) \<Rightarrow> 'd rdb_store \<Rightarrow> key \<rightharpoonup> val" where
  "rdb_content repr s = (case rdb_db s of None \<Rightarrow> Map.empty | Some d \<Rightarrow> repr d)"

lemma rdb_mutation:
  assumes laws: "kv_db_laws db repr" and ok: "rdb_ok s"
  shows "\<exists>s'. rdb_batchMutation db t k v flush s = Returns (True, s') \<and> rdb_ok s'
    \<and> rdb_content repr s' = apply_mutation t k v (rdb_content repr s)"
proof -
  from ok obtain d where d: "rdb_db s = Some d" by (auto simp: rdb_ok_def)
  let ?r = "case t of Put \<Rightarrow> kd_put db k v d | Del \<Rightarrow> kd_delete db k d"
  have r: "fst ?r" "repr (snd ?r) = apply_mutation t k v (repr d)"
    using kv_db_laws_D(2-5) [OF laws] by (cases t; simp add: apply_mutation_def)+
  then have "rdb_batchMutation db t k v flush s = Returns (True, s\<lparr>rdb_db := Some (snd ?r)\<rparr>)"
    using d by (simp add: rdb_batchMutation_def split_beta)
  with r d show ?thesis by (simp add: rdb_ok_def rdb_content_def)
qed

lemma rdb_store_contract:
  assumes laws: "kv_db_laws db repr"
  shows "lsmio_store (rdb_ops db) rdb_ok (rdb_content repr) (\<lambda>_. True) (\<lambda>_. True) (\<lambda>_ _ _ _. True)"
proof (unfold_locales, goal_cases)
  case (1 s t k v flush)
  from rdb_mutation [OF laws this(1)] show ?case by (simp add: rdb_ops_def)
next
  case (2 s k)
  then show ?case
    using kv_db_laws_D(1) [OF laws]
    by (auto simp: rdb_ops_def rdb_get_def rdb_ok_def rdb_content_def)
next
  case (3 s p)
  then obtain d where d: "rdb_db s = Some d" by (auto simp: rdb_ok_def)
  show ?case
    using d prefix_entries_spec [OF kv_db_laws_D(8,9) [OF laws], of p d]
    by (auto simp: rdb_ops_def rdb_getPrefix_def rdb_content_def)
next
  case (4 s)
  then obtain d where d: "rdb_db s = Some d" by (auto simp: rdb_ok_def)
  show ?case
    using d kv_db_laws_D(11,12) [OF laws, of d]
    by (auto simp: rdb_ops_def rdb_writeBarrier_def rdb_ok_def rdb_content_def split_beta)
qed

interpretation rdb_mem: lsmio_store "rdb_ops mem_db" rdb_ok "rdb_content mem_repr" "\<lambda>_. True" "\<lambda>_. True"
  "\<lambda>_ _ _ _. True"
  by (rule rdb_store_contract [OF mem_db_laws])

section \<open>Properties\<close>

text \<open>
  Over any database that satisfies the laws, a mutation is visible to lookups and listings at once.
\<close>

theorem rdb_mutation_get:
  assumes laws: "kv_db_laws db repr" and ok: "rdb_ok s"
  shows "\<exists>s1. rdb_batchMutation db t k v flush s = Returns (True, s1) \<and> rdb_ok s1
    \<and> (\<forall>q. rdb_get db q s1 = Returns (apply_mutation t k v (rdb_content repr s) q))
    \<and> (\<exists>b xs. rdb_getPrefix db p s1 = Returns (b, xs)
         \<and> map_of xs = apply_mutation t k v (rdb_content repr s) |` with_prefix p)"
proof -
  note c = rdb_store_contract [OF laws]
  from rdb_mutation [OF laws ok, of t k v flush] obtain s1 where 1: "rdb_batchMutation db t k v flush s = Returns (True, s1)"
    "rdb_ok s1" "rdb_content repr s1 = apply_mutation t k v (rdb_content repr s)" by blast
  have "rdb_get db q s1 = Returns (rdb_content repr s1 q)" for q
    using lsmio_store.get [OF c 1(2), of q] by (simp add: rdb_ops_def)
  moreover have "\<exists>b xs. rdb_getPrefix db p s1 = Returns (b, xs) \<and> map_of xs = rdb_content repr s1 |` with_prefix p"
    using lsmio_store.scan [OF c 1(2), of p] by (auto simp: rdb_ops_def)
  ultimately show ?thesis using 1 by auto
qed

theorem rdb_mutation_get_witness:
  "\<exists>s1. rdb_batchMutation mem_db Del ''k'' [] False \<lparr>rdb_dbPath = ''db'', rdb_db = Some [WPut ''k'' ''0'']\<rparr> = Returns (True, s1)
    \<and> rdb_get mem_db ''k'' s1 = Returns None"
proof -
  let ?s = "\<lparr>rdb_dbPath = ''db'', rdb_db = Some [WPut ''k'' ''0'']\<rparr>"
  have "rdb_ok ?s" by (simp add: rdb_ok_def)
  from rdb_mutation_get [OF mem_db_laws this, of Del "''k''" "[]" False "[]"] show ?thesis
    by (auto simp: apply_mutation_def)
qed

end
