(* ===== verification/Client.thy ===== *)
theory Client
  imports Config
begin

text \<open>
  The collective-I/O client and server of \<open>lib/manager/client/client.cpp\<close>: the text format of
  a command, and the server loop that collects one message of every other rank per round and
  hands each to a callback. MPI is the transport: between two ranks it delivers whole
  messages in the order they were sent, so the messages of a rank that the server has not
  received yet are a queue, and \<open>MPI_Probe\<close> on an empty queue waits.
\<close>

section \<open>Commands\<close>

definition CMD_GET :: string where "CMD_GET = ''get''"
definition CMD_PUT :: string where "CMD_PUT = ''put''"
definition CMD_DEL :: string where "CMD_DEL = ''del''"
definition CMD_META_GET :: string where "CMD_META_GET = ''metaGet''"
definition CMD_META_GET_ALL :: string where "CMD_META_GET_ALL = ''metaGetAll''"
definition CMD_META_PUT :: string where "CMD_META_PUT = ''metaPut''"
definition CMD_READ_BARRIER :: string where "CMD_READ_BARRIER = ''rBarrier''"
definition CMD_WRITE_BARRIER :: string where "CMD_WRITE_BARRIER = ''wBarrier''"

definition RET_GET :: string where "RET_GET = ''getBack''"
definition RET_META_GET :: string where "RET_META_GET = ''metaGetBack''"
definition RET_META_GET_ALL :: string where "RET_META_GET_ALL = ''metaGetAllBack''"
definition RET_READ_BARRIER :: string where "RET_READ_BARRIER = ''rBarrierBack''"
definition RET_WRITE_BARRIER :: string where "RET_WRITE_BARRIER = ''wBarrierBack''"

definition KV_DUMMY :: string where "KV_DUMMY = ''DUMMY''"
definition EOL_COMMAND :: string where "EOL_COMMAND = ''__EOL''"

lemmas cmd_defs [lsm_defs] = CMD_GET_def CMD_PUT_def CMD_DEL_def CMD_META_GET_def CMD_META_GET_ALL_def
  CMD_META_PUT_def CMD_READ_BARRIER_def CMD_WRITE_BARRIER_def RET_GET_def RET_META_GET_def
  RET_META_GET_ALL_def RET_READ_BARRIER_def RET_WRITE_BARRIER_def KV_DUMMY_def EOL_COMMAND_def

section \<open>The message format\<close>

definition serializeCmd :: "string \<Rightarrow> string \<Rightarrow> string \<Rightarrow> string \<Rightarrow> string" where
  "serializeCmd buf command k value = buf @ command @ '';'' @ k @ '';'' @ value"

text \<open>
  \<open>strchr\<close> on the received bytes: it stops at a NUL byte (a null result, from which the code
  computes a length) and, as the buffer is not terminated, it may run off its end.
\<close>

fun strchr :: "char \<Rightarrow> string \<Rightarrow> nat option" where
  "strchr c [] = None"
| "strchr c (x # xs) =
     (if x = c then Some 0
      else if x = CHR 0x00 then None
      else map_option Suc (strchr c xs))"

definition deSerializeCmd :: "string \<Rightarrow> (string \<times> string \<times> string) outcome" where
  "deSerializeCmd buf = (case strchr (CHR '';'') buf of
       None \<Rightarrow> Undefined
     | Some cmdSize \<Rightarrow>
         let command = take cmdSize buf; rest = drop (cmdSize + 1) buf
         in case strchr (CHR '';'') rest of
              None \<Rightarrow> Undefined
            | Some keySize \<Rightarrow> Returns (command, take keySize rest, drop (keySize + 1) rest))"

text \<open>A string that survives as a command or key: no separator and no NUL byte.\<close>

definition plain :: "string \<Rightarrow> bool" where
  "plain s \<longleftrightarrow> CHR '';'' \<notin> set s \<and> CHR 0x00 \<notin> set s"

lemma plain_simps [simp]: "plain []" "plain (c # s) \<longleftrightarrow> c \<noteq> CHR '';'' \<and> c \<noteq> CHR 0x00 \<and> plain s"
  "plain (s @ t) \<longleftrightarrow> plain s \<and> plain t"
  by (auto simp: plain_def)

lemma strchr_plain: "plain s \<Longrightarrow> strchr (CHR '';'') (s @ CHR '';'' # t) = Some (length s)"
  by (induction s) auto

lemma deSerialize_serialize:
  "plain command \<Longrightarrow> plain k \<Longrightarrow>
    deSerializeCmd (serializeCmd [] command k value) = Returns (command, k, value)"
  by (simp add: deSerializeCmd_def serializeCmd_def strchr_plain)

text \<open>A separator in the key moves the rest of the key into the value.\<close>

lemma deSerialize_separator:
  "plain command \<Longrightarrow> plain k1 \<Longrightarrow>
    deSerializeCmd (serializeCmd [] command (k1 @ CHR '';'' # k2) value) =
      Returns (command, k1, k2 @ CHR '';'' # value)"
  by (simp add: deSerializeCmd_def serializeCmd_def strchr_plain)

lemma plain_commands [simp]:
  "plain CMD_GET" "plain CMD_PUT" "plain CMD_DEL" "plain CMD_META_GET" "plain CMD_META_GET_ALL"
  "plain CMD_META_PUT" "plain CMD_READ_BARRIER" "plain CMD_WRITE_BARRIER" "plain RET_GET"
  "plain RET_META_GET" "plain RET_META_GET_ALL" "plain RET_READ_BARRIER" "plain RET_WRITE_BARRIER"
  "plain KV_DUMMY" "plain EOL_COMMAND"
  by (simp_all add: cmd_defs)

section \<open>Replies\<close>

definition reply_command :: "string \<Rightarrow> string option" where
  "reply_command cmd =
     (if cmd = CMD_GET then Some RET_GET
      else if cmd = CMD_META_GET then Some RET_META_GET
      else if cmd = CMD_META_GET_ALL then Some RET_META_GET_ALL
      else if cmd = CMD_READ_BARRIER then Some RET_READ_BARRIER
      else if cmd = CMD_WRITE_BARRIER then Some RET_WRITE_BARRIER
      else None)"

lemma reply_command_simps [simp]:
  "reply_command CMD_GET = Some RET_GET" "reply_command CMD_PUT = None" "reply_command CMD_DEL = None"
  "reply_command CMD_META_GET = Some RET_META_GET"
  "reply_command CMD_META_GET_ALL = Some RET_META_GET_ALL" "reply_command CMD_META_PUT = None"
  "reply_command CMD_READ_BARRIER = Some RET_READ_BARRIER"
  "reply_command CMD_WRITE_BARRIER = Some RET_WRITE_BARRIER"
  by (simp_all add: reply_command_def cmd_defs)

section \<open>The server loop\<close>

text \<open>
  The state of \<open>_waitForCommand\<close>: the callback's state, the ranks that have sent the end
  command, the messages each rank has sent and the server has not received, and the replies
  sent so far. A callback takes rank, command, key and value and yields the string it stores
  through its result pointer.
\<close>

type_synonym 's callback = "nat \<Rightarrow> string \<Rightarrow> string \<Rightarrow> string \<Rightarrow> 's \<Rightarrow> (string \<times> 's) outcome"

record 's server =
  sv_rank :: nat
  sv_size :: nat
  sv_eol :: "bool list"
  sv_inbox :: "string list list"
  sv_outbox :: "(nat \<times> string) list"
  sv_lm :: 's

definition server_new :: "nat \<Rightarrow> nat \<Rightarrow> string list list \<Rightarrow> 's \<Rightarrow> 's server" where
  "server_new rank nranks inbox lm = \<lparr>sv_rank = rank, sv_size = nranks, sv_eol = replicate nranks False,
     sv_inbox = inbox, sv_outbox = [], sv_lm = lm\<rparr>"

definition clients :: "'s server \<Rightarrow> nat list" where
  "clients sv = filter (\<lambda>r. r \<noteq> sv_rank sv) [0..<sv_size sv]"

definition all_shut_down :: "'s server \<Rightarrow> bool" where
  "all_shut_down sv = list_all (\<lambda>r. sv_eol sv ! r) (clients sv)"

text \<open>\<open>_recvToBuffer\<close>: one message of every client, whether it has sent the end command or not.\<close>

definition recvToBuffer :: "'s server \<Rightarrow> (string list \<times> 's server) outcome" where
  "recvToBuffer sv =
     (if list_ex (\<lambda>r. sv_inbox sv ! r = []) (clients sv) then Blocks
      else Returns (map (\<lambda>r. hd (sv_inbox sv ! r)) (clients sv),
        sv\<lparr>sv_inbox := map (\<lambda>r. if r \<noteq> sv_rank sv then tl (sv_inbox sv ! r) else sv_inbox sv ! r)
              [0..<length (sv_inbox sv)]\<rparr>))"

definition process_message :: "'s callback \<Rightarrow> nat \<Rightarrow> string \<Rightarrow> 's server \<Rightarrow> 's server outcome" where
  "process_message func r buf sv = bind_outcome (deSerializeCmd buf) (\<lambda>(cmd, k, v).
     if cmd = EOL_COMMAND then Returns (sv\<lparr>sv_eol := (sv_eol sv)[r := True]\<rparr>)
     else bind_outcome (func r cmd k v (sv_lm sv)) (\<lambda>(ret, lm).
       Returns (sv\<lparr>sv_lm := lm,
         sv_outbox := (case reply_command cmd of None \<Rightarrow> sv_outbox sv
           | Some c \<Rightarrow> sv_outbox sv @ [(r, serializeCmd [] c k ret)])\<rparr>)))"

fun process_round :: "'s callback \<Rightarrow> nat list \<Rightarrow> string list \<Rightarrow> 's server \<Rightarrow> 's server outcome" where
  "process_round func (r # rs) (b # bs) sv =
     bind_outcome (process_message func r b sv) (process_round func rs bs)"
| "process_round func rs bs sv = Returns sv"

text \<open>One turn of the loop; \<open>None\<close> is the exit.\<close>

definition server_turn :: "'s callback \<Rightarrow> 's server \<Rightarrow> 's server option outcome" where
  "server_turn func sv =
     (if all_shut_down sv then Returns None
      else bind_outcome (recvToBuffer sv) (\<lambda>(bufs, sv1).
        bind_outcome (process_round func (clients sv) bufs sv1) (\<lambda>sv2. Returns (Some sv2))))"

text \<open>The loop on the messages that arrive: every turn consumes one message of each client.\<close>

definition inbox_left :: "'s server \<Rightarrow> nat" where
  "inbox_left sv = sum_list (map (\<lambda>r. length (sv_inbox sv ! r)) (clients sv))"

lemma process_message_fields:
  "process_message func r b sv = Returns sv' \<Longrightarrow>
    sv_inbox sv' = sv_inbox sv \<and> sv_rank sv' = sv_rank sv \<and> sv_size sv' = sv_size sv"
  by (auto simp: process_message_def bind_outcome_Returns_iff split: if_splits)

lemma process_round_fields:
  "process_round func rs bs sv = Returns sv' \<Longrightarrow>
    sv_inbox sv' = sv_inbox sv \<and> sv_rank sv' = sv_rank sv \<and> sv_size sv' = sv_size sv"
proof (induction func rs bs sv rule: process_round.induct)
  case (1 func r rs b bs sv)
  then obtain sv1 where "process_message func r b sv = Returns sv1" "process_round func rs bs sv1 = Returns sv'"
    by (auto simp: bind_outcome_Returns_iff)
  with 1 process_message_fields [of func r b sv sv1] show ?case by simp
qed auto

lemma clients_cong: "sv_rank sv' = sv_rank sv \<Longrightarrow> sv_size sv' = sv_size sv \<Longrightarrow> clients sv' = clients sv"
  by (simp add: clients_def)

lemma if_Blocks_Returns: "(if b then Blocks else Returns x) = Returns y \<Longrightarrow> \<not> b \<and> x = y"
  by (cases b) simp_all

lemma recvToBuffer_fields:
  assumes "recvToBuffer sv = Returns (bufs, sv1)" and "sv_size sv \<le> length (sv_inbox sv)"
  shows "sv_rank sv1 = sv_rank sv" "sv_size sv1 = sv_size sv" "sv_eol sv1 = sv_eol sv"
    "sv_lm sv1 = sv_lm sv" "sv_outbox sv1 = sv_outbox sv" "length (sv_inbox sv1) = length (sv_inbox sv)"
    and "\<forall>r \<in> set (clients sv). sv_inbox sv ! r \<noteq> [] \<and> sv_inbox sv1 ! r = tl (sv_inbox sv ! r)"
    and "bufs = map (\<lambda>r. hd (sv_inbox sv ! r)) (clients sv)"
proof -
  let ?in = "map (\<lambda>r. if r \<noteq> sv_rank sv then tl (sv_inbox sv ! r) else sv_inbox sv ! r) [0..<length (sv_inbox sv)]"
  note r = if_Blocks_Returns [OF assms(1) [unfolded recvToBuffer_def]]
  have ne: "\<not> list_ex (\<lambda>r. sv_inbox sv ! r = []) (clients sv)" by (rule conjunct1 [OF r])
  from conjunct2 [OF r] have e: "bufs = map (\<lambda>r. hd (sv_inbox sv ! r)) (clients sv)" "sv1 = sv\<lparr>sv_inbox := ?in\<rparr>"
    by (blast dest: Pair_inject)+
  then show "sv_rank sv1 = sv_rank sv" "sv_size sv1 = sv_size sv" "sv_eol sv1 = sv_eol sv"
    "sv_lm sv1 = sv_lm sv" "sv_outbox sv1 = sv_outbox sv" "length (sv_inbox sv1) = length (sv_inbox sv)"
    "bufs = map (\<lambda>r. hd (sv_inbox sv ! r)) (clients sv)"
    by simp_all
  show "\<forall>r \<in> set (clients sv). sv_inbox sv ! r \<noteq> [] \<and> sv_inbox sv1 ! r = tl (sv_inbox sv ! r)"
    using ne assms(2) by (auto simp: list_ex_iff clients_def e(2))
qed

lemma sum_list_less:
  "(\<forall>x \<in> set xs. (f x :: nat) < g x) \<Longrightarrow> xs \<noteq> [] \<Longrightarrow> sum_list (map f xs) < sum_list (map g xs)"
proof (induction xs)
  case (Cons x xs)
  then show ?case by (cases "xs = []") (auto intro: add_less_mono)
qed simp

lemma server_turn_decreases:
  assumes "server_turn func sv = Returns (Some sv')" and "sv_size sv \<le> length (sv_inbox sv)"
  shows "inbox_left sv' < inbox_left sv" and "sv_size sv' \<le> length (sv_inbox sv')"
proof -
  from assms(1) obtain bufs sv1 where ns: "\<not> all_shut_down sv"
    and r: "recvToBuffer sv = Returns (bufs, sv1)" and p: "process_round func (clients sv) bufs sv1 = Returns sv'"
    by (auto simp: server_turn_def bind_outcome_Returns_iff split: if_splits)
  note f = recvToBuffer_fields [OF r assms(2)] process_round_fields [OF p]
  have "clients sv' = clients sv" using f(1,2) f(9) by (intro clients_cong) simp_all
  moreover have "clients sv \<noteq> []" using ns by (auto simp: all_shut_down_def)
  moreover have "length (tl (sv_inbox sv ! r)) < length (sv_inbox sv ! r)" if "r \<in> set (clients sv)" for r
    using f(7) that by simp
  ultimately show "inbox_left sv' < inbox_left sv"
    using f by (simp add: inbox_left_def sum_list_less)
  show "sv_size sv' \<le> length (sv_inbox sv')" using f assms(2) by simp
qed

text \<open>Fuel as large as the number of messages is enough: each turn takes at least one.\<close>

fun waitForCommand :: "'s callback \<Rightarrow> nat \<Rightarrow> 's server \<Rightarrow> 's server outcome" where
  "waitForCommand func fuel sv = bind_outcome (server_turn func sv) (\<lambda>r. case r of
       None \<Rightarrow> Returns sv
     | Some sv' \<Rightarrow> (case fuel of 0 \<Rightarrow> Blocks | Suc n \<Rightarrow> waitForCommand func n sv'))"

declare waitForCommand.simps [simp del]

definition server_run :: "'s callback \<Rightarrow> 's server \<Rightarrow> 's server outcome" where
  "server_run func sv = waitForCommand func (inbox_left sv) sv"

lemma waitForCommand_fuel:
  "sv_size sv \<le> length (sv_inbox sv) \<Longrightarrow> inbox_left sv \<le> m \<Longrightarrow> inbox_left sv \<le> n \<Longrightarrow>
    waitForCommand func m sv = waitForCommand func n sv"
proof (induction m arbitrary: sv n)
  case 0
  then have "server_turn func sv \<noteq> Returns (Some sv')" for sv'
    using server_turn_decreases(1) [of func sv sv'] by auto
  then show ?case
    by (cases "server_turn func sv")
      (auto simp: waitForCommand.simps [of func _ sv] split: option.split)
next
  case (Suc m)
  show ?case
  proof (cases "\<exists>sv'. server_turn func sv = Returns (Some sv')")
    case True
    then obtain sv' where t: "server_turn func sv = Returns (Some sv')" ..
    note d = server_turn_decreases [OF t Suc.prems(1)]
    with Suc.prems(3) obtain n' where n: "n = Suc n'" by (cases n) auto
    have "waitForCommand func m sv' = waitForCommand func n' sv'"
      using d Suc.prems n by (intro Suc.IH) auto
    then show ?thesis by (simp add: waitForCommand.simps [of func _ sv] t n)
  next
    case False
    then show ?thesis
      by (cases "server_turn func sv")
        (auto simp: waitForCommand.simps [of func _ sv] split: option.split)
  qed
qed

section \<open>When the loop ends\<close>

definition eol_message :: string where
  "eol_message = serializeCmd [] EOL_COMMAND KV_DUMMY []"

definition ends_rank :: "string \<Rightarrow> bool" where
  "ends_rank b \<longleftrightarrow> (case deSerializeCmd b of Returns (cmd, _, _) \<Rightarrow> cmd = EOL_COMMAND | _ \<Rightarrow> False)"

definition decodes :: "string \<Rightarrow> bool" where
  "decodes b \<longleftrightarrow> (\<exists>x. deSerializeCmd b = Returns x)"

definition total_callback :: "'s callback \<Rightarrow> bool" where
  "total_callback func \<longleftrightarrow> (\<forall>r c k v s. \<exists>x. func r c k v s = Returns x)"

lemma eol_message_simps [simp]: "decodes eol_message" "ends_rank eol_message"
  by (simp_all add: decodes_def ends_rank_def eol_message_def deSerialize_serialize)

lemma process_message_eol:
  assumes "process_message func r b sv = Returns sv'"
  shows "sv_eol sv' = (if ends_rank b then (sv_eol sv)[r := True] else sv_eol sv)"
proof -
  from assms obtain cmd k v where d: "deSerializeCmd b = Returns (cmd, k, v)"
    by (auto simp: process_message_def bind_outcome_Returns_iff)
  show ?thesis
  proof (cases "cmd = EOL_COMMAND")
    case True
    with assms d have "sv' = sv\<lparr>sv_eol := (sv_eol sv)[r := True]\<rparr>" by (simp add: process_message_def)
    with True d show ?thesis by (simp add: ends_rank_def)
  next
    case False
    with assms d show ?thesis
      by (auto simp: process_message_def ends_rank_def bind_outcome_Returns_iff)
  qed
qed

lemma process_message_total:
  assumes "decodes b" and "total_callback func"
  shows "\<exists>sv'. process_message func r b sv = Returns sv'"
proof -
  from assms(1) obtain cmd k v where "deSerializeCmd b = Returns (cmd, k, v)" by (auto simp: decodes_def)
  moreover obtain x where "func r cmd k v (sv_lm sv) = Returns x"
    using assms(2) unfolding total_callback_def by blast
  ultimately show ?thesis by (cases x) (simp add: process_message_def)
qed

lemma process_round_total:
  "\<forall>b \<in> set bs. decodes b \<Longrightarrow> total_callback func \<Longrightarrow> \<exists>sv'. process_round func rs bs sv = Returns sv'"
proof (induction func rs bs sv rule: process_round.induct)
  case (1 func r rs b bs sv)
  then show ?case using process_message_total [of b func r sv] by auto
qed auto

text \<open>A round marks exactly the ranks whose message is the end command.\<close>

lemma process_round_eol:
  "process_round func rs bs sv = Returns sv' \<Longrightarrow> length rs = length bs \<Longrightarrow> distinct rs \<Longrightarrow>
    length (sv_eol sv') = length (sv_eol sv)
    \<and> (\<forall>q < length (sv_eol sv). sv_eol sv' ! q \<longleftrightarrow> sv_eol sv ! q \<or> (q, True) \<in> set (zip rs (map ends_rank bs)))"
proof (induction func rs bs sv rule: process_round.induct)
  case (1 func r rs b bs sv)
  from "1.prems"(1) obtain sv1 where sv1: "process_message func r b sv = Returns sv1"
    "process_round func rs bs sv1 = Returns sv'" by (auto simp: bind_outcome_Returns_iff)
  note IH = "1.IH" [OF sv1(2)]
  have "length (sv_eol sv1) = length (sv_eol sv)"
    using process_message_eol [OF sv1(1)] by simp
  moreover have "sv_eol sv1 ! q \<longleftrightarrow> sv_eol sv ! q \<or> q = r \<and> ends_rank b" if "q < length (sv_eol sv)" for q
    using that by (cases "q = r") (auto simp: process_message_eol [OF sv1(1)])
  ultimately show ?case using IH "1.prems"(2,3) by auto
qed auto

lemma distinct_clients [simp]: "distinct (clients sv)"
  by (simp add: clients_def)

definition sv_ok :: "'s server \<Rightarrow> bool" where
  "sv_ok sv \<longleftrightarrow> sv_size sv \<le> length (sv_inbox sv) \<and> length (sv_eol sv) = sv_size sv"

lemma zip_map_pair: "(q, True) \<in> set (zip rs (map ends_rank (map f rs))) \<longleftrightarrow> q \<in> set rs \<and> ends_rank (f q)"
  by (induction rs) auto

lemma server_turn_effect:
  assumes t: "server_turn func sv = Returns (Some sv')" and ok: "sv_ok sv"
  shows "sv_ok sv'" and "clients sv' = clients sv"
    and "\<forall>r \<in> set (clients sv). sv_inbox sv ! r \<noteq> [] \<and> sv_inbox sv' ! r = tl (sv_inbox sv ! r)
      \<and> (sv_eol sv' ! r \<longleftrightarrow> sv_eol sv ! r \<or> ends_rank (hd (sv_inbox sv ! r)))"
proof -
  from t obtain bufs sv1 where r: "recvToBuffer sv = Returns (bufs, sv1)"
    and p: "process_round func (clients sv) bufs sv1 = Returns sv'"
    by (auto simp: server_turn_def bind_outcome_Returns_iff split: if_splits)
  have sz: "sv_size sv \<le> length (sv_inbox sv)" using ok by (simp add: sv_ok_def)
  note f = recvToBuffer_fields [OF r sz] and g = process_round_fields [OF p]
  have len: "length (clients sv) = length bufs" using f(8) by simp
  note e = process_round_eol [OF p len distinct_clients]
  show "sv_ok sv'" using ok f(2,3,6) g e by (simp add: sv_ok_def)
  show "clients sv' = clients sv" using f(1,2) g by (intro clients_cong) simp_all
  show "\<forall>r \<in> set (clients sv). sv_inbox sv ! r \<noteq> [] \<and> sv_inbox sv' ! r = tl (sv_inbox sv ! r)
      \<and> (sv_eol sv' ! r \<longleftrightarrow> sv_eol sv ! r \<or> ends_rank (hd (sv_inbox sv ! r)))"
  proof
    fix q assume q: "q \<in> set (clients sv)"
    then have "q < length (sv_eol sv1)" using ok f(3) by (auto simp: clients_def sv_ok_def)
    with e q have "sv_eol sv' ! q \<longleftrightarrow> sv_eol sv ! q \<or> ends_rank (hd (sv_inbox sv ! q))"
      unfolding f(8) zip_map_pair f(3) by simp
    with f(7) g q show "sv_inbox sv ! q \<noteq> [] \<and> sv_inbox sv' ! q = tl (sv_inbox sv ! q)
      \<and> (sv_eol sv' ! q \<longleftrightarrow> sv_eol sv ! q \<or> ends_rank (hd (sv_inbox sv ! q)))" by simp
  qed
qed

lemma server_turn_progress:
  assumes ok: "sv_ok sv" and "\<not> all_shut_down sv" and "total_callback func"
    and ne: "\<forall>r \<in> set (clients sv). sv_inbox sv ! r \<noteq> [] \<and> decodes (hd (sv_inbox sv ! r))"
  shows "\<exists>sv'. server_turn func sv = Returns (Some sv')"
proof -
  have "\<not> list_ex (\<lambda>r. sv_inbox sv ! r = []) (clients sv)" using ne by (auto simp: list_ex_iff)
  then obtain bufs sv1 where r: "recvToBuffer sv = Returns (bufs, sv1)" by (simp add: recvToBuffer_def)
  have "sv_size sv \<le> length (sv_inbox sv)" using ok by (simp add: sv_ok_def)
  from recvToBuffer_fields(8) [OF r this] ne have "\<forall>b \<in> set bufs. decodes b" by auto
  from process_round_total [OF this assms(3)] obtain sv' where
    "process_round func (clients sv) bufs sv1 = Returns sv'" by blast
  with r assms(2) show ?thesis by (simp add: server_turn_def)
qed

text \<open>
  When every client sends the same number \<open>n\<close> of commands and then the end command, the loop
  processes all of them and ends.
\<close>

definition same_length :: "nat \<Rightarrow> 's server \<Rightarrow> bool" where
  "same_length n sv \<longleftrightarrow> (\<forall>r \<in> set (clients sv). \<exists>ms. sv_inbox sv ! r = ms @ [eol_message]
     \<and> length ms = n \<and> (\<forall>m \<in> set ms. decodes m \<and> \<not> ends_rank m) \<and> \<not> sv_eol sv ! r)"

lemma server_ends:
  "sv_ok sv \<Longrightarrow> clients sv \<noteq> [] \<Longrightarrow> total_callback func \<Longrightarrow> same_length n sv \<Longrightarrow>
    \<exists>sv'. waitForCommand func (Suc n) sv = Returns sv' \<and> all_shut_down sv'
      \<and> (\<forall>r \<in> set (clients sv). sv_inbox sv' ! r = [])"
proof (induction n arbitrary: sv)
  case 0
  then have hd: "\<forall>r \<in> set (clients sv). sv_inbox sv ! r = [eol_message] \<and> \<not> sv_eol sv ! r"
    by (auto simp: same_length_def)
  then have "\<not> all_shut_down sv" using "0.prems"(2) by (cases "clients sv") (auto simp: all_shut_down_def)
  with server_turn_progress [OF "0.prems"(1) this "0.prems"(3)] hd obtain sv' where
    t: "server_turn func sv = Returns (Some sv')" by auto
  note e = server_turn_effect [OF t "0.prems"(1)]
  have sd: "all_shut_down sv'" using e(2,3) hd by (auto simp: all_shut_down_def list_all_iff)
  then have "server_turn func sv' = Returns None" by (simp add: server_turn_def)
  with t have "waitForCommand func (Suc 0) sv = Returns sv'"
    by (simp add: waitForCommand.simps)
  with sd e(3) hd show ?case by auto
next
  case (Suc n)
  have hd: "\<forall>r \<in> set (clients sv). sv_inbox sv ! r \<noteq> [] \<and> decodes (hd (sv_inbox sv ! r))
      \<and> \<not> ends_rank (hd (sv_inbox sv ! r)) \<and> \<not> sv_eol sv ! r"
  proof
    fix r assume "r \<in> set (clients sv)"
    with Suc.prems(4) obtain ms where "sv_inbox sv ! r = ms @ [eol_message]" "length ms = Suc n"
      "\<forall>m \<in> set ms. decodes m \<and> \<not> ends_rank m" "\<not> sv_eol sv ! r" by (auto simp: same_length_def)
    then show "sv_inbox sv ! r \<noteq> [] \<and> decodes (hd (sv_inbox sv ! r))
      \<and> \<not> ends_rank (hd (sv_inbox sv ! r)) \<and> \<not> sv_eol sv ! r" by (cases ms) auto
  qed
  then have "\<not> all_shut_down sv" using Suc.prems(2) by (cases "clients sv") (auto simp: all_shut_down_def)
  with server_turn_progress [OF Suc.prems(1) this Suc.prems(3)] hd obtain sv' where
    t: "server_turn func sv = Returns (Some sv')" by auto
  note e = server_turn_effect [OF t Suc.prems(1)]
  have "same_length n sv'"
    unfolding same_length_def e(2)
  proof
    fix r assume r: "r \<in> set (clients sv)"
    with Suc.prems(4) obtain m ms where "sv_inbox sv ! r = m # ms @ [eol_message]" "length ms = n"
      "\<forall>m \<in> set ms. decodes m \<and> \<not> ends_rank m"
      by (fastforce simp: same_length_def length_Suc_conv)
    with e(3) hd r show "\<exists>ms. sv_inbox sv' ! r = ms @ [eol_message] \<and> length ms = n
        \<and> (\<forall>m \<in> set ms. decodes m \<and> \<not> ends_rank m) \<and> \<not> sv_eol sv' ! r" by auto
  qed
  with Suc.IH [OF e(1) _ Suc.prems(3)] Suc.prems(2) e(2) obtain sv'' where
    "waitForCommand func (Suc n) sv' = Returns sv''" "all_shut_down sv''"
    "\<forall>r \<in> set (clients sv). sv_inbox sv'' ! r = []" by auto
  with t show ?case by (simp add: waitForCommand.simps [of func "Suc (Suc n)" sv])
qed

text \<open>
  When a client sends fewer messages than another one that has not ended, the loop never
  ends on what they have sent: it waits for a message of the client that is finished.
\<close>

lemma server_waits:
  "sv_ok sv \<Longrightarrow> r \<in> set (clients sv) \<Longrightarrow> r' \<in> set (clients sv) \<Longrightarrow> \<not> sv_eol sv ! r' \<Longrightarrow>
    \<forall>m \<in> set (take (length (sv_inbox sv ! r)) (sv_inbox sv ! r')). \<not> ends_rank m \<Longrightarrow>
    waitForCommand func fuel sv \<noteq> Returns sv'"
proof (induction fuel arbitrary: sv)
  case (0 sv)
  have "\<not> all_shut_down sv" using 0 by (auto simp: all_shut_down_def list_all_iff)
  then have "server_turn func sv \<noteq> Returns None"
    by (auto simp: server_turn_def bind_outcome_Returns_iff)
  then show ?case
    by (cases "server_turn func sv") (auto simp: waitForCommand.simps split: option.splits)
next
  case (Suc fuel sv)
  have "\<not> all_shut_down sv" using Suc.prems by (auto simp: all_shut_down_def list_all_iff)
  then have nn: "server_turn func sv \<noteq> Returns None"
    by (auto simp: server_turn_def bind_outcome_Returns_iff)
  show ?case
  proof (cases "\<exists>sv1. server_turn func sv = Returns (Some sv1)")
    case True
    then obtain sv1 where t: "server_turn func sv = Returns (Some sv1)" ..
    note e = server_turn_effect [OF t Suc.prems(1)]
    have r: "sv_inbox sv ! r \<noteq> []" "sv_inbox sv1 ! r = tl (sv_inbox sv ! r)"
      and r': "sv_inbox sv ! r' \<noteq> []" "sv_inbox sv1 ! r' = tl (sv_inbox sv ! r')"
      using e(3) Suc.prems(2,3) by blast+
    obtain a as where a: "sv_inbox sv ! r = a # as" using r(1) by (cases "sv_inbox sv ! r") auto
    obtain b bs where b: "sv_inbox sv ! r' = b # bs" using r'(1) by (cases "sv_inbox sv ! r'") auto
    from Suc.prems(5) have nb: "\<not> ends_rank b" and bs: "\<forall>m \<in> set (take (length as) bs). \<not> ends_rank m"
      by (simp_all add: a b)
    have "sv_eol sv1 ! r' \<longleftrightarrow> sv_eol sv ! r' \<or> ends_rank (hd (sv_inbox sv ! r'))"
      using e(3) Suc.prems(3) by blast
    then have ne: "\<not> sv_eol sv1 ! r'" using Suc.prems(4) nb by (simp add: b)
    have "waitForCommand func fuel sv1 \<noteq> Returns sv'"
      using Suc.prems(2,3) ne bs r(2) r'(2) by (intro Suc.IH [OF e(1)]) (simp_all add: e(2) a b)
    with t show ?thesis by (simp add: waitForCommand.simps [of func "Suc fuel" sv])
  next
    case False
    with nn show ?thesis
      by (cases "server_turn func sv")
        (auto simp: waitForCommand.simps [of func "Suc fuel" sv] split: option.splits)
  qed
qed

section \<open>Properties\<close>

text \<open>
  A command with a plain name and key comes back from its bytes, whatever bytes its value has.
\<close>

theorem command_roundtrip:
  assumes "plain command" and "plain k"
  shows "deSerializeCmd (serializeCmd [] command k value) = Returns (command, k, value)"
  using assms by (rule deSerialize_serialize)

theorem command_roundtrip_witness:
  "deSerializeCmd (serializeCmd [] ''put'' ''key'' ''a;b;c'') = Returns (''put'', ''key'', ''a;b;c'')"
  by (rule command_roundtrip) simp_all

definition sample_server :: "nat server" where
  "sample_server = server_new 0 3 [[], [serializeCmd [] CMD_PUT ''a'' ''1'', eol_message],
     [serializeCmd [] CMD_PUT ''b'' ''2'', eol_message]] 0"

definition sample_callback :: "nat callback" where
  "sample_callback r cmd k v s = Returns ([], s + r)"

lemma sample_callback_total: "total_callback sample_callback"
  by (simp add: total_callback_def sample_callback_def)

lemma sample_clients: "clients sample_server = [1, 2]"
  by (simp add: clients_def sample_server_def server_new_def upt_rec)

lemma sample_message: "decodes (serializeCmd [] CMD_PUT k v) \<and> \<not> ends_rank (serializeCmd [] CMD_PUT k v)" if "plain k"
  using that by (simp add: decodes_def ends_rank_def deSerialize_serialize) (simp add: cmd_defs)

text \<open>
  The server loop returns, with every client shut down and every message consumed, when the clients
  send equally many commands before their end command.
\<close>

theorem server_terminates:
  assumes "sv_ok sv" and "clients sv \<noteq> []" and "total_callback func" and "same_length n sv"
  shows "\<exists>sv'. waitForCommand func (Suc n) sv = Returns sv' \<and> all_shut_down sv'
    \<and> (\<forall>r \<in> set (clients sv). sv_inbox sv' ! r = [])"
  using assms by (rule server_ends)

theorem server_terminates_witness:
  "\<exists>sv'. waitForCommand sample_callback 2 sample_server = Returns sv' \<and> all_shut_down sv'"
proof -
  have "same_length 1 sample_server"
    using sample_message [of "''a''" "''1''"] sample_message [of "''b''" "''2''"]
    by (simp add: same_length_def sample_clients)
      (simp add: sample_server_def server_new_def numeral_2_eq_2 length_Suc_conv)
  moreover have "sv_ok sample_server" by (simp add: sv_ok_def sample_server_def server_new_def)
  ultimately show ?thesis
    using server_terminates [of sample_server sample_callback 1] sample_callback_total
    by (auto simp: sample_clients numeral_2_eq_2)
qed

text \<open>
  The loop does not return while a client that has sent fewer messages than another one has not
  sent its end command: the server waits for a further message of the rank that has none left,
  also when that rank has sent its end command.
\<close>

theorem server_waits_for_ended:
  assumes "sv_ok sv" and "r \<in> set (clients sv)" and "r' \<in> set (clients sv)" and "\<not> sv_eol sv ! r'"
    and "\<forall>m \<in> set (take (length (sv_inbox sv ! r)) (sv_inbox sv ! r')). \<not> ends_rank m"
  shows "waitForCommand func fuel sv \<noteq> Returns sv'"
  using assms by (rule server_waits)

definition sample_uneven :: "nat server" where
  "sample_uneven = server_new 0 3 [[], [eol_message], [serializeCmd [] CMD_PUT ''b'' ''2'', eol_message]] 0"

theorem server_waits_for_ended_witness: "\<not> (\<exists>sv'. waitForCommand sample_callback 7 sample_uneven = Returns sv')"
proof -
  have "sv_ok sample_uneven" "1 \<in> set (clients sample_uneven)" "2 \<in> set (clients sample_uneven)"
    "\<not> sv_eol sample_uneven ! 2"
    by (simp_all add: sv_ok_def clients_def sample_uneven_def server_new_def)
  moreover have "\<forall>m \<in> set (take (length (sv_inbox sample_uneven ! 1)) (sv_inbox sample_uneven ! 2)). \<not> ends_rank m"
    using sample_message [of "''b''" "''2''"] by (simp add: sample_uneven_def server_new_def)
  ultimately show ?thesis using server_waits_for_ended by blast
qed

text \<open>
  The loop's result does not depend on the fuel once there is one unit for each message: it
  returns, or waits for a message that has not been sent.
\<close>

theorem server_fuel_enough:
  assumes "sv_size sv \<le> length (sv_inbox sv)" and "inbox_left sv \<le> fuel"
  shows "waitForCommand func fuel sv = server_run func sv"
  unfolding server_run_def by (rule waitForCommand_fuel [OF assms order.refl])

theorem server_fuel_enough_witness:
  "waitForCommand sample_callback 9 sample_server = server_run sample_callback sample_server"
  by (rule server_fuel_enough) (simp_all add: inbox_left_def sample_clients, simp_all add: sample_server_def server_new_def)

end
