(* ===== verification/Manager.thy ===== *)
theory Manager
  imports Store Std_Io Std_Text Client
begin

text \<open>
  The manager of \<open>lib/manager/manager.cpp\<close>: it decides from the MPI layout which rank opens a
  store and which rank sends its operations to another rank's store, prefixes the keys of
  the ranks that share a store, and forwards. The store is any instance of the interface of
  \<open>Store\<close>; MPI's answers (rank, size, shared-memory domain) are parameters.
\<close>

section \<open>Lists of pairs as text\<close>

definition vectorTupleSerialize :: "(string \<times> string) list \<Rightarrow> string" where
  "vectorTupleSerialize vs = concat (map (\<lambda>e. fst e @ ''|'' @ snd e @ [CHR 0x0A]) vs)"

definition parse_line :: "string \<Rightarrow> (string \<times> string) list" where
  "parse_line line =
     (if line = [] \<or> CHR ''|'' \<notin> set line then []
      else [(takeWhile (\<lambda>c. c \<noteq> CHR ''|'') line, drop 1 (dropWhile (\<lambda>c. c \<noteq> CHR ''|'') line))])"

definition vectorTupleDeserialize :: "string \<Rightarrow> (string \<times> string) list \<Rightarrow> (string \<times> string) list" where
  "vectorTupleDeserialize s vs = vs @ concat (map parse_line (getlines (CHR 0x0A) s))"

definition tuple_ok :: "string \<times> string \<Rightarrow> bool" where
  "tuple_ok e \<longleftrightarrow> CHR ''|'' \<notin> set (fst e) \<and> CHR 0x0A \<notin> set (fst e) \<and> CHR 0x0A \<notin> set (snd e)"

lemma parse_line_pair: "tuple_ok (a, b) \<Longrightarrow> parse_line (a @ CHR ''|'' # b) = [(a, b)]"
  by (simp add: parse_line_def tuple_ok_def takeWhile_upto dropWhile_upto)

lemma tuple_roundtrip:
  "\<forall>e \<in> set vs. tuple_ok e \<Longrightarrow> vectorTupleDeserialize (vectorTupleSerialize vs) ws = ws @ vs"
proof (induction vs arbitrary: ws)
  case Nil
  show ?case by (simp add: vectorTupleDeserialize_def vectorTupleSerialize_def)
next
  case (Cons e vs)
  obtain a b where e: "e = (a, b)" by (cases e)
  have "vectorTupleSerialize (e # vs) = (a @ CHR ''|'' # b) @ CHR 0x0A # vectorTupleSerialize vs"
    by (simp add: vectorTupleSerialize_def e)
  moreover have "CHR 0x0A \<notin> set (a @ CHR ''|'' # b)" using Cons.prems by (simp add: e tuple_ok_def)
  ultimately have "getlines (CHR 0x0A) (vectorTupleSerialize (e # vs)) = (a @ CHR ''|'' # b) # getlines (CHR 0x0A) (vectorTupleSerialize vs)"
    by (simp only: getlines_line not_False_eq_True)
  with Cons.IH [of "[]"] Cons.prems show ?case
    by (simp add: vectorTupleDeserialize_def parse_line_pair e)
qed

section \<open>State\<close>

record 's manager =
  mg_dbName :: string
  mg_dbDir :: string
  mg_dbPath :: string
  mg_store :: "'s option"
  mg_has_client :: bool
  mg_isOverWrite :: bool
  mg_isShared :: bool
  mg_isSharedSplit :: bool
  mg_worldRank :: nat
  mg_worldSize :: nat
  mg_aggRank :: nat
  mg_aggSize :: nat
  mg_counterWriteBytes :: u64
  mg_counterReadBytes :: u64
  mg_counterWriteOps :: u64
  mg_counterReadOps :: u64

definition AGGREGATION_RANK :: nat where
  "AGGREGATION_RANK = 0"

definition AGGREGATION_DIR_INFIX :: string where
  "AGGREGATION_DIR_INFIX = ''agg''"

definition isOpenLocal :: "'s manager \<Rightarrow> bool" where
  "isOpenLocal m \<longleftrightarrow> \<not> mg_isShared m \<or> mg_aggRank m = AGGREGATION_RANK"

definition isOpenRemote :: "'s manager \<Rightarrow> bool" where
  "isOpenRemote m \<longleftrightarrow> mg_isShared m \<and> mg_aggRank m \<noteq> AGGREGATION_RANK"

definition isServeLocal :: "'s manager \<Rightarrow> bool" where
  "isServeLocal m \<longleftrightarrow> mg_isShared m \<and> mg_aggRank m = AGGREGATION_RANK \<and> mg_aggSize m > 1"

lemmas role_defs [lsm_defs] = isOpenLocal_def isOpenRemote_def isServeLocal_def AGGREGATION_RANK_def

definition getDbPath :: "'s manager \<Rightarrow> string" where
  "getDbPath m = mg_dbPath m"

definition rankedKey :: "'s manager \<Rightarrow> nat \<Rightarrow> key \<Rightarrow> key" where
  "rankedKey m r k = (if isServeLocal m then to_string_int (int r) @ ''::'' @ k else k)"

section \<open>Initialisation\<close>

text \<open>
  What MPI answers: whether an ADIOS communicator was passed and is an MPI one, whether there
  is an MPI communicator, this process's rank in it and its size, and the shared-memory
  domain of every rank. \<open>MPI_Comm_split\<close> groups the ranks of one colour and numbers them in
  the order of their old ranks.
\<close>

record mpi_env =
  me_adios :: "bool option"
  me_mpi :: bool
  me_rank :: nat
  me_size :: nat
  me_node :: "nat \<Rightarrow> nat"

definition split_rank :: "(nat \<Rightarrow> nat) \<Rightarrow> nat \<Rightarrow> nat" where
  "split_rank color r = length (filter (\<lambda>q. color q = color r) [0..<r])"

definition split_size :: "(nat \<Rightarrow> nat) \<Rightarrow> nat \<Rightarrow> nat \<Rightarrow> nat" where
  "split_size color n r = length (filter (\<lambda>q. color q = color r) [0..<n])"

definition group_color :: "lsmio_config \<Rightarrow> mpi_env \<Rightarrow> nat \<Rightarrow> nat" where
  "group_color cfg env r = (case cfg_mpiAggType cfg of
       Shared \<Rightarrow> me_node env r
     | Split \<Rightarrow> r div 2
     | _ \<Rightarrow> 0)"

definition manager_layout :: "lsmio_config \<Rightarrow> mpi_env \<Rightarrow> string \<Rightarrow> string \<Rightarrow> bool \<Rightarrow> 's manager" where
  "manager_layout cfg env name dir ow =
     (let mpi = (me_mpi env \<or> me_adios env \<noteq> None);
          r = (if mpi then me_rank env else 0);
          n = (if mpi then me_size env else 1);
          shared = (mpi \<and> n > 1);
          splits = (shared \<and> (cfg_mpiAggType cfg = Shared \<or> cfg_mpiAggType cfg = Split));
          ar = (if shared then split_rank (group_color cfg env) r else 0);
          az = (if shared then split_size (group_color cfg env) n r else 1);
          dir' = (if shared \<and> splits \<and> \<not> cfg_disableAggDirStructure cfg
                  then path_join (path_join dir AGGREGATION_DIR_INFIX) (to_string_int (int r)) else dir)
      in \<lparr>mg_dbName = name, mg_dbDir = dir',
          mg_dbPath = (if dir' = [] then name else dir' @ ''/'' @ name),
          mg_store = None, mg_has_client = False, mg_isOverWrite = ow,
          mg_isShared = shared, mg_isSharedSplit = splits,
          mg_worldRank = r, mg_worldSize = n, mg_aggRank = ar, mg_aggSize = az,
          mg_counterWriteBytes = 0, mg_counterReadBytes = 0, mg_counterWriteOps = 0,
          mg_counterReadOps = 0\<rparr>)"

text \<open>The store's constructor is a parameter: it gets the storage type, the path and the flag.\<close>

definition manager_init ::
  "(storage_type \<Rightarrow> string \<Rightarrow> bool \<Rightarrow> 's outcome) \<Rightarrow> lsmio_config \<Rightarrow> mpi_env \<Rightarrow> string \<Rightarrow> string \<Rightarrow> bool
    \<Rightarrow> 's manager outcome" where
  "manager_init make_store cfg env name dir ow =
     (if me_adios env = Some False
      then Throws ''ERROR: LSMIOManager:_init: file opened in shared mode without MPI.''
      else let m = manager_layout cfg env name dir ow;
               m1 = m\<lparr>mg_has_client := (isOpenRemote m \<or> isServeLocal m)\<rparr>
           in if isOpenLocal m
              then bind_outcome (make_store (cfg_storageType cfg) (mg_dbPath m) ow)
                     (\<lambda>s. Returns (m1\<lparr>mg_store := Some s\<rparr>))
              else Returns m1)"

text \<open>\<open>close\<close> also answers what the closed store leaves behind, such as its files.\<close>

definition manager_close :: "'s store_ops \<Rightarrow> 's manager \<Rightarrow> ('s manager \<times> 's option) outcome" where
  "manager_close ops m = (case mg_store m of
       None \<Rightarrow> Returns (m\<lparr>mg_has_client := False\<rparr>, None)
     | Some s \<Rightarrow> bind_outcome (op_close ops s) (\<lambda>s'. Returns (m\<lparr>mg_has_client := False, mg_store := None\<rparr>, Some s')))"

section \<open>Operations on the local store\<close>

definition count_read :: "nat \<Rightarrow> 's manager \<Rightarrow> 's manager" where
  "count_read n m = m\<lparr>mg_counterReadBytes := mg_counterReadBytes m + word_of_nat n,
     mg_counterReadOps := mg_counterReadOps m + 1\<rparr>"

definition count_write :: "nat \<Rightarrow> 's manager \<Rightarrow> 's manager" where
  "count_write n m = m\<lparr>mg_counterWriteBytes := mg_counterWriteBytes m + word_of_nat n,
     mg_counterWriteOps := mg_counterWriteOps m + 1\<rparr>"

text \<open>\<open>v0\<close> is what the caller's result string holds before the call.\<close>

definition found_value :: "string \<Rightarrow> val option \<Rightarrow> string" where
  "found_value v0 r = (case r of Some v \<Rightarrow> v | None \<Rightarrow> v0)"

definition local_read ::
  "('s \<Rightarrow> val option outcome) \<Rightarrow> string \<Rightarrow> 's manager \<Rightarrow> ((bool \<times> string) \<times> 's manager) outcome" where
  "local_read look v0 m = (case mg_store m of None \<Rightarrow> Undefined | Some s \<Rightarrow>
     bind_outcome (look s) (\<lambda>r.
       Returns ((r \<noteq> None, found_value v0 r), count_read (length (found_value v0 r)) m)))"

definition local_update ::
  "('s \<Rightarrow> (bool \<times> 's) outcome) \<Rightarrow> 's manager \<Rightarrow> (bool \<times> 's manager) outcome" where
  "local_update act m = (case mg_store m of None \<Rightarrow> Undefined | Some s \<Rightarrow>
     bind_outcome (act s) (\<lambda>(b, s'). Returns (b, m\<lparr>mg_store := Some s'\<rparr>)))"

section \<open>The callback of the serving rank\<close>

definition callbackForCollectiveIO :: "'s store_ops \<Rightarrow> lsmio_config \<Rightarrow> 's manager callback" where
  "callbackForCollectiveIO ops cfg r cmd k pValue m =
     (case mg_store m of None \<Rightarrow> Undefined | Some s \<Rightarrow>
      (let upd = (\<lambda>act. bind_outcome (act s) (\<lambda>(b, s'). Returns ([], m\<lparr>mg_store := Some s'\<rparr>)));
           rd = (\<lambda>look. bind_outcome (look s) (\<lambda>v. Returns (found_value [] v, m)))
       in if cmd = CMD_GET then rd (op_get ops (rankedKey m r k))
          else if cmd = CMD_PUT then upd (store_put ops (rankedKey m r k) pValue (cfg_alwaysFlush cfg))
          else if cmd = CMD_DEL then upd (store_del ops (rankedKey m r k) (cfg_alwaysFlush cfg))
          else if cmd = CMD_META_GET then rd (store_metaGet ops (rankedKey m r k))
          else if cmd = CMD_META_GET_ALL then
            bind_outcome (store_metaGetAll ops (to_string_int (int r) @ ''::'') s)
              (\<lambda>(b, values). Returns (vectorTupleSerialize values, m))
          else if cmd = CMD_META_PUT then upd (store_metaPut ops (rankedKey m r k) pValue (cfg_alwaysFlush cfg))
          else if cmd = CMD_WRITE_BARRIER then upd (op_writeBarrier ops)
          else Returns ([], m)))"

section \<open>Operations\<close>

text \<open>
  A pair of managers: the one called, and the one that serves its group (not used when the
  called one has a store of its own). \<open>send_command\<close> is a command without a reply, \<open>rpc\<close> a
  command and the wait for its reply; between two ranks messages keep their order, so the
  command takes effect before anything the sender does later.
\<close>

type_synonym 's peers = "'s manager \<times> 's manager"

definition send_command ::
  "'s store_ops \<Rightarrow> lsmio_config \<Rightarrow> nat \<Rightarrow> string \<Rightarrow> string \<Rightarrow> string \<Rightarrow> 's manager \<Rightarrow> 's manager outcome" where
  "send_command ops cfg r cmd k v agg =
     bind_outcome (deSerializeCmd (serializeCmd [] cmd k v)) (\<lambda>(cmd', k', v').
       bind_outcome (callbackForCollectiveIO ops cfg r cmd' k' v' agg) (\<lambda>(ret, agg'). Returns agg'))"

definition rpc ::
  "'s store_ops \<Rightarrow> lsmio_config \<Rightarrow> nat \<Rightarrow> string \<Rightarrow> string \<Rightarrow> string \<Rightarrow> 's manager
    \<Rightarrow> ((string \<times> string \<times> string) \<times> 's manager) outcome" where
  "rpc ops cfg r cmd k v agg =
     bind_outcome (deSerializeCmd (serializeCmd [] cmd k v)) (\<lambda>(cmd', k', v').
       bind_outcome (callbackForCollectiveIO ops cfg r cmd' k' v' agg) (\<lambda>(ret, agg').
         case reply_command cmd' of None \<Rightarrow> Blocks
         | Some c \<Rightarrow> bind_outcome (deSerializeCmd (serializeCmd [] c k' ret)) (\<lambda>reply. Returns (reply, agg'))))"

definition remote_read ::
  "'s store_ops \<Rightarrow> lsmio_config \<Rightarrow> string \<Rightarrow> string \<Rightarrow> key \<Rightarrow> 's peers
    \<Rightarrow> ((bool \<times> string) \<times> 's peers) outcome" where
  "remote_read ops cfg cmd expected k p = (case p of (m, agg) \<Rightarrow>
     bind_outcome (rpc ops cfg (mg_aggRank m) cmd k KV_DUMMY agg) (\<lambda>((cCommand, cKey, value), agg').
       Returns ((cCommand = expected, value), (count_read (length value) m, agg'))))"

definition mg_get ::
  "'s store_ops \<Rightarrow> lsmio_config \<Rightarrow> key \<Rightarrow> string \<Rightarrow> 's peers \<Rightarrow> ((bool \<times> string) \<times> 's peers) outcome" where
  "mg_get ops cfg k v0 p = (case p of (m, agg) \<Rightarrow>
     if isOpenLocal m then
       bind_outcome (local_read (op_get ops (rankedKey m (mg_aggRank m) k)) v0 m) (\<lambda>(r, m'). Returns (r, (m', agg)))
     else if isOpenRemote m then remote_read ops cfg CMD_GET RET_GET k p
     else Returns ((True, v0), p))"

definition mg_metaGet ::
  "'s store_ops \<Rightarrow> lsmio_config \<Rightarrow> key \<Rightarrow> string \<Rightarrow> 's peers \<Rightarrow> ((bool \<times> string) \<times> 's peers) outcome" where
  "mg_metaGet ops cfg k v0 p = (case p of (m, agg) \<Rightarrow>
     if isOpenLocal m then
       bind_outcome (local_read (store_metaGet ops (rankedKey m (mg_aggRank m) k)) v0 m) (\<lambda>(r, m'). Returns (r, (m', agg)))
     else if isOpenRemote m then remote_read ops cfg CMD_META_GET RET_META_GET k p
     else Returns ((True, v0), p))"

definition mg_metaGetAll ::
  "'s store_ops \<Rightarrow> lsmio_config \<Rightarrow> string \<Rightarrow> (string \<times> string) list \<Rightarrow> 's peers
    \<Rightarrow> ((bool \<times> (string \<times> string) list) \<times> 's peers) outcome" where
  "mg_metaGetAll ops cfg inFix vs p = (case p of (m, agg) \<Rightarrow>
     if isOpenLocal m then
       (case mg_store m of None \<Rightarrow> Undefined | Some s \<Rightarrow>
          bind_outcome (store_metaGetAll ops inFix s) (\<lambda>(b, xs).
            Returns ((b, vs @ xs), (count_read (length (vs @ xs)) m, agg))))
     else if isOpenRemote m then
       bind_outcome (rpc ops cfg (mg_aggRank m) CMD_META_GET_ALL KV_DUMMY KV_DUMMY agg)
         (\<lambda>((cCommand, cKey, value), agg').
           Returns ((cCommand = RET_META_GET_ALL, vectorTupleDeserialize value vs),
             (count_read (length value) m, agg')))
     else Returns ((True, vs), p))"

definition remote_update ::
  "'s store_ops \<Rightarrow> lsmio_config \<Rightarrow> string \<Rightarrow> key \<Rightarrow> val \<Rightarrow> 's peers \<Rightarrow> (bool \<times> 's peers) outcome" where
  "remote_update ops cfg cmd k v p = (case p of (m, agg) \<Rightarrow>
     bind_outcome (send_command ops cfg (mg_aggRank m) cmd k v agg) (\<lambda>agg'. Returns (True, (m, agg'))))"

definition mg_put ::
  "'s store_ops \<Rightarrow> lsmio_config \<Rightarrow> key \<Rightarrow> val \<Rightarrow> bool \<Rightarrow> 's peers \<Rightarrow> (bool \<times> 's peers) outcome" where
  "mg_put ops cfg k v flush p = (case p of (m0, agg) \<Rightarrow>
     let m = count_write (length v) m0 in
     if isOpenLocal m then
       bind_outcome (local_update (store_put ops (rankedKey m (mg_aggRank m) k) v flush) m) (\<lambda>(b, m'). Returns (b, (m', agg)))
     else if isOpenRemote m then remote_update ops cfg CMD_PUT k v (m, agg)
     else Returns (True, (m, agg)))"

text \<open>The overloads without a flush flag, with a character range, and with a block of memory.\<close>

definition mg_put_default ::
  "'s store_ops \<Rightarrow> lsmio_config \<Rightarrow> key \<Rightarrow> val \<Rightarrow> 's peers \<Rightarrow> (bool \<times> 's peers) outcome" where
  "mg_put_default ops cfg k v p = mg_put ops cfg k v (cfg_alwaysFlush cfg) p"

definition mg_put_chars ::
  "'s store_ops \<Rightarrow> lsmio_config \<Rightarrow> key \<Rightarrow> string \<Rightarrow> nat \<Rightarrow> 's peers \<Rightarrow> (bool \<times> 's peers) outcome" where
  "mg_put_chars ops cfg k mem n p =
     (if length mem < n then Undefined else mg_put ops cfg k (take n mem) (cfg_alwaysFlush cfg) p)"

definition mg_put_block ::
  "'s store_ops \<Rightarrow> lsmio_config \<Rightarrow> key \<Rightarrow> string \<Rightarrow> u64 \<Rightarrow> u64 \<Rightarrow> 's peers \<Rightarrow> (bool \<times> 's peers) outcome" where
  "mg_put_block ops cfg k mem esize nelem p =
     (if length mem < unat (esize * nelem) then Undefined
      else mg_put ops cfg k (take (unat (esize * nelem)) mem) (cfg_alwaysFlush cfg) p)"

definition mg_del :: "'s store_ops \<Rightarrow> lsmio_config \<Rightarrow> key \<Rightarrow> bool \<Rightarrow> 's peers \<Rightarrow> (bool \<times> 's peers) outcome" where
  "mg_del ops cfg k flush p = (case p of (m, agg) \<Rightarrow>
     if isOpenLocal m then
       bind_outcome (local_update (store_del ops (rankedKey m (mg_aggRank m) k) flush) m) (\<lambda>(b, m'). Returns (b, (m', agg)))
     else if isOpenRemote m then remote_update ops cfg CMD_DEL k KV_DUMMY p
     else Returns (True, p))"

definition mg_del_default :: "'s store_ops \<Rightarrow> lsmio_config \<Rightarrow> key \<Rightarrow> 's peers \<Rightarrow> (bool \<times> 's peers) outcome" where
  "mg_del_default ops cfg k p = mg_del ops cfg k (cfg_alwaysFlush cfg) p"

definition mg_metaPut ::
  "'s store_ops \<Rightarrow> lsmio_config \<Rightarrow> key \<Rightarrow> val \<Rightarrow> bool \<Rightarrow> 's peers \<Rightarrow> (bool \<times> 's peers) outcome" where
  "mg_metaPut ops cfg k v flush p = (case p of (m0, agg) \<Rightarrow>
     let m = count_write (length v) m0 in
     if isOpenLocal m then
       bind_outcome (local_update (store_metaPut ops (rankedKey m (mg_aggRank m) k) v flush) m) (\<lambda>(b, m'). Returns (b, (m', agg)))
     else if isOpenRemote m then remote_update ops cfg CMD_META_PUT k v (m, agg)
     else Returns (True, (m, agg)))"

definition remote_barrier ::
  "'s store_ops \<Rightarrow> lsmio_config \<Rightarrow> string \<Rightarrow> string \<Rightarrow> 's peers \<Rightarrow> (bool \<times> 's peers) outcome" where
  "remote_barrier ops cfg cmd expected p = (case p of (m, agg) \<Rightarrow>
     bind_outcome (rpc ops cfg (mg_aggRank m) cmd KV_DUMMY KV_DUMMY agg) (\<lambda>((cCommand, cKey, cValue), agg').
       Returns (cCommand = expected, (m, agg'))))"

definition mg_readBarrier :: "'s store_ops \<Rightarrow> lsmio_config \<Rightarrow> 's peers \<Rightarrow> (bool \<times> 's peers) outcome" where
  "mg_readBarrier ops cfg p = (case p of (m, agg) \<Rightarrow>
     if isOpenLocal m then
       bind_outcome (local_update (op_readBarrier ops) m) (\<lambda>(b, m'). Returns (b, (m', agg)))
     else if isOpenRemote m then remote_barrier ops cfg CMD_READ_BARRIER RET_READ_BARRIER p
     else Returns (True, p))"

definition mg_writeBarrier :: "'s store_ops \<Rightarrow> lsmio_config \<Rightarrow> 's peers \<Rightarrow> (bool \<times> 's peers) outcome" where
  "mg_writeBarrier ops cfg p = (case p of (m, agg) \<Rightarrow>
     if isOpenLocal m then
       bind_outcome (local_update (op_writeBarrier ops) m) (\<lambda>(b, m'). Returns (b, (m', agg)))
     else if isOpenRemote m then remote_barrier ops cfg CMD_WRITE_BARRIER RET_WRITE_BARRIER p
     else Returns (True, p))"

definition resetCounters :: "'s manager \<Rightarrow> 's manager" where
  "resetCounters m = m\<lparr>mg_counterWriteBytes := 0, mg_counterReadBytes := 0, mg_counterWriteOps := 0,
     mg_counterReadOps := 0\<rparr>"

definition getCounters :: "'s manager \<Rightarrow> u64 \<times> u64 \<times> u64 \<times> u64" where
  "getCounters m = (mg_counterWriteBytes m, mg_counterReadBytes m, mg_counterWriteOps m, mg_counterReadOps m)"

lemmas mg_op_defs [lsm_defs] = mg_put_default_def mg_del_default_def resetCounters_def getCounters_def

section \<open>Properties\<close>

text \<open>
  A list of pairs comes back from its text form, appended to what was there, when no key has a bar and
  no key or value has a newline.
\<close>

theorem tuples_roundtrip:
  assumes "\<forall>e \<in> set vs. tuple_ok e"
  shows "vectorTupleDeserialize (vectorTupleSerialize vs) ws = ws @ vs"
  using assms by (rule tuple_roundtrip)

theorem tuples_roundtrip_witness:
  "vectorTupleDeserialize (vectorTupleSerialize [(''k'', ''a|b''), ([], ''v'')]) [] = [(''k'', ''a|b''), ([], ''v'')]"
  using tuples_roundtrip [of "[(''k'', ''a|b''), ([], ''v'')]" "[]"] by (simp add: tuple_ok_def)

end
