(* ===== verification/Manager_Laws.thy ===== *)
theory Manager_Laws
  imports Manager
begin

text \<open>
  The laws of the manager: which rank opens, serves or forwards; the keys of different ranks
  never meet in a shared store; an operation forwarded to the serving rank has the effect of
  the local operation on the prefixed key; and the life cycle of the process-wide manager.
  The laws about stored values are proved once, in the contract of a store.
\<close>

section \<open>Who opens and who serves\<close>

lemma split_rank_less: "r < n \<Longrightarrow> split_rank color r < split_size color n r"
proof -
  assume r: "r < n"
  have "[0..<n] = [0..<r] @ [r..<n]" using upt_add_eq_append [of 0 r "n - r"] r by simp
  also have "[r..<n] = r # [Suc r..<n]" using r by (rule upt_conv_Cons)
  finally show ?thesis by (simp add: split_rank_def split_size_def)
qed

lemma split_rank_zero_iff: "split_rank color r = 0 \<longleftrightarrow> (\<forall>q < r. color q \<noteq> color r)"
  by (auto simp: split_rank_def filter_empty_conv)

text \<open>Every group has exactly one rank 0: its lowest world rank.\<close>

lemma split_rank_zero_unique:
  assumes "split_rank color q = 0" and "split_rank color r = 0" and "color q = color r"
  shows "q = r"
proof (rule ccontr)
  assume "q \<noteq> r"
  then have "q < r \<or> r < q" by linarith
  with assms show False by (auto simp: split_rank_zero_iff)
qed

lemma split_rank_zero_exists: "\<exists>q \<le> r. color q = color r \<and> split_rank color q = 0"
proof -
  define q where "q = (LEAST q. color q = color r)"
  have q: "color q = color r" unfolding q_def by (rule LeastI) simp
  have "q \<le> r" unfolding q_def by (rule Least_le) simp
  have "color p \<noteq> color r" if "p < q" for p
    using not_less_Least [OF that [unfolded q_def]] .
  then have "split_rank color q = 0" by (simp add: split_rank_zero_iff q)
  with \<open>q \<le> r\<close> q show ?thesis by blast
qed

lemma split_size_cong: "color q = color r \<Longrightarrow> split_size color n q = split_size color n r"
  by (simp add: split_size_def)

lemma layout_fields [simp]:
  "mg_isShared (manager_layout cfg env name dir ow) \<longleftrightarrow>
     (me_mpi env \<or> me_adios env \<noteq> None) \<and> 1 < me_size env"
  "mg_isShared (manager_layout cfg env name dir ow) \<Longrightarrow>
     mg_aggRank (manager_layout cfg env name dir ow) = split_rank (group_color cfg env) (me_rank env)"
  "mg_isShared (manager_layout cfg env name dir ow) \<Longrightarrow>
     mg_aggSize (manager_layout cfg env name dir ow) =
       split_size (group_color cfg env) (me_size env) (me_rank env)"
  by (auto simp: manager_layout_def Let_def)

text \<open>A rank that forwards belongs to a group whose lowest rank opens a store and serves it.\<close>

lemma remote_has_server:
  assumes m: "isOpenRemote (manager_layout cfg env name dir ow)" and rank: "me_rank env < me_size env"
  shows "\<exists>q < me_size env. group_color cfg env q = group_color cfg env (me_rank env)
    \<and> isServeLocal (manager_layout cfg (env\<lparr>me_rank := q\<rparr>) name' dir' ow')"
proof -
  let ?c = "group_color cfg env" and ?r = "me_rank env"
  have sh: "mg_isShared (manager_layout cfg env name dir ow)" and ar: "split_rank ?c ?r \<noteq> 0"
    using m by (auto simp: role_defs)
  obtain q where q: "q \<le> ?r" "?c q = ?c ?r" "split_rank ?c q = 0"
    using split_rank_zero_exists by blast
  have c: "group_color cfg (env\<lparr>me_rank := q\<rparr>) = ?c" by (auto simp: group_color_def fun_eq_iff split: mpi_agg_type.split)
  have "0 < split_rank ?c ?r" using ar by simp
  then have "1 < split_size ?c (me_size env) ?r" using split_rank_less [OF rank, of ?c] by linarith
  then have "isServeLocal (manager_layout cfg (env\<lparr>me_rank := q\<rparr>) name' dir' ow')"
    using sh q c split_size_cong [of ?c q ?r "me_size env"] by (simp add: isServeLocal_def AGGREGATION_RANK_def)
  with q rank show ?thesis by (intro exI [of _ q]) simp
qed

section \<open>Ranked keys\<close>

lemma takeWhile_digits: "takeWhile is_digit (dec n @ CHR '':'' # t) = dec n"
proof -
  have "takeWhile is_digit (s @ CHR '':'' # t) = s" if "\<forall>c \<in> set s. is_digit c" for s
    using that by (induction s) auto
  then show ?thesis using dec_is_digit by blast
qed

lemma ranked_prefix_inj:
  "to_string_int (int r) @ ''::'' @ k = to_string_int (int r') @ ''::'' @ k' \<longleftrightarrow> r = r' \<and> k = k'"
proof
  assume e: "to_string_int (int r) @ ''::'' @ k = to_string_int (int r') @ ''::'' @ k'"
  then have "takeWhile is_digit (dec r @ CHR '':'' # CHR '':'' # k) = takeWhile is_digit (dec r' @ CHR '':'' # CHR '':'' # k')"
    by (simp add: to_string_int_def)
  then have "dec r = dec r'" by (simp only: takeWhile_digits)
  with e show "r = r' \<and> k = k'" by (simp add: dec_inj to_string_int_def)
qed simp

lemma rankedKey_inj:
  "isServeLocal m \<Longrightarrow> rankedKey m r k = rankedKey m r' k' \<longleftrightarrow> r = r' \<and> k = k'"
  by (simp only: rankedKey_def if_True ranked_prefix_inj)

lemma rankedKey_same_rank [simp]: "rankedKey m r k = rankedKey m r k' \<longleftrightarrow> k = k'"
  by (simp add: rankedKey_def)

lemma rankedKey_role [simp]:
  "rankedKey (m\<lparr>mg_store := s\<rparr>) = rankedKey m" "rankedKey (count_read n m) = rankedKey m"
  "rankedKey (count_write n m) = rankedKey m"
  by (simp_all add: rankedKey_def isServeLocal_def count_read_def count_write_def fun_eq_iff)

lemma roles_simps [simp]:
  "isOpenLocal (count_write n m) = isOpenLocal m" "isOpenRemote (count_write n m) = isOpenRemote m"
  "isOpenLocal (count_read n m) = isOpenLocal m" "isOpenRemote (count_read n m) = isOpenRemote m"
  "isOpenLocal (m\<lparr>mg_store := s\<rparr>) = isOpenLocal m" "isOpenRemote (m\<lparr>mg_store := s\<rparr>) = isOpenRemote m"
  "mg_aggRank (count_write n m) = mg_aggRank m" "mg_aggRank (count_read n m) = mg_aggRank m"
  "mg_store (count_write n m) = mg_store m" "mg_store (count_read n m) = mg_store m"
  by (simp_all add: count_write_def count_read_def role_defs)

lemma remote_not_local: "isOpenRemote m \<Longrightarrow> \<not> isOpenLocal m"
  by (auto simp: role_defs)

section \<open>A forwarded command\<close>

lemma cmd_distinct [simp]:
  "CMD_PUT \<noteq> CMD_GET" "CMD_DEL \<noteq> CMD_GET" "CMD_DEL \<noteq> CMD_PUT" "CMD_META_GET \<noteq> CMD_GET"
  "CMD_META_GET \<noteq> CMD_PUT" "CMD_META_GET \<noteq> CMD_DEL" "CMD_META_GET_ALL \<noteq> CMD_GET"
  "CMD_META_GET_ALL \<noteq> CMD_PUT" "CMD_META_GET_ALL \<noteq> CMD_DEL" "CMD_META_GET_ALL \<noteq> CMD_META_GET"
  "CMD_META_PUT \<noteq> CMD_GET" "CMD_META_PUT \<noteq> CMD_PUT" "CMD_META_PUT \<noteq> CMD_DEL"
  "CMD_META_PUT \<noteq> CMD_META_GET" "CMD_META_PUT \<noteq> CMD_META_GET_ALL"
  "CMD_WRITE_BARRIER \<noteq> CMD_GET" "CMD_WRITE_BARRIER \<noteq> CMD_PUT" "CMD_WRITE_BARRIER \<noteq> CMD_DEL"
  "CMD_WRITE_BARRIER \<noteq> CMD_META_GET" "CMD_WRITE_BARRIER \<noteq> CMD_META_GET_ALL"
  "CMD_WRITE_BARRIER \<noteq> CMD_META_PUT"
  "CMD_READ_BARRIER \<noteq> CMD_GET" "CMD_READ_BARRIER \<noteq> CMD_PUT" "CMD_READ_BARRIER \<noteq> CMD_DEL"
  "CMD_READ_BARRIER \<noteq> CMD_META_GET" "CMD_READ_BARRIER \<noteq> CMD_META_GET_ALL"
  "CMD_READ_BARRIER \<noteq> CMD_META_PUT" "CMD_READ_BARRIER \<noteq> CMD_WRITE_BARRIER"
  by (simp_all add: cmd_defs)

text \<open>On a store, with a plain command and key, the exchange is the callback alone.\<close>

lemma send_command_plain:
  "plain cmd \<Longrightarrow> plain k \<Longrightarrow> send_command ops cfg r cmd k v agg =
    bind_outcome (callbackForCollectiveIO ops cfg r cmd k v agg) (\<lambda>(ret, agg'). Returns agg')"
  by (simp add: send_command_def deSerialize_serialize)

lemma rpc_plain:
  "plain cmd \<Longrightarrow> plain k \<Longrightarrow> reply_command cmd = Some c \<Longrightarrow> plain c \<Longrightarrow> rpc ops cfg r cmd k v agg =
    bind_outcome (callbackForCollectiveIO ops cfg r cmd k v agg) (\<lambda>(ret, agg'). Returns ((c, k, ret), agg'))"
  by (simp add: rpc_def deSerialize_serialize split_beta cong: outcome.case_cong)

lemma callback_put:
  "mg_store m = Some s \<Longrightarrow> callbackForCollectiveIO ops cfg r CMD_PUT k v m =
    bind_outcome (store_put ops (rankedKey m r k) v (cfg_alwaysFlush cfg) s)
      (\<lambda>(b, s'). Returns ([], m\<lparr>mg_store := Some s'\<rparr>))"
  by (simp add: callbackForCollectiveIO_def Let_def)

lemma callback_get:
  "mg_store m = Some s \<Longrightarrow> callbackForCollectiveIO ops cfg r CMD_GET k v m =
    bind_outcome (op_get ops (rankedKey m r k) s) (\<lambda>x. Returns (found_value [] x, m))"
  by (simp add: callbackForCollectiveIO_def Let_def)

lemma callback_del:
  "mg_store m = Some s \<Longrightarrow> callbackForCollectiveIO ops cfg r CMD_DEL k v m =
    bind_outcome (store_del ops (rankedKey m r k) (cfg_alwaysFlush cfg) s)
      (\<lambda>(b, s'). Returns ([], m\<lparr>mg_store := Some s'\<rparr>))"
  by (simp add: callbackForCollectiveIO_def Let_def)

lemma callback_metaPut:
  "mg_store m = Some s \<Longrightarrow> callbackForCollectiveIO ops cfg r CMD_META_PUT k v m =
    bind_outcome (store_metaPut ops (rankedKey m r k) v (cfg_alwaysFlush cfg) s)
      (\<lambda>(b, s'). Returns ([], m\<lparr>mg_store := Some s'\<rparr>))"
  by (simp add: callbackForCollectiveIO_def Let_def)

lemma callback_metaGet:
  "mg_store m = Some s \<Longrightarrow> callbackForCollectiveIO ops cfg r CMD_META_GET k v m =
    bind_outcome (store_metaGet ops (rankedKey m r k) s) (\<lambda>x. Returns (found_value [] x, m))"
  by (simp add: callbackForCollectiveIO_def Let_def)

lemma callback_write_barrier:
  "mg_store m = Some s \<Longrightarrow> callbackForCollectiveIO ops cfg r CMD_WRITE_BARRIER k v m =
    bind_outcome (op_writeBarrier ops s) (\<lambda>(b, s'). Returns ([], m\<lparr>mg_store := Some s'\<rparr>))"
  by (simp add: callbackForCollectiveIO_def Let_def)

text \<open>The callback has no branch for the read barrier: it leaves the store alone.\<close>

lemma callback_read_barrier:
  "mg_store m = Some s \<Longrightarrow> callbackForCollectiveIO ops cfg r CMD_READ_BARRIER k v m = Returns ([], m)"
  by (simp add: callbackForCollectiveIO_def Let_def)

section \<open>Values in the contract of a store\<close>

context lsmio_store
begin

lemma remote_put:
  assumes s: "mg_store agg = Some s" and ok: "ok s" and room: "room Put (rankedKey agg (mg_aggRank m) k) v s"
    and m: "isOpenRemote m" and k: "plain k"
  shows "\<exists>s'. mg_put ops cfg k v flush (m, agg) =
      Returns (True, (count_write (length v) m, agg\<lparr>mg_store := Some s'\<rparr>))
    \<and> ok s' \<and> content s' = (content s)(rankedKey agg (mg_aggRank m) k \<mapsto> v)"
proof -
  from put_spec [OF ok room] obtain s' where s': "store_put ops (rankedKey agg (mg_aggRank m) k) v (cfg_alwaysFlush cfg) s
      = Returns (True, s')" "ok s'" "content s' = (content s)(rankedKey agg (mg_aggRank m) k \<mapsto> v)" .
  with m k s remote_not_local [OF m] show ?thesis
    by (auto simp: mg_put_def remote_update_def send_command_plain callback_put)
qed

lemma remote_write_barrier:
  assumes "mg_store agg = Some s" and "ok s" and m: "isOpenRemote m"
  shows "\<exists>s'. mg_writeBarrier ops cfg (m, agg) = Returns (True, (m, agg\<lparr>mg_store := Some s'\<rparr>))
    \<and> ok s' \<and> content s' = content s \<and> readable s' \<and> scannable s'"
proof -
  from write_barrier [OF assms(2)] obtain s' where "op_writeBarrier ops s = Returns (True, s')"
    "ok s'" "content s' = content s" "readable s'" "scannable s'" by blast
  with assms remote_not_local [OF m] show ?thesis
    by (auto simp: mg_writeBarrier_def remote_barrier_def rpc_plain callback_write_barrier)
qed

text \<open>A remote lookup reports success whether or not the key is there.\<close>

lemma remote_get:
  assumes "mg_store agg = Some s" and "ok s" and "readable s" and m: "isOpenRemote m" and "plain k"
  shows "mg_get ops cfg k v0 (m, agg) =
    (let v = found_value [] (content s (rankedKey agg (mg_aggRank m) k))
     in Returns ((True, v), (count_read (length v) m, agg)))"
  using assms remote_not_local [OF m] get [OF assms(2,3)]
  by (simp add: mg_get_def remote_read_def rpc_plain callback_get Let_def)

lemma local_get:
  assumes "mg_store m = Some s" and "ok s" and "readable s" and "isOpenLocal m"
  shows "mg_get ops cfg k v0 (m, agg) =
    (let r = content s (rankedKey m (mg_aggRank m) k); v = found_value v0 r
     in Returns ((r \<noteq> None, v), (count_read (length v) m, agg)))"
  using assms get [OF assms(2,3)] by (simp add: mg_get_def local_read_def Let_def)

lemma local_put:
  assumes s: "mg_store m = Some s" and ok: "ok s" and room: "room Put (rankedKey m (mg_aggRank m) k) v s"
    and m: "isOpenLocal m"
  shows "\<exists>s'. mg_put ops cfg k v flush (m, agg) =
      Returns (True, ((count_write (length v) m)\<lparr>mg_store := Some s'\<rparr>, agg))
    \<and> ok s' \<and> content s' = (content s)(rankedKey m (mg_aggRank m) k \<mapsto> v)
    \<and> (flush \<and> readable s \<longrightarrow> readable s')"
proof -
  from put_spec [OF ok room] obtain s' where "store_put ops (rankedKey m (mg_aggRank m) k) v flush s
      = Returns (True, s')" "ok s'" "content s' = (content s)(rankedKey m (mg_aggRank m) k \<mapsto> v)"
    "flush \<and> readable s \<longrightarrow> readable s'" .
  with m s show ?thesis by (auto simp: mg_put_def local_update_def)
qed

lemma local_write_barrier:
  assumes "mg_store m = Some s" and "ok s" and "isOpenLocal m"
  shows "\<exists>s'. mg_writeBarrier ops cfg (m, agg) = Returns (True, (m\<lparr>mg_store := Some s'\<rparr>, agg))
    \<and> ok s' \<and> content s' = content s \<and> readable s' \<and> scannable s'"
proof -
  from write_barrier [OF assms(2)] obtain s' where "op_writeBarrier ops s = Returns (True, s')"
    "ok s'" "content s' = content s" "readable s'" "scannable s'" by blast
  with assms(1,3) show ?thesis by (auto simp: mg_writeBarrier_def local_update_def)
qed

text \<open>What a client writes, and a barrier, and then a lookup of the same client.\<close>

lemma remote_put_barrier_get:
  assumes "mg_store agg = Some s" and "ok s" and "room Put (rankedKey agg (mg_aggRank m) k) v s"
    and m: "isOpenRemote m" and k: "plain k"
  shows "\<exists>p1 p2 p3. mg_put ops cfg k v flush (m, agg) = Returns (True, p1)
    \<and> mg_writeBarrier ops cfg p1 = Returns (True, p2)
    \<and> mg_get ops cfg k v0 p2 = Returns ((True, v), p3)"
proof -
  let ?m1 = "count_write (length v) m"
  from remote_put [OF assms] obtain s1 where 1: "mg_put ops cfg k v flush (m, agg) =
      Returns (True, (?m1, agg\<lparr>mg_store := Some s1\<rparr>))" "ok s1"
    "content s1 = (content s)(rankedKey agg (mg_aggRank m) k \<mapsto> v)" by blast
  have m1: "isOpenRemote ?m1" using m by simp
  from remote_write_barrier [of "agg\<lparr>mg_store := Some s1\<rparr>" s1 ?m1] 1(2) m1 obtain s2 where
    2: "mg_writeBarrier ops cfg (?m1, agg\<lparr>mg_store := Some s1\<rparr>) = Returns (True, (?m1, agg\<lparr>mg_store := Some s2\<rparr>))"
      "ok s2" "content s2 = content s1" "readable s2" by auto
  from remote_get [of "agg\<lparr>mg_store := Some s2\<rparr>" s2 ?m1 k cfg v0] 2 m1 k 1(3)
  have "\<exists>p3. mg_get ops cfg k v0 (?m1, agg\<lparr>mg_store := Some s2\<rparr>) = Returns ((True, v), p3)"
    by (simp add: Let_def found_value_def)
  with 1(1) 2(1) show ?thesis by blast
qed

end

section \<open>The process-wide manager\<close>

text \<open>
  \<open>initialize\<close>, \<open>getManager\<close> and \<open>cleanup\<close> work on four static variables. The constructor may
  throw; the flag \<open>_lmInitializing\<close> is then left set.
\<close>

record 'm lm_static =
  lm_instance :: "'m option"
  lm_initialized :: bool
  lm_initializing :: bool
  lm_cleaning :: bool

definition lm_start :: "'m lm_static" where
  "lm_start = \<lparr>lm_instance = None, lm_initialized = False, lm_initializing = False, lm_cleaning = False\<rparr>"

definition lm_initialize :: "'m outcome \<Rightarrow> 'm lm_static \<Rightarrow> 'm option outcome \<times> 'm lm_static" where
  "lm_initialize created st =
     (if lm_initialized st then (Returns None, st)
      else if lm_initializing st then (Returns None, st)
      else let st1 = st\<lparr>lm_initializing := True\<rparr> in
        (case created of
           Returns m \<Rightarrow> (Returns (Some m),
             st1\<lparr>lm_instance := Some m, lm_initializing := False, lm_initialized := True\<rparr>)
         | Blocks \<Rightarrow> (Blocks, st1)
         | Throws e \<Rightarrow> (Throws e, st1)
         | Undefined \<Rightarrow> (Undefined, st1)
         | Exits c \<Rightarrow> (Exits c, st1)))"

definition lm_getManager :: "'m lm_static \<Rightarrow> 'm option" where
  "lm_getManager st =
     (if \<not> lm_initialized st \<or> lm_initializing st then None
      else if lm_cleaning st then None
      else lm_instance st)"

definition lm_cleanup :: "'m lm_static \<Rightarrow> bool \<times> 'm lm_static" where
  "lm_cleanup st =
     (if \<not> lm_initialized st \<or> lm_initializing st then (False, st)
      else if lm_cleaning st then (False, st)
      else (True, st\<lparr>lm_instance := None, lm_cleaning := False, lm_initialized := False\<rparr>))"

definition lm_inv :: "'m lm_static \<Rightarrow> bool" where
  "lm_inv st \<longleftrightarrow> (lm_initialized st \<longleftrightarrow> lm_instance st \<noteq> None)
     \<and> \<not> (lm_initialized st \<and> lm_initializing st) \<and> \<not> lm_cleaning st"

lemma lm_inv_initialize: "lm_inv st \<Longrightarrow> lm_inv (snd (lm_initialize created st))"
  by (cases created) (auto simp: lm_inv_def lm_initialize_def Let_def)

lemma lm_inv_cleanup: "lm_inv st \<Longrightarrow> lm_inv (snd (lm_cleanup st))"
  by (auto simp: lm_inv_def lm_cleanup_def)

section \<open>Properties\<close>

text \<open>
  C36. A rank that forwards its operations shares its group with another rank, which has rank 0 in the
  group, opens a store and serves it.
\<close>

theorem client_has_server:
  assumes m: "isOpenRemote (manager_layout cfg env name dir ow :: 's manager)" and "me_rank env < me_size env"
  shows "\<exists>q < me_size env. q \<noteq> me_rank env \<and> group_color cfg env q = group_color cfg env (me_rank env)
    \<and> isServeLocal (manager_layout cfg (env\<lparr>me_rank := q\<rparr>) name' dir' ow' :: 's manager)
    \<and> isOpenLocal (manager_layout cfg (env\<lparr>me_rank := q\<rparr>) name' dir' ow' :: 's manager)"
proof -
  from remote_has_server [OF assms] obtain q where q: "q < me_size env"
    "group_color cfg env q = group_color cfg env (me_rank env)"
    "isServeLocal (manager_layout cfg (env\<lparr>me_rank := q\<rparr>) name' dir' ow' :: 's manager)" by blast
  have "q \<noteq> me_rank env"
  proof
    assume "q = me_rank env"
    with q(3) have "isServeLocal (manager_layout cfg env name' dir' ow' :: 's manager)" by simp
    with m show False by (auto simp: role_defs)
  qed
  with q show ?thesis by (auto simp: role_defs)
qed

definition sample_env :: "nat \<Rightarrow> mpi_env" where
  "sample_env r = \<lparr>me_adios = None, me_mpi = True, me_rank = r, me_size = 2, me_node = (\<lambda>_. 0)\<rparr>"

definition sample_member :: "nat \<Rightarrow> 's option \<Rightarrow> 's manager" where
  "sample_member r s = (manager_layout default_config (sample_env r) ''d'' [] True)\<lparr>mg_store := s\<rparr>"

lemma sample_roles: "isOpenRemote (manager_layout default_config (sample_env 1) name dir ow)"
  by (simp add: isOpenRemote_def AGGREGATION_RANK_def) (simp add: sample_env_def split_rank_def group_color_def
      default_config_def)

theorem client_has_server_witness:
  "\<exists>q < 2. q \<noteq> 1 \<and> isServeLocal (manager_layout default_config ((sample_env 1)\<lparr>me_rank := q\<rparr>) ''d'' [] True)"
  using client_has_server [OF sample_roles, of "''d''" "[]" True]
  by (auto simp: sample_env_def)

text \<open>
  When the constructor of the process-wide manager throws, no later call creates one, whatever its
  constructor would do: the flag of the first call stays set.
\<close>

theorem init_failure_sticks:
  "let st = snd (lm_initialize (Throws e) lm_start)
   in lm_initialize created st = (Returns None, st) \<and> lm_getManager st = None \<and> lm_cleanup st = (False, st)"
  by (simp add: lm_initialize_def lm_start_def lm_getManager_def lm_cleanup_def Let_def)

end
