(* ===== verification/Posix.thy ===== *)
theory Posix
  imports Manager_Laws
begin

text \<open>
  The stream interface \<open>LSMIOStream\<close> of \<open>lib/posix/posix.cpp\<close>: a file is a sequence of chunks,
  each stored under the path and the offset at which it was written. The offsets of all paths
  and the one manager are static; a stream object holds only its path. The state a call leaves
  behind when it throws is not modelled. \<open>_buf\<close>, the unused \<open>fstream\<close> behind \<open>rdbuf\<close>, has no
  counterpart.
\<close>

section \<open>State\<close>

datatype ios_flag = Ios_app | Ios_ate | Ios_binary | Ios_in | Ios_out | Ios_trunc

datatype seekdir = Seek_beg | Seek_cur | Seek_end

text \<open>\<open>px_static\<close> holds \<open>_lm\<close>, \<open>_lsmioInitialized\<close>, \<open>_lsmioInitializing\<close> and \<open>_lsmioCleaning\<close>.\<close>

record 's posix =
  px_fileMap :: "string \<rightharpoonup> u64"
  px_static :: "'s peers lm_static"

definition px_start :: "'s posix" where
  "px_start = \<lparr>px_fileMap = Map.empty, px_static = lm_start\<rparr>"

text \<open>\<open>_fileMap[path]\<close> creates the entry when there is none.\<close>

definition file_offset :: "string \<Rightarrow> 's posix \<Rightarrow> u64" where
  "file_offset path st = (case px_fileMap st path of None \<Rightarrow> 0 | Some off \<Rightarrow> off)"

definition set_offset :: "string \<Rightarrow> u64 \<Rightarrow> 's posix \<Rightarrow> 's posix" where
  "set_offset path off st = st\<lparr>px_fileMap := (px_fileMap st)(path \<mapsto> off)\<rparr>"

definition chunk_key :: "string \<Rightarrow> u64 \<Rightarrow> key" where
  "chunk_key path off = path @ ''::'' @ to_string_int (sint off)"

definition genKey :: "string \<Rightarrow> 's posix \<Rightarrow> key \<times> 's posix" where
  "genKey path st = (chunk_key path (file_offset path st), set_offset path (file_offset path st) st)"

definition set_peers :: "'s peers \<Rightarrow> 's posix \<Rightarrow> 's posix" where
  "set_peers p st = st\<lparr>px_static := (px_static st)\<lparr>lm_instance := Some p\<rparr>\<rparr>"

lemmas px_state_defs [lsm_defs] = px_start_def file_offset_def set_offset_def genKey_def set_peers_def

section \<open>Operations\<close>

text \<open>\<open>open\<close> answers the new path of the stream.\<close>

definition px_open :: "string \<Rightarrow> ios_flag set \<Rightarrow> 's posix \<Rightarrow> string \<times> 's posix" where
  "px_open filename mode st =
     (filename,
      if px_fileMap st filename = None then set_offset filename 0 st
      else if mode = {Ios_trunc} then set_offset filename 0 st
      else st)"

definition px_new :: "string option \<Rightarrow> ios_flag set \<Rightarrow> 's posix \<Rightarrow> string \<times> 's posix" where
  "px_new filename mode st = (case filename of None \<Rightarrow> ([], st) | Some f \<Rightarrow> px_open f mode st)"

text \<open>
  \<open>read\<close> answers the bytes it puts at the start of the caller's buffer. The comparison of the
  size with \<open>n\<close> is on unsigned 64-bit values; the sum of the offset and \<open>n\<close> is signed.
\<close>

definition px_read ::
  "'s store_ops \<Rightarrow> lsmio_config \<Rightarrow> string \<Rightarrow> int \<Rightarrow> 's posix \<Rightarrow> (string \<times> 's posix) outcome" where
  "px_read ops cfg path n st =
     (if \<not> lm_initialized (px_static st)
      then Throws ''ERROR: LSMIOStream::read called without initializing''
      else case lm_instance (px_static st) of None \<Rightarrow> Undefined | Some p \<Rightarrow>
        (case genKey path st of (k, st1) \<Rightarrow>
           bind_outcome (mg_get ops cfg k [] p) (\<lambda>((b, v), p').
             if int (length v) \<noteq> n mod 2 ^ 64
             then Throws ''ERROR: LSMIOStream::read unexpected length of data''
             else if sint (file_offset path st1) + n \<ge> 2 ^ 63 then Undefined
             else Returns (v, set_offset path (file_offset path st1 + word_of_int n) (set_peers p' st1)))))"

definition px_write ::
  "'s store_ops \<Rightarrow> lsmio_config \<Rightarrow> string \<Rightarrow> string \<Rightarrow> 's posix \<Rightarrow> 's posix outcome" where
  "px_write ops cfg path s st =
     (if \<not> lm_initialized (px_static st)
      then Throws ''ERROR: LSMIOStream::write called without initializing''
      else case lm_instance (px_static st) of None \<Rightarrow> Undefined | Some p \<Rightarrow>
        (case genKey path st of (k, st1) \<Rightarrow>
           bind_outcome (mg_put_default ops cfg k s p) (\<lambda>(b, p').
             Returns (set_offset path (file_offset path st1 + word_of_nat (length s)) (set_peers p' st1)))))"

text \<open>\<open>write(const char* s, std::streamsize n)\<close>: \<open>mem\<close> is the memory from \<open>s\<close> on.\<close>

definition px_write_chars ::
  "'s store_ops \<Rightarrow> lsmio_config \<Rightarrow> string \<Rightarrow> string \<Rightarrow> nat \<Rightarrow> 's posix \<Rightarrow> 's posix outcome" where
  "px_write_chars ops cfg path mem n st =
     (if length mem < n then Undefined else px_write ops cfg path (take n mem) st)"

definition px_seekp :: "string \<Rightarrow> u64 \<Rightarrow> seekdir \<Rightarrow> 's posix \<Rightarrow> 's posix outcome" where
  "px_seekp path off way st =
     (if way = Seek_beg then Returns (set_offset path off st)
      else Throws ''ERROR: LSMIOStream::seekp is not called from beginning'')"

definition px_tellp :: "string \<Rightarrow> 's posix \<Rightarrow> int \<times> 's posix" where
  "px_tellp path st = (sint (file_offset path st), set_offset path (file_offset path st) st)"

definition px_good :: "'s posix \<Rightarrow> bool" where
  "px_good st \<longleftrightarrow> lm_initialized (px_static st)"

definition px_fail :: "'s posix \<Rightarrow> bool" where
  "px_fail st \<longleftrightarrow> \<not> lm_initialized (px_static st)"

definition px_flush :: "'s posix \<Rightarrow> 's posix" where
  "px_flush st = st"

definition px_close :: "string \<Rightarrow> 's posix \<Rightarrow> 's posix" where
  "px_close path st = set_offset path 0 st"

text \<open>
  \<open>initialize\<close>: \<open>created\<close> is what \<open>new LSMIOManager(dbName, dbDir)\<close> gives. The second component
  is the state also when the constructor throws.
\<close>

definition px_initialize :: "'s peers outcome \<Rightarrow> 's posix \<Rightarrow> bool outcome \<times> 's posix" where
  "px_initialize created st =
     (let x = px_static st in
      if lm_initialized x then (Returns False, st)
      else if lm_initializing x then (Returns False, st)
      else let x1 = x\<lparr>lm_initializing := True\<rparr> in
        (case created of
           Returns p \<Rightarrow> (Returns True, st\<lparr>px_static :=
             x1\<lparr>lm_instance := Some p, lm_initializing := False, lm_initialized := True\<rparr>\<rparr>)
         | Blocks \<Rightarrow> (Blocks, st\<lparr>px_static := x1\<rparr>)
         | Throws e \<Rightarrow> (Throws e, st\<lparr>px_static := x1\<rparr>)
         | Undefined \<Rightarrow> (Undefined, st\<lparr>px_static := x1\<rparr>)
         | Exits c \<Rightarrow> (Exits c, st\<lparr>px_static := x1\<rparr>)))"

definition px_cleanup :: "'s posix \<Rightarrow> bool \<times> 's posix" where
  "px_cleanup st =
     (let x = px_static st in
      if \<not> lm_initialized x \<or> lm_initializing x then (False, st)
      else if lm_cleaning x then (False, st)
      else (True, st\<lparr>px_static := x\<lparr>lm_instance := None, lm_cleaning := False, lm_initialized := False\<rparr>\<rparr>))"

definition px_writeBarrier :: "'s store_ops \<Rightarrow> lsmio_config \<Rightarrow> 's posix \<Rightarrow> (bool \<times> 's posix) outcome" where
  "px_writeBarrier ops cfg st =
     (if \<not> lm_initialized (px_static st)
      then Throws ''ERROR: LSMIOStream::write called without initializing''
      else case lm_instance (px_static st) of None \<Rightarrow> Undefined | Some p \<Rightarrow>
        bind_outcome (mg_writeBarrier ops cfg p) (\<lambda>(b, p'). Returns (True, set_peers p' st)))"

lemmas px_op_defs [lsm_defs] = px_good_def px_fail_def px_flush_def px_close_def px_tellp_def

section \<open>Chunk keys\<close>

lemma sint_small: "n < 2 ^ 63 \<Longrightarrow> sint (word_of_nat n :: u64) = int n"
  by (simp add: sint_uint unsigned_of_nat signed_take_bit_int_eq_self take_bit_nat_eq_self)

lemma no_colon_to_string: "CHR '':'' \<notin> set (to_string_int z)"
  by (auto simp: to_string_int_def dec_no_char)

lemma to_string_int_inj: "to_string_int a = to_string_int b \<longleftrightarrow> a = b"
proof
  have minus: "CHR ''-'' \<notin> set (dec n)" for n by (rule dec_no_char) (simp add: is_digit_def)
  assume "to_string_int a = to_string_int b"
  then show "a = b"
    using minus [of "nat a"] minus [of "nat b"]
    by (auto simp: to_string_int_def dec_inj split: if_splits dest!: arg_cong [where f = set])
qed simp

lemma chunk_key_inj: "chunk_key p off = chunk_key q off' \<longleftrightarrow> p = q \<and> off = off'"
proof
  let ?P = "\<lambda>c. c \<noteq> CHR '':''"
  assume e: "chunk_key p off = chunk_key q off'"
  have tw: "takeWhile ?P (rev (chunk_key p off)) = rev (to_string_int (sint off))" for p off
  proof -
    have "\<forall>c \<in> set (rev (to_string_int (sint off))). ?P c" using no_colon_to_string by auto
    then have "takeWhile ?P (rev (to_string_int (sint off)) @ CHR '':'' # CHR '':'' # rev p) =
        rev (to_string_int (sint off))" by (subst takeWhile_append2) auto
    then show ?thesis by (simp add: chunk_key_def)
  qed
  from e have "to_string_int (sint off) = to_string_int (sint off')"
    using tw [of p off] tw [of q off'] by simp
  with e show "p = q \<and> off = off'" by (simp add: to_string_int_inj chunk_key_def signed_word_eqI)
qed simp

section \<open>Round trip\<close>

text \<open>A file written, and a file read, in chunks of given contents or sizes.\<close>

fun px_write_all ::
  "'s store_ops \<Rightarrow> lsmio_config \<Rightarrow> string \<Rightarrow> string list \<Rightarrow> 's posix \<Rightarrow> 's posix outcome" where
  "px_write_all ops cfg path [] st = Returns st"
| "px_write_all ops cfg path (c # cs) st =
     bind_outcome (px_write ops cfg path c st) (px_write_all ops cfg path cs)"

fun px_read_all ::
  "'s store_ops \<Rightarrow> lsmio_config \<Rightarrow> string \<Rightarrow> nat list \<Rightarrow> 's posix \<Rightarrow> (string list \<times> 's posix) outcome" where
  "px_read_all ops cfg path [] st = Returns ([], st)"
| "px_read_all ops cfg path (n # ns) st =
     bind_outcome (px_read ops cfg path (int n) st) (\<lambda>(c, st1).
       bind_outcome (px_read_all ops cfg path ns st1) (\<lambda>(cs, st2). Returns (c # cs, st2)))"

text \<open>What a store, under the key function \<open>K\<close>, holds of a file from an offset on.\<close>

fun holds_chunks :: "(key \<Rightarrow> key) \<Rightarrow> string \<Rightarrow> nat \<Rightarrow> string list \<Rightarrow> (key \<rightharpoonup> val) \<Rightarrow> bool" where
  "holds_chunks K path off [] m \<longleftrightarrow> True"
| "holds_chunks K path off (c # cs) m \<longleftrightarrow>
     m (K (chunk_key path (word_of_nat off))) = Some c \<and> holds_chunks K path (off + length c) cs m"

abbreviation total_length :: "string list \<Rightarrow> nat" where
  "total_length cs \<equiv> sum_list (map length cs)"

lemma chunk_key_nat_inj:
  assumes "i < 2 ^ 63" and "j < 2 ^ 63"
  shows "chunk_key p (word_of_nat i) = chunk_key p (word_of_nat j) \<longleftrightarrow> i = j"
proof
  assume "chunk_key p (word_of_nat i) = chunk_key p (word_of_nat j)"
  then have "sint (word_of_nat i :: u64) = sint (word_of_nat j :: u64)" by (simp only: chunk_key_inj)
  then show "i = j" using sint_small [OF assms(1)] sint_small [OF assms(2)] by linarith
qed simp

context lsmio_store
begin

text \<open>
  The stream layer is up on a local manager whose store is \<open>s\<close> and whose keys go through
  \<open>K\<close>, and the file \<open>path\<close> stands at \<open>off\<close>.
\<close>

definition stands :: "(key \<Rightarrow> key) \<Rightarrow> string \<Rightarrow> nat \<Rightarrow> 's \<Rightarrow> 's posix \<Rightarrow> bool" where
  "stands K path off s st \<longleftrightarrow> lm_initialized (px_static st) \<and> ok s \<and>
     px_fileMap st path = Some (word_of_nat off) \<and>
     (\<exists>m agg. lm_instance (px_static st) = Some (m, agg) \<and> mg_store m = Some s \<and> isOpenLocal m
        \<and> rankedKey m (mg_aggRank m) = K)"

lemma stands_write:
  assumes st: "stands K path off s st" and room: "room Put (K (chunk_key path (word_of_nat off))) c s"
  shows "\<exists>st' s'. px_write ops cfg path c st = Returns st' \<and> stands K path (off + length c) s' st'
    \<and> content s' = (content s)(K (chunk_key path (word_of_nat off)) \<mapsto> c)"
proof -
  let ?k = "chunk_key path (word_of_nat off)"
  from st obtain m agg where m: "lm_instance (px_static st) = Some (m, agg)" "mg_store m = Some s"
      "isOpenLocal m" "rankedKey m (mg_aggRank m) = K"
    and ok: "ok s" and off: "lm_initialized (px_static st)" "px_fileMap st path = Some (word_of_nat off)"
    by (auto simp: stands_def)
  from local_put [OF m(2) ok, of ?k c cfg "cfg_alwaysFlush cfg" agg] room m(3,4) obtain s' where
    p: "mg_put_default ops cfg ?k c (m, agg) =
        Returns (True, (count_write (length c) m)\<lparr>mg_store := Some s'\<rparr>, agg)" "ok s'"
      "content s' = (content s)(K ?k \<mapsto> c)" by (auto simp: mg_put_default_def)
  with m off show ?thesis
    by (intro exI [of _ "set_offset path (word_of_nat (off + length c))
          (set_peers ((count_write (length c) m)\<lparr>mg_store := Some s'\<rparr>, agg)
            (set_offset path (word_of_nat off) st))"] exI [of _ s'])
       (simp add: px_write_def px_state_defs stands_def)
qed

lemma stands_write_all:
  assumes "stands K path off s st" and "inj K" and "[] \<notin> set cs" and "off + total_length cs < 2 ^ 63"
    and room: "\<And>s k c. ok s \<Longrightarrow> c \<in> set cs \<Longrightarrow> room Put k c s"
  shows "\<exists>st' s'. px_write_all ops cfg path cs st = Returns st' \<and> stands K path (off + total_length cs) s' st'
    \<and> holds_chunks K path off cs (content s')
    \<and> (\<forall>i < off. content s' (K (chunk_key path (word_of_nat i))) = content s (K (chunk_key path (word_of_nat i))))"
  using assms
proof (induction cs arbitrary: off s st)
  case (Cons c cs)
  let ?k = "\<lambda>i. K (chunk_key path (word_of_nat i))"
  have "room Put (?k off) c s" using Cons.prems(1,5) by (simp add: stands_def)
  from stands_write [OF Cons.prems(1) this, of cfg] obtain st1 s1 where
    1: "px_write ops cfg path c st = Returns st1" "stands K path (off + length c) s1 st1"
      "content s1 = (content s)(?k off \<mapsto> c)" by blast
  have "\<exists>st' s'. px_write_all ops cfg path cs st1 = Returns st' \<and> stands K path (off + length c + total_length cs) s' st'
    \<and> holds_chunks K path (off + length c) cs (content s')
    \<and> (\<forall>i < off + length c. content s' (?k i) = content s1 (?k i))"
    by (rule Cons.IH [OF 1(2)]) (use Cons.prems in \<open>auto simp: add.assoc\<close>)
  then obtain st' s' where 2: "px_write_all ops cfg path cs st1 = Returns st'"
      "stands K path (off + length c + total_length cs) s' st'"
      "holds_chunks K path (off + length c) cs (content s')"
      "\<forall>i < off + length c. content s' (?k i) = content s1 (?k i)" by blast
  have c: "0 < length c" using Cons.prems(3) by auto
  have new: "?k i \<noteq> ?k off" if "i < off" for i
    using that Cons.prems(2,4) chunk_key_nat_inj [of i off path] by (auto dest: injD)
  have "content s' (?k off) = Some c" using 2(4) 1(3) c by simp
  moreover have "content s' (?k i) = content s (?k i)" if "i < off" for i
    using 2(4) 1(3) new [OF that] that by simp
  ultimately show ?case using 1(1) 2(1-3) by (auto simp: add.assoc)
qed auto

lemma stands_barrier:
  assumes st: "stands K path off s st"
  shows "\<exists>st' s'. px_writeBarrier ops cfg st = Returns (True, st') \<and> stands K path off s' st'
    \<and> content s' = content s \<and> readable s'"
proof -
  from st obtain m agg where m: "lm_instance (px_static st) = Some (m, agg)" "mg_store m = Some s"
      "isOpenLocal m" "rankedKey m (mg_aggRank m) = K"
    and ok: "ok s" and off: "lm_initialized (px_static st)" "px_fileMap st path = Some (word_of_nat off)"
    by (auto simp: stands_def)
  from local_write_barrier [OF m(2) ok m(3), of cfg agg] obtain s' where
    b: "mg_writeBarrier ops cfg (m, agg) = Returns (True, (m\<lparr>mg_store := Some s'\<rparr>, agg))"
      "ok s'" "content s' = content s" "readable s'" by blast
  with m off show ?thesis
    by (intro exI [of _ "set_peers (m\<lparr>mg_store := Some s'\<rparr>, agg) st"] exI [of _ s'])
       (simp add: px_writeBarrier_def px_state_defs stands_def)
qed

lemma stands_seek:
  "stands K path off s st \<Longrightarrow>
    \<exists>st'. px_seekp path (word_of_nat i) Seek_beg st = Returns st' \<and> stands K path i s st'"
  by (auto simp: px_seekp_def px_state_defs stands_def)

lemma stands_read:
  assumes st: "stands K path off s st" and "readable s"
    and c: "content s (K (chunk_key path (word_of_nat off))) = Some c" and small: "off + length c < 2 ^ 63"
  shows "\<exists>st'. px_read ops cfg path (int (length c)) st = Returns (c, st') \<and> stands K path (off + length c) s st'"
proof -
  let ?k = "chunk_key path (word_of_nat off)"
  from st obtain m agg where m: "lm_instance (px_static st) = Some (m, agg)" "mg_store m = Some s"
      "isOpenLocal m" "rankedKey m (mg_aggRank m) = K"
    and ok: "ok s" and off: "lm_initialized (px_static st)" "px_fileMap st path = Some (word_of_nat off)"
    by (auto simp: stands_def)
  have g: "mg_get ops cfg ?k [] (m, agg) = Returns ((True, c), (count_read (length c) m, agg))"
    using local_get [OF m(2) ok \<open>readable s\<close> m(3), of cfg ?k "[]" agg] m(4) c by (simp add: found_value_def)
  have n: "sint (word_of_nat off :: u64) = int off" "int (length c) mod 2 ^ 64 = int (length c)"
    using small by (simp_all add: sint_small)
  with g m off small ok show ?thesis
    by (intro exI [of _ "set_offset path (word_of_nat (off + length c))
          (set_peers (count_read (length c) m, agg) (set_offset path (word_of_nat off) st))"])
       (simp add: px_read_def px_state_defs stands_def)
qed

lemma stands_read_all:
  assumes "stands K path off s st" and "readable s" and "holds_chunks K path off cs (content s)"
    and "off + total_length cs < 2 ^ 63"
  shows "\<exists>st'. px_read_all ops cfg path (map length cs) st = Returns (cs, st')
    \<and> stands K path (off + total_length cs) s st'"
  using assms
proof (induction cs arbitrary: off st)
  case (Cons c cs)
  from stands_read [OF Cons.prems(1,2), of c cfg] Cons.prems(3,4) obtain st1 where
    1: "px_read ops cfg path (int (length c)) st = Returns (c, st1)" "stands K path (off + length c) s st1"
    by auto
  from Cons.IH [OF 1(2) Cons.prems(2)] Cons.prems(3,4) obtain st' where
    "px_read_all ops cfg path (map length cs) st1 = Returns (cs, st')"
    "stands K path (off + length c + total_length cs) s st'" by (auto simp: add.assoc)
  with 1(1) show ?case by (auto simp: add.assoc)
qed auto

text \<open>Chunks written one after the other, a barrier, a seek to the start: reads of the same sizes give them back.\<close>

lemma stream_roundtrip:
  assumes "stands K path 0 s st" and "inj K" and "[] \<notin> set cs" and "total_length cs < 2 ^ 63"
    and room: "\<And>s k c. ok s \<Longrightarrow> c \<in> set cs \<Longrightarrow> room Put k c s"
  shows "\<exists>st1 st2 st3 st4. px_write_all ops cfg path cs st = Returns st1
    \<and> px_writeBarrier ops cfg st1 = Returns (True, st2)
    \<and> px_seekp path 0 Seek_beg st2 = Returns st3
    \<and> px_read_all ops cfg path (map length cs) st3 = Returns (cs, st4)"
proof -
  from stands_write_all [OF assms(1-3) _ room, of cfg] assms(4) obtain st1 s1 where
    1: "px_write_all ops cfg path cs st = Returns st1" "stands K path (total_length cs) s1 st1"
      "holds_chunks K path 0 cs (content s1)" by auto
  from stands_barrier [OF 1(2), of cfg] obtain st2 s2 where
    2: "px_writeBarrier ops cfg st1 = Returns (True, st2)" "stands K path (total_length cs) s2 st2"
      "content s2 = content s1" "readable s2" by blast
  from stands_seek [OF 2(2), of 0] obtain st3 where
    3: "px_seekp path 0 Seek_beg st2 = Returns st3" "stands K path 0 s2 st3" by auto
  from stands_read_all [OF 3(2) 2(4), of cs cfg] 1(3) 2(3) assms(4) obtain st4 where
    "px_read_all ops cfg path (map length cs) st3 = Returns (cs, st4)" by auto
  with 1(1) 2(1) 3(1) show ?thesis by blast
qed

text \<open>A read whose size is not that of the chunk written at its offset throws.\<close>

lemma stands_read_other_size:
  assumes st: "stands K path off s st" and "readable s"
    and c: "content s (K (chunk_key path (word_of_nat off))) = Some c"
    and n: "n \<noteq> length c" "n < 2 ^ 64" and small: "off + length c < 2 ^ 63"
  shows "px_read ops cfg path (int n) st = Throws ''ERROR: LSMIOStream::read unexpected length of data''"
proof -
  let ?k = "chunk_key path (word_of_nat off)"
  from st obtain m agg where m: "lm_instance (px_static st) = Some (m, agg)" "mg_store m = Some s"
      "isOpenLocal m" "rankedKey m (mg_aggRank m) = K"
    and ok: "ok s" and off: "lm_initialized (px_static st)" "px_fileMap st path = Some (word_of_nat off)"
    by (auto simp: stands_def)
  have g: "mg_get ops cfg ?k [] (m, agg) = Returns ((True, c), (count_read (length c) m, agg))"
    using local_get [OF m(2) ok \<open>readable s\<close> m(3), of cfg ?k "[]" agg] m(4) c by (simp add: found_value_def)
  have "int n mod 2 ^ 64 = int n" using n(2) by simp
  with g m off n(1) show ?thesis by (simp add: px_read_def px_state_defs)
qed

end

end
