(* ===== verification/Benchmark.thy ===== *)
theory Benchmark
  imports Std_Text
begin

text \<open>
  The class \<open>Benchmark\<close> of \<open>include/lsmio/benchmark.hpp\<close> and \<open>lib/benchmark.cpp\<close>: a timer with
  its misuse errors, a multimap of iterations, and their summary and tables. Readings of the
  clock are arguments, in nanoseconds. The arithmetic of \<open>double\<close> and its printing by \<open>fmt\<close> are
  a parameter: the definitions hold for any rounding, and also for the values that do not compare.
\<close>

section \<open>The timer\<close>

record bm_timer =
  bt_isStarted :: bool
  bt_start :: int
  bt_stop :: int

definition bt_new :: bm_timer where
  "bt_new = \<lparr>bt_isStarted = False, bt_start = 0, bt_stop = 0\<rparr>"

definition bm_start :: "int \<Rightarrow> bm_timer \<Rightarrow> bm_timer outcome" where
  "bm_start now b =
     (if bt_isStarted b
      then Throws ''ERROR: lsmio::Benchmark::start: method ran but it is already started.''
      else Returns (b\<lparr>bt_isStarted := True, bt_start := now\<rparr>))"

definition bm_stop :: "bool \<Rightarrow> int \<Rightarrow> bm_timer \<Rightarrow> bm_timer outcome" where
  "bm_stop idempotent now b =
     (if \<not> bt_isStarted b
      then (if idempotent then Returns b
            else Throws ''ERROR: lsmio::Benchmark::stop: method ran without starting.'')
      else Returns (b\<lparr>bt_stop := now, bt_isStarted := False\<rparr>))"

text \<open>\<open>duration_cast\<close> to microseconds truncates towards zero.\<close>

definition to_microseconds :: "int \<Rightarrow> int" where
  "to_microseconds d = (if d < 0 then - (- d div 1000) else d div 1000)"

definition bm_sofar :: "int \<Rightarrow> bm_timer \<Rightarrow> int outcome" where
  "bm_sofar now b =
     (if \<not> bt_isStarted b then Throws ''ERROR: lsmio::Benchmark::stop: method ran without starting.''
      else Returns (to_microseconds (now - bt_start b)))"

definition bm_duration :: "bm_timer \<Rightarrow> int outcome" where
  "bm_duration b =
     (if bt_isStarted b then Throws ''ERROR: lsmio::Benchmark::stop: method ran while running.''
      else Returns (to_microseconds (bt_stop b - bt_start b)))"

lemmas timer_defs [lsm_defs] = bm_start_def bm_stop_def bm_sofar_def bm_duration_def

text \<open>What a start, a stop and a reading give, and that each call fails in the other state.\<close>

lemma timer_run:
  assumes "\<not> bt_isStarted b" and "t0 \<le> t1"
  shows "bind_outcome (bm_start t0 b) (\<lambda>b1. bind_outcome (bm_stop i t1 b1) bm_duration) = Returns ((t1 - t0) div 1000)"
  using assms by (simp add: timer_defs to_microseconds_def)

section \<open>Iterations\<close>

text \<open>\<open>std::multimap::insert\<close>: behind the entries of the same key.\<close>

type_synonym 'd iteration = "string \<times> int \<times> 'd \<times> 'd"

fun addIteration :: "string \<Rightarrow> int \<Rightarrow> 'd \<Rightarrow> 'd \<Rightarrow> 'd iteration list \<Rightarrow> 'd iteration list" where
  "addIteration n duration bytes nops [] = [(n, duration, bytes, nops)]"
| "addIteration n duration bytes nops (e # es) =
     (if n < fst e then (n, duration, bytes, nops) # e # es
      else e # addIteration n duration bytes nops es)"

definition clearIterations :: "'d iteration list \<Rightarrow> 'd iteration list" where
  "clearIterations es = []"

definition named :: "string \<Rightarrow> 'd iteration list \<Rightarrow> (int \<times> 'd \<times> 'd) list" where
  "named n es = map snd (filter (\<lambda>e. fst e = n) es)"

lemma named_simps [simp]:
  "named n [] = []" "named n (e # es) = (if fst e = n then snd e # named n es else named n es)"
  by (simp_all add: named_def)

lemma keys_addIteration [simp]: "fst ` set (addIteration n d b q es) = insert n (fst ` set es)"
  by (induction es) auto

lemma sorted_addIteration: "sorted (map fst es) \<Longrightarrow> sorted (map fst (addIteration n d b q es))"
proof (induction es)
  case (Cons e es)
  have "n' \<in> insert n (fst ` set es)" if "n' \<in> fst ` set (addIteration n d b q es)" for n'
    using that by simp
  with Cons show ?case by (fastforce simp: not_less)
qed simp

text \<open>In the sorted map, the entries of one name keep the order in which they were added.\<close>

lemma named_addIteration:
  "sorted (map fst es) \<Longrightarrow>
    named m (addIteration n d b q es) = named m es @ (if m = n then [(d, b, q)] else [])"
proof (induction es)
  case (Cons e es)
  have "named n es = [] \<and> fst e \<noteq> n" if "n < fst e"
    using that Cons.prems by (fastforce simp: named_def filter_empty_conv)
  with Cons show ?case by auto
qed simp

section \<open>The summary\<close>

record 'd fp =
  fp_of_int :: "int \<Rightarrow> 'd"
  fp_const :: "string \<Rightarrow> 'd"
  fp_add :: "'d \<Rightarrow> 'd \<Rightarrow> 'd"
  fp_mul :: "'d \<Rightarrow> 'd \<Rightarrow> 'd"
  fp_div :: "'d \<Rightarrow> 'd \<Rightarrow> 'd"
  fp_less :: "'d \<Rightarrow> 'd \<Rightarrow> bool"
  fp_le :: "'d \<Rightarrow> 'd \<Rightarrow> bool"
  fp_fixed :: "nat \<Rightarrow> 'd \<Rightarrow> string"

text \<open>\<open>bytes / duration / 1.024 / 1.024\<close>, from left to right.\<close>

definition bandwidth :: "'d fp \<Rightarrow> int \<times> 'd \<times> 'd \<Rightarrow> 'd" where
  "bandwidth A x = (case x of (duration, bytes, nops) \<Rightarrow>
     fp_div A (fp_div A (fp_div A bytes (fp_of_int A duration)) (fp_const A ''1.024'')) (fp_const A ''1.024''))"

record 'd summary =
  su_min :: 'd
  su_mean :: 'd
  su_max :: 'd
  su_iterations :: int
  su_totalBytes :: 'd
  su_totalOps :: 'd
  su_totalBW :: 'd

definition summary_start :: "'d fp \<Rightarrow> 'd summary" where
  "summary_start A = \<lparr>su_min = fp_of_int A 0, su_mean = fp_of_int A 0, su_max = fp_of_int A 0,
     su_iterations = 0, su_totalBytes = fp_of_int A 0, su_totalOps = fp_of_int A 0, su_totalBW = fp_of_int A 0\<rparr>"

definition summary_entry :: "'d fp \<Rightarrow> int \<times> 'd \<times> 'd \<Rightarrow> 'd summary \<Rightarrow> 'd summary" where
  "summary_entry A x s = (case x of (duration, bytes, nops) \<Rightarrow>
     let bw = bandwidth A x;
         s1 = (if su_iterations s = 0 then s\<lparr>su_min := bw, su_max := bw\<rparr>
               else if fp_less A bw (su_min s) then s\<lparr>su_min := bw\<rparr>
               else if fp_less A (su_max s) bw then s\<lparr>su_max := bw\<rparr>
               else s)
     in s1\<lparr>su_iterations := su_iterations s + 1,
           su_totalBW := fp_add A (su_totalBW s) bw,
           su_totalBytes := fp_add A (su_totalBytes s) bytes,
           su_totalOps := fp_add A (su_totalOps s) nops\<rparr>)"

fun summary_loop :: "'d fp \<Rightarrow> string \<Rightarrow> 'd iteration list \<Rightarrow> 'd summary \<Rightarrow> 'd summary" where
  "summary_loop A n [] s = s"
| "summary_loop A n (e # es) s =
     (if fst e \<noteq> n then summary_loop A n es s else summary_loop A n es (summary_entry A (snd e) s))"

definition summaryIteration :: "'d fp \<Rightarrow> string \<Rightarrow> 'd iteration list \<Rightarrow> 'd summary" where
  "summaryIteration A n es = (let s = summary_loop A n es (summary_start A) in
     if su_iterations s \<noteq> 0
     then s\<lparr>su_mean := fp_div A (su_totalBW s) (fp_of_int A (su_iterations s))\<rparr> else s)"

lemma summary_loop_named:
  "summary_loop A n es s = foldl (\<lambda>s x. summary_entry A x s) s (named n es)"
  by (induction es arbitrary: s) auto

lemma summary_entry_simps [simp]:
  "su_iterations (summary_entry A x s) = su_iterations s + 1"
  "su_totalBytes (summary_entry A x s) = fp_add A (su_totalBytes s) (fst (snd x))"
  "su_totalOps (summary_entry A x s) = fp_add A (su_totalOps s) (snd (snd x))"
  "su_totalBW (summary_entry A x s) = fp_add A (su_totalBW s) (bandwidth A x)"
  by (simp_all add: summary_entry_def Let_def split: prod.split)

text \<open>Sums are taken from left to right, as the rounding of \<open>double\<close> depends on it.\<close>

lemma summary_sums:
  "su_iterations (foldl (\<lambda>s x. summary_entry A x s) s xs) = su_iterations s + int (length xs)"
  "su_totalBytes (foldl (\<lambda>s x. summary_entry A x s) s xs) =
     foldl (fp_add A) (su_totalBytes s) (map (fst \<circ> snd) xs)"
  "su_totalOps (foldl (\<lambda>s x. summary_entry A x s) s xs) =
     foldl (fp_add A) (su_totalOps s) (map (snd \<circ> snd) xs)"
  "su_totalBW (foldl (\<lambda>s x. summary_entry A x s) s xs) =
     foldl (fp_add A) (su_totalBW s) (map (bandwidth A) xs)"
  by (induction xs arbitrary: s) simp_all

text \<open>Minimum and maximum, for values that are linearly ordered by the comparison.\<close>

lemma summary_entry_min_max:
  fixes A :: "'d::linorder fp"
  assumes "\<And>x y. fp_less A x y \<longleftrightarrow> x < y" and "su_iterations s > 0" and "su_min s \<le> su_max s"
  shows "su_min (summary_entry A x s) = min (su_min s) (bandwidth A x)"
    and "su_max (summary_entry A x s) = max (su_max s) (bandwidth A x)"
  using assms by (auto simp: summary_entry_def Let_def min_def max_def split: prod.split)

lemma summary_fold_min_max:
  fixes A :: "'d::linorder fp"
  assumes less: "\<And>x y. fp_less A x y \<longleftrightarrow> x < y"
  shows "su_iterations s > 0 \<Longrightarrow> su_min s \<le> su_max s \<Longrightarrow>
    su_min (foldl (\<lambda>s x. summary_entry A x s) s xs) = fold min (map (bandwidth A) xs) (su_min s)
    \<and> su_max (foldl (\<lambda>s x. summary_entry A x s) s xs) = fold max (map (bandwidth A) xs) (su_max s)"
proof (induction xs arbitrary: s)
  case (Cons x xs)
  note m = summary_entry_min_max [OF less Cons.prems, of x]
  have "su_min (summary_entry A x s) \<le> su_max (summary_entry A x s)"
    using Cons.prems(2) by (simp add: m min.coboundedI1 max.coboundedI1)
  with Cons.IH [of "summary_entry A x s"] Cons.prems(1) show ?case by (simp add: m min.commute max.commute)
qed simp

lemma summary_min_max:
  fixes A :: "'d::linorder fp"
  assumes less: "\<And>x y. fp_less A x y \<longleftrightarrow> x < y" and ne: "named n es \<noteq> []"
  shows "su_min (summaryIteration A n es) = Min (bandwidth A ` set (named n es))"
    and "su_max (summaryIteration A n es) = Max (bandwidth A ` set (named n es))"
proof -
  obtain x xs where n: "named n es = x # xs" using ne by (cases "named n es") auto
  let ?s = "summary_entry A x (summary_start A)"
  have "su_min ?s = bandwidth A x" "su_max ?s = bandwidth A x" "su_iterations ?s > 0"
    by (simp_all add: summary_entry_def summary_start_def Let_def split: prod.split)
  with summary_fold_min_max [OF less, of ?s xs]
  have "su_min (summaryIteration A n es) = fold min (map (bandwidth A) xs) (bandwidth A x)"
    "su_max (summaryIteration A n es) = fold max (map (bandwidth A) xs) (bandwidth A x)"
    by (simp_all add: summaryIteration_def Let_def summary_loop_named n)
  then show "su_min (summaryIteration A n es) = Min (bandwidth A ` set (named n es))"
    "su_max (summaryIteration A n es) = Max (bandwidth A ` set (named n es))"
    using Min.set_eq_fold [of "bandwidth A x" "map (bandwidth A) xs"] Max.set_eq_fold [of "bandwidth A x" "map (bandwidth A) xs"]
    by (simp_all add: n)
qed

lemma summary_fields:
  "su_iterations (summaryIteration A n es) = int (length (named n es))"
  "su_totalBytes (summaryIteration A n es) = foldl (fp_add A) (fp_of_int A 0) (map (fst \<circ> snd) (named n es))"
  "su_totalOps (summaryIteration A n es) = foldl (fp_add A) (fp_of_int A 0) (map (snd \<circ> snd) (named n es))"
  "named n es \<noteq> [] \<Longrightarrow> su_mean (summaryIteration A n es) =
     fp_div A (foldl (fp_add A) (fp_of_int A 0) (map (bandwidth A) (named n es))) (fp_of_int A (int (length (named n es))))"
  by (simp_all add: summaryIteration_def Let_def summary_loop_named summary_sums) (simp_all add: summary_start_def)

section \<open>Tables\<close>

definition drop_commas :: "string \<Rightarrow> string" where
  "drop_commas s = filter (\<lambda>c. c \<noteq> CHR '','') s"

definition colons_to_commas :: "string \<Rightarrow> string" where
  "colons_to_commas s = map (\<lambda>c. if c = CHR '':'' then CHR '','' else c) s"

definition BM_HEADER :: string where
  "BM_HEADER = ''access,max(MiB)/s,min(MiB/s),mean(MiB/s),total(MiB),total(Ops),iteration'' @ [CHR 0x0A]
     @ ''------,----------,----------,-----------,-----------,----------,----------'' @ [CHR 0x0A]"

definition mebibytes :: "'d fp \<Rightarrow> 'd \<Rightarrow> 'd" where
  "mebibytes A b = fp_div A (fp_div A b (fp_of_int A 1024)) (fp_of_int A 1024)"

definition iteration_row :: "'d fp \<Rightarrow> string \<Rightarrow> int \<times> 'd \<times> 'd \<Rightarrow> string" where
  "iteration_row A n x = (let bw = fp_fixed A 2 (bandwidth A x) in
     n @ '':'' @ bw @ '':'' @ bw @ '':'' @ bw @ '':'' @ fp_fixed A 2 (mebibytes A (fst (snd x)))
       @ '':'' @ fp_fixed A 0 (snd (snd x)) @ '':1'' @ [CHR 0x0A])"

definition formatIterations :: "'d fp \<Rightarrow> string \<Rightarrow> 'd iteration list \<Rightarrow> string" where
  "formatIterations A n es =
     colons_to_commas (drop_commas (BM_HEADER @ concat (map (iteration_row A n) (named n es))))"

definition formatSummary :: "'d fp \<Rightarrow> string \<Rightarrow> string \<Rightarrow> 'd iteration list \<Rightarrow> string" where
  "formatSummary A n optSumName es =
     (let sumName = (if optSumName = [] then n else optSumName); s = summaryIteration A n es in
      if n = [] then BM_HEADER
      else if fp_le A (su_totalBytes s) (fp_of_int A 0) then n @ '', FAILED'' @ [CHR 0x0A]
      else colons_to_commas (drop_commas (sumName @ '':'' @ fp_fixed A 2 (su_max s) @ '':''
        @ fp_fixed A 2 (su_min s) @ '':'' @ fp_fixed A 2 (su_mean s) @ '':''
        @ fp_fixed A 2 (mebibytes A (su_totalBytes s)) @ '':'' @ fp_fixed A 0 (su_totalOps s)
        @ '':'' @ to_string_int (su_iterations s))))"

section \<open>Properties\<close>

lemma named_fold:
  "sorted (map fst es) \<Longrightarrow>
    sorted (map fst (fold (\<lambda>(m, d, b, q). addIteration m d b q) calls es))
    \<and> named n (fold (\<lambda>(m, d, b, q). addIteration m d b q) calls es) = named n es @ named n calls"
proof (induction calls arbitrary: es)
  case (Cons x xs)
  obtain m d b q where x: "x = (m, d, b, q)" by (cases x)
  from Cons.IH [OF sorted_addIteration [OF Cons.prems, of m d b q]] Cons.prems show ?case
    by (simp add: x named_addIteration)
qed simp


definition int_fp :: "int fp" where
  "int_fp = \<lparr>fp_of_int = (\<lambda>i. i), fp_const = (\<lambda>_. 1), fp_add = (+), fp_mul = (*), fp_div = (div), fp_less = (<), fp_le = (\<le>),
     fp_fixed = (\<lambda>_ i. to_string_int i)\<rparr>"


lemma count_list_filter: "P c \<Longrightarrow> count_list (filter P s) c = count_list s c"
  by (induction s) auto

lemma count_list_map_comma:
  "CHR '','' \<notin> set s \<Longrightarrow> count_list (colons_to_commas s) (CHR '','') = count_list s (CHR '':'')"
  by (induction s) (auto simp: colons_to_commas_def)

definition plain_cell :: "string \<Rightarrow> bool" where
  "plain_cell s \<longleftrightarrow> CHR '','' \<notin> set s \<and> CHR '':'' \<notin> set s \<and> CHR 0x0A \<notin> set s"

lemma plain_cell_keeps:
  assumes "CHR '','' \<notin> set s"
  shows "drop_commas s = s"
  using assms by (auto simp: drop_commas_def filter_id_conv)

text \<open>A table row without its newline.\<close>

definition row_text :: "'d fp \<Rightarrow> string \<Rightarrow> int \<times> 'd \<times> 'd \<Rightarrow> string" where
  "row_text A n x = colons_to_commas (drop_commas (butlast (iteration_row A n x)))"

lemma row_text_spec:
  assumes "plain_cell n" and "\<And>p x. plain_cell (fp_fixed A p x)"
  shows "colons_to_commas (drop_commas (iteration_row A n x)) = row_text A n x @ [CHR 0x0A]"
    and "CHR 0x0A \<notin> set (row_text A n x)" and "count_list (row_text A n x) (CHR '','') = 6"
proof -
  let ?t = "butlast (iteration_row A n x)"
  have t: "iteration_row A n x = ?t @ [CHR 0x0A]" by (simp add: iteration_row_def Let_def butlast_append)
  show "colons_to_commas (drop_commas (iteration_row A n x)) = row_text A n x @ [CHR 0x0A]"
    unfolding row_text_def by (subst t) (simp add: drop_commas_def colons_to_commas_def)
  have c: "CHR '','' \<notin> set ?t" "CHR 0x0A \<notin> set ?t" "count_list ?t (CHR '':'') = 6"
    using assms by (simp_all add: iteration_row_def Let_def butlast_append plain_cell_def count_notin)
  have "drop_commas ?t = ?t" using c(1) by (rule plain_cell_keeps)
  then show "CHR 0x0A \<notin> set (row_text A n x)" "count_list (row_text A n x) (CHR '','') = 6"
    using c by (auto simp: row_text_def count_list_map_comma) (auto simp: colons_to_commas_def split: if_splits)
qed

lemma table_append:
  "colons_to_commas (drop_commas (s @ t)) = colons_to_commas (drop_commas s) @ colons_to_commas (drop_commas t)"
  by (simp add: drop_commas_def colons_to_commas_def)

lemma table_rows:
  assumes "plain_cell n" and "\<And>p x. plain_cell (fp_fixed A p x)"
  shows "getlines (CHR 0x0A) (colons_to_commas (drop_commas (concat (map (iteration_row A n) xs)))) = map (row_text A n) xs"
proof (induction xs)
  case (Cons x xs)
  then show ?case
    using getlines_line [OF row_text_spec(2) [OF assms, of x]] by (simp add: table_append row_text_spec(1) [OF assms])
qed (simp add: drop_commas_def colons_to_commas_def)

text \<open>
  The table of iterations has a row of seven fields for every iteration of the name, but its two
  header lines have one field each: the commas of \<open>BM_HEADER\<close> are removed with those of the rows.
\<close>

theorem iteration_table:
  assumes "plain_cell n" and "\<And>p x. plain_cell (fp_fixed A p x)"
  shows "map (\<lambda>l. count_list l (CHR '','')) (getlines (CHR 0x0A) (formatIterations A n es))
    = 0 # 0 # replicate (length (named n es)) 6"
proof -
  let ?h1 = "''accessmax(MiB)/smin(MiB/s)mean(MiB/s)total(MiB)total(Ops)iteration''"
    and ?h2 = "''--------------------------------------------------------------------''"
  let ?rows = "colons_to_commas (drop_commas (concat (map (iteration_row A n) (named n es))))"
  have header: "CHR 0x0A \<notin> set ?h1" "CHR 0x0A \<notin> set ?h2" "count_list ?h1 (CHR '','') = 0" "count_list ?h2 (CHR '','') = 0"
    by code_simp+
  have "colons_to_commas (drop_commas BM_HEADER) = ?h1 @ CHR 0x0A # ?h2 @ [CHR 0x0A]"
    by code_simp
  then have "formatIterations A n es = ?h1 @ CHR 0x0A # ?h2 @ CHR 0x0A # ?rows"
    by (simp only: formatIterations_def table_append append.assoc append.simps)
  moreover have "getlines (CHR 0x0A) (?h1 @ CHR 0x0A # ?h2 @ CHR 0x0A # ?rows) = ?h1 # ?h2 # map (row_text A n) (named n es)"
    using table_rows [OF assms, of "named n es"] by (simp only: getlines_line [OF header(1)] getlines_line [OF header(2)])
  ultimately have "getlines (CHR 0x0A) (formatIterations A n es) = ?h1 # ?h2 # map (row_text A n) (named n es)" by (simp only:)
  moreover have "map (\<lambda>l. count_list l (CHR '','')) (map (row_text A n) xs) = replicate (length xs) 6" for xs
    using row_text_spec(3) [OF assms] by (simp add: comp_def map_replicate_const)
  ultimately show ?thesis by (simp only: list.map header(3,4))
qed

theorem iteration_table_witness:
  "map (\<lambda>l. count_list l (CHR '','')) (getlines (CHR 0x0A) (formatIterations int_fp ''iwrite'' [(''iwrite'', 2, 100, 4)]))
    = [0, 0, 6]"
proof -
  have "plain_cell (to_string_int i)" for i
    by (auto simp: plain_cell_def to_string_int_def dec_no_char is_digit_def)
  then have "\<And>p x. plain_cell (fp_fixed int_fp p x)" by (simp add: int_fp_def)
  moreover have "plain_cell ''iwrite''" by (simp add: plain_cell_def)
  ultimately show ?thesis using iteration_table [of "''iwrite''" int_fp "[(''iwrite'', 2, 100, 4)]"] by simp
qed

end
