(* ===== verification/Bm_Base.thy ===== *)
theory Bm_Base
  imports Benchmark Config Store
begin

text \<open>
  The benchmark programs: the passes of \<open>benchmark/bm_base.cpp\<close> over the virtual operations of
  \<open>BMBase\<close>, its options, and the program of \<open>benchmark/bm_native.cpp\<close> over any store (those for
  LevelDB and RocksDB differ in the store alone). The order in which the keys are visited, the
  readings of the clock and the parsed command line are arguments.
\<close>

section \<open>Options\<close>

record bm_config =
  bc_fileName :: string
  bc_dirName :: string
  bc_useLSMIOPlugin :: bool
  bc_loopAll :: bool
  bc_verbose :: bool
  bc_debug :: bool
  bc_useMPIBarrier :: bool
  bc_enableCollectiveIO :: bool
  bc_iterations :: int
  bc_segmentCount :: int
  bc_keyCount :: int
  bc_valueSize :: int

definition bm_default :: bm_config where
  "bm_default = \<lparr>bc_fileName = [], bc_dirName = [], bc_useLSMIOPlugin = False, bc_loopAll = False,
     bc_verbose = False, bc_debug = False, bc_useMPIBarrier = False, bc_enableCollectiveIO = False,
     bc_iterations = 1, bc_segmentCount = 1024, bc_keyCount = 4096, bc_valueSize = 65535\<rparr>"

text \<open>What \<open>beginMain\<close> does with the parsed options: two settings from the flags, three checks.\<close>

definition resolve_options ::
  "bool \<Rightarrow> bool \<Rightarrow> bool \<Rightarrow> bm_config \<Rightarrow> lsmio_config \<Rightarrow> lsmio_config outcome" where
  "resolve_options mpi_io_world use_leveldb use_rocksdb bc cfg =
     (let cfg1 = cfg\<lparr>cfg_mpiAggType := (if mpi_io_world then Entire else Shared),
            cfg_storageType := (if use_rocksdb then RocksDB else if use_leveldb then LevelDB else NativeDB)\<rparr>
      in if bc_fileName bc = [] then Throws ''ERROR: Output file is required.''
         else if bc_valueSize bc < 8 then Throws ''ERROR: Value-size has to be >= 8.''
         else if cfg_transferSize cfg1 < cfg_blockSize cfg1 then Throws ''ERROR: Transfer-size has to be >= block-size.''
         else Returns cfg1)"

definition show_bool :: "bool \<Rightarrow> string" where
  "show_bool b = (if b then ''1'' else ''0'')"

definition nl :: string where
  "nl = [CHR 0x0A]"

definition genOptionsToString :: "bm_config \<Rightarrow> lsmio_config \<Rightarrow> string" where
  "genOptionsToString bc cfg =
     '' fileName: '' @ bc_fileName bc @ nl @ '' dirName: '' @ bc_dirName bc
     @ nl @ '' useLSMIOPlugin: '' @ show_bool (bc_useLSMIOPlugin bc)
     @ nl @ '' loopAll: '' @ show_bool (bc_loopAll bc) @ nl @ '' verbose: '' @ show_bool (bc_verbose bc)
     @ nl @ '' debug: '' @ show_bool (bc_debug bc) @ nl @ '' mpi-barrier: '' @ show_bool (bc_useMPIBarrier bc)
     @ nl @ '' collective-IO: '' @ show_bool (bc_enableCollectiveIO bc)
     @ nl @ '' mpi-io-world: '' @ (if cfg_mpiAggType cfg \<noteq> Shared then ''world'' else ''host-group'')
     @ nl @ '' iterations: '' @ to_string_int (bc_iterations bc)
     @ nl @ '' segmentCount: '' @ to_string_int (bc_segmentCount bc)
     @ nl @ '' keyCount: '' @ to_string_int (bc_keyCount bc) @ nl @ '' valueSize: '' @ to_string_int (bc_valueSize bc)
     @ nl @ nl @ '' useBloomFilter: '' @ show_bool (cfg_useBloomFilter cfg)
     @ nl @ '' useSync: '' @ show_bool (cfg_useSync cfg)
     @ nl @ '' enableWAL: '' @ show_bool (cfg_enableWAL cfg)
     @ nl @ '' enableMMAP: '' @ show_bool (cfg_enableMMAP cfg)
     @ nl @ '' useLevelDB: '' @ (if cfg_storageType cfg = LevelDB then ''yes'' else ''no'')
     @ nl @ '' compression: '' @ show_bool (cfg_compression cfg)
     @ nl @ '' blockSize: '' @ to_string_int (cfg_blockSize cfg)
     @ nl @ '' transferSize: '' @ to_string_int (cfg_transferSize cfg)
     @ nl @ nl @ '' alwaysFlush: '' @ show_bool (cfg_alwaysFlush cfg)
     @ nl @ '' asyncBatchSize: '' @ to_string_int (cfg_asyncBatchSize cfg)
     @ nl @ '' asyncBatchBytes: '' @ to_string_int (cfg_asyncBatchBytes cfg)
     @ nl @ nl @ '' cacheSize: '' @ to_string_int (cfg_cacheSize cfg)
     @ nl @ '' writeBufferSize: '' @ to_string_int (cfg_writeBufferSize cfg)
     @ nl @ '' writeFileSize: '' @ to_string_int (cfg_writeFileSize cfg)
     @ nl @ '' preAllocate: '' @ show_bool (cfg_preAllocate cfg)
     @ nl @ '' disableAggDirStructure: '' @ show_bool (cfg_disableAggDirStructure cfg)
     @ nl @ '' filePoolSize: '' @ to_string_int (cfg_filePoolSize cfg) @ nl"

definition bm_path :: "bm_config \<Rightarrow> string" where
  "bm_path bc = (if bc_dirName bc = [] then bc_fileName bc else bc_dirName bc @ ''/'' @ bc_fileName bc)"

definition genDBPath :: "bm_config \<Rightarrow> bool \<Rightarrow> bool \<Rightarrow> string" where
  "genDBPath bc opt1 opt2 = bm_path bc @ '':'' @ show_bool opt1 @ '':'' @ show_bool opt2"

section \<open>The passes\<close>

text \<open>The virtual operations; \<open>doRead\<close> also gives the string it leaves in \<open>*value\<close>.\<close>

record 's bm_ops =
  bo_doRead :: "key \<Rightarrow> 's \<Rightarrow> ((bool \<times> val) \<times> 's) outcome"
  bo_doWrite :: "key \<Rightarrow> val \<Rightarrow> 's \<Rightarrow> (bool \<times> 's) outcome"
  bo_writePrepare :: "'s \<Rightarrow> 's outcome"
  bo_doWriteFinalize :: "'s \<Rightarrow> 's outcome"
  bo_writeCleanup :: "'s \<Rightarrow> 's outcome"
  bo_readPrepare :: "'s \<Rightarrow> 's outcome"
  bo_doReadFinalize :: "'s \<Rightarrow> 's outcome"
  bo_readCleanup :: "'s \<Rightarrow> 's outcome"

text \<open>\<open>fmt::format("{:06}", i)\<close> for the indexes, which are not negative.\<close>

definition padded_index :: "nat \<Rightarrow> string" where
  "padded_index i = (let d = dec i in replicate (6 - length d) (CHR ''0'') @ d)"

definition bench_key :: "nat \<Rightarrow> key" where
  "bench_key i = ''benchmark:'' @ padded_index i"

definition bench_value :: "int \<Rightarrow> nat \<Rightarrow> val" where
  "bench_value valueSize c = dec c @ ''::'' @ replicate (nat (valueSize - 8)) (CHR ''a'')"

fun write_loop :: "'s bm_ops \<Rightarrow> int \<Rightarrow> nat \<Rightarrow> nat list \<Rightarrow> 's \<Rightarrow> (nat \<times> 's) outcome" where
  "write_loop B vs c [] s = Returns (c, s)"
| "write_loop B vs c (i # is) s =
     bind_outcome (bo_doWrite B (bench_key i) (bench_value vs c) s) (\<lambda>(success, s').
       if \<not> success then Returns (c, s') else write_loop B vs (Suc c) is s')"

fun read_loop :: "'s bm_ops \<Rightarrow> int \<Rightarrow> nat \<Rightarrow> nat list \<Rightarrow> 's \<Rightarrow> (nat \<times> 's) outcome" where
  "read_loop B vs c [] s = Returns (c, s)"
| "read_loop B vs c (i # is) s =
     bind_outcome (bo_doRead B (bench_key i) s) (\<lambda>((success, v), s').
       if \<not> success \<or> bench_value vs c \<noteq> v then Returns (c, s') else read_loop B vs (Suc c) is s')"

text \<open>
  A pass starts the timer, runs its loop and its finalizer, stops the timer, and returns the number of
  keys it did not reach with the duration. A value size below 8 makes the suffix too long a string.
\<close>

definition timed_pass ::
  "int \<Rightarrow> int \<Rightarrow> int \<Rightarrow> int \<Rightarrow> ('s \<Rightarrow> (nat \<times> 's) outcome) \<Rightarrow> ('s \<Rightarrow> 's outcome) \<Rightarrow> bm_timer \<times> 's
    \<Rightarrow> ((int \<times> int) \<times> bm_timer \<times> 's) outcome" where
  "timed_pass keyCount vs t0 t1 loop fin p = (case p of (b, s) \<Rightarrow>
     if vs < 8 then Throws ''std::length_error''
     else bind_outcome (bm_start t0 b) (\<lambda>b1.
       bind_outcome (loop s) (\<lambda>(c, s1).
         bind_outcome (fin s1) (\<lambda>s2.
           bind_outcome (bm_stop False t1 b1) (\<lambda>b2.
             bind_outcome (bm_duration b2) (\<lambda>d. Returns ((keyCount - int c, d), b2, s2)))))))"

definition benchWrite ::
  "'s bm_ops \<Rightarrow> bm_config \<Rightarrow> nat list \<Rightarrow> int \<times> int \<Rightarrow> bm_timer \<times> 's \<Rightarrow> ((int \<times> int) \<times> bm_timer \<times> 's) outcome" where
  "benchWrite B bc perm t p = timed_pass (bc_keyCount bc) (bc_valueSize bc) (fst t) (snd t)
     (write_loop B (bc_valueSize bc) 0 perm) (bo_doWriteFinalize B) p"

definition benchRead ::
  "'s bm_ops \<Rightarrow> bm_config \<Rightarrow> nat list \<Rightarrow> int \<times> int \<Rightarrow> bm_timer \<times> 's \<Rightarrow> ((int \<times> int) \<times> bm_timer \<times> 's) outcome" where
  "benchRead B bc perm t p = timed_pass (bc_keyCount bc) (bc_valueSize bc) (fst t) (snd t)
     (read_loop B (bc_valueSize bc) 0 perm) (bo_doReadFinalize B) p"

section \<open>Iterations and suites\<close>

record ('d, 's) bench =
  be_timer :: bm_timer
  be_iterations :: "'d iteration list"
  be_world :: 's

text \<open>The outcome of one pass in the table: a duration of \<open>-1\<close> and an exit code when it failed.\<close>

definition record_pass ::
  "string \<Rightarrow> 'd \<Rightarrow> 'd \<Rightarrow> ((int \<times> int) \<times> bm_timer \<times> 's) \<Rightarrow> ('d, 's) bench \<Rightarrow> int \<times> ('d, 's) bench" where
  "record_pass name bytes nops r be = (case r of ((left, duration), b, s) \<Rightarrow>
     ((if left \<noteq> 0 then 1 else 0),
      be\<lparr>be_timer := b, be_world := s,
         be_iterations := addIteration name (if left \<noteq> 0 then - 1 else duration) bytes nops (be_iterations be)\<rparr>))"

type_synonym round = "nat list \<times> (int \<times> int) \<times> (int \<times> int)"

definition benchIteration ::
  "'s bm_ops \<Rightarrow> bm_config \<Rightarrow> 'd \<Rightarrow> 'd \<Rightarrow> round \<Rightarrow> ('d, 's) bench \<Rightarrow> (int \<times> ('d, 's) bench) outcome" where
  "benchIteration B bc bytes nops r be = (case r of (perm, tw, tr) \<Rightarrow>
     if bc_keyCount bc < 0 then Throws ''std::bad_array_new_length''
     else bind_outcome (bo_writePrepare B (be_world be)) (\<lambda>s1.
       bind_outcome (benchWrite B bc perm tw (be_timer be, s1)) (\<lambda>w.
         case record_pass ''iwrite'' bytes nops w be of (c1, be1) \<Rightarrow>
           bind_outcome (bo_writeCleanup B (be_world be1)) (\<lambda>s2.
             bind_outcome (bo_readPrepare B s2) (\<lambda>s3.
               bind_outcome (benchRead B bc perm tr (be_timer be1, s3)) (\<lambda>q.
                 case record_pass ''iread'' bytes nops q be1 of (c2, be2) \<Rightarrow>
                   bind_outcome (bo_readCleanup B (be_world be2)) (\<lambda>s4.
                     Returns (c1 + c2, be2\<lparr>be_world := s4\<rparr>))))))))"

fun bench_rounds ::
  "'s bm_ops \<Rightarrow> bm_config \<Rightarrow> 'd \<Rightarrow> 'd \<Rightarrow> round list \<Rightarrow> ('d, 's) bench \<Rightarrow> ('d, 's) bench outcome" where
  "bench_rounds B bc bytes nops [] be = Returns be"
| "bench_rounds B bc bytes nops (r # rs) be =
     bind_outcome (benchIteration B bc bytes nops r be) (\<lambda>(c, be'). bench_rounds B bc bytes nops rs be')"

text \<open>The exit code of a suite is not computed from those of its iterations.\<close>

definition benchSuite ::
  "'d fp \<Rightarrow> 's bm_ops \<Rightarrow> bm_config \<Rightarrow> 'd \<Rightarrow> 'd \<Rightarrow> string \<Rightarrow> round list \<Rightarrow> ('d, 's) bench
    \<Rightarrow> ((int \<times> string \<times> string) \<times> ('d, 's) bench) outcome" where
  "benchSuite A B bc bytes nops bmPrefix rs be =
     bind_outcome (bench_rounds B bc bytes nops rs be) (\<lambda>be'. let es = be_iterations be' in
       Returns ((0,
         nl @ ''Iteration-WRITE: '' @ bmPrefix @ nl @ formatIterations A ''iwrite'' es
           @ nl @ ''Bench-WRITE: '' @ bmPrefix @ nl @ formatSummary A [] [] es
           @ formatSummary A ''iwrite'' ''write'' es,
         nl @ ''Iteration-READ: '' @ bmPrefix @ nl @ formatIterations A ''iread'' es
           @ nl @ ''Bench-READ: '' @ bmPrefix @ nl @ formatSummary A [] [] es
           @ formatSummary A ''iread'' ''read'' es),
         be'\<lparr>be_iterations := clearIterations es\<rparr>))"

end
