(* ===== verification/Durable_Store.thy ===== *)
theory Durable_Store
  imports Native_Laws Manager_Laws
begin

text \<open>
  The contract of a store that survives its close, as the layers above a database use it: the locale
  \<open>durable_store\<close>, what a manager with a store of its own does under the contract, and the proof that
  the native store keeps it.
\<close>

section \<open>A manager without a group\<close>

definition alone :: "'s manager \<Rightarrow> bool" where
  "alone m \<longleftrightarrow> isOpenLocal m \<and> \<not> isServeLocal m"

lemma alone_simps [simp]:
  "alone (count_write n m) = alone m" "alone (count_read n m) = alone m" "alone (m\<lparr>mg_store := s\<rparr>) = alone m"
  "alone (m\<lparr>mg_has_client := b\<rparr>) = alone m"
  by (simp_all add: alone_def isServeLocal_def isOpenLocal_def count_write_def count_read_def)

lemma alone_key: "alone m \<Longrightarrow> rankedKey m r k = k"
  by (simp add: alone_def rankedKey_def)

lemma alone_layout: "\<not> me_mpi env \<Longrightarrow> me_adios env = None \<Longrightarrow> alone (manager_layout cfg env name dir ow)"
  by (simp add: alone_def isOpenLocal_def isServeLocal_def)

lemma layout_store [simp]: "mg_store (manager_layout cfg env name dir ow) = None"
  by (simp add: manager_layout_def Let_def)

lemma manager_init_alone:
  assumes env: "\<not> me_mpi env" "me_adios env = None"
    and mk: "make_store (cfg_storageType cfg) (if dir = [] then name else dir @ ''/'' @ name) ow = Returns s"
  shows "\<exists>m. manager_init make_store cfg env name dir ow = Returns m \<and> alone m \<and> mg_store m = Some s"
proof -
  let ?m = "manager_layout cfg env name dir ow :: 'a manager"
  have path: "mg_dbPath ?m = (if dir = [] then name else dir @ ''/'' @ name)" using env by (simp add: manager_layout_def)
  have alone: "alone ?m" by (rule alone_layout [OF env])
  then have "isOpenLocal ?m" by (simp add: alone_def)
  with alone mk env(2) show ?thesis by (simp add: manager_init_def path Let_def)
qed

section \<open>A store that survives its close\<close>

text \<open>
  \<open>at h s\<close>: the open store \<open>s\<close> has accepted the mutations \<open>h\<close>; \<open>closed h s\<close>: it has been closed
  after them; \<open>reopened h s\<close>: it is a store built over what the closed one left. \<open>fits h\<close> are the
  limits of the store, and \<open>disk f\<close> says that a new database can be made.
\<close>

locale durable_store =
  fixes ops :: "('l \<times> 'f) store_ops"
    and create :: "bool \<Rightarrow> 'f \<Rightarrow> ('l \<times> 'f) outcome"
    and disk :: "'f \<Rightarrow> bool"
    and fits :: "(key \<times> val) list \<Rightarrow> bool"
    and at closed reopened :: "(key \<times> val) list \<Rightarrow> 'l \<times> 'f \<Rightarrow> bool"
  assumes fresh: "disk f \<Longrightarrow> \<exists>s. create True f = Returns s \<and> at [] s"
    and fits_prefix: "fits (h @ h') \<Longrightarrow> fits h"
    and put: "at h s \<Longrightarrow> fits (h @ [(k, v)]) \<Longrightarrow>
      \<exists>s'. store_put ops k v flush s = Returns (True, s') \<and> at (h @ [(k, v)]) s'"
    and barrier: "at h s \<Longrightarrow> fits h \<Longrightarrow> \<exists>s'. op_writeBarrier ops s = Returns (True, s') \<and> at h s'"
    and close: "at h s \<Longrightarrow> fits h \<Longrightarrow> \<exists>s'. op_close ops s = Returns s' \<and> closed h s'"
    and close_again: "closed h s \<Longrightarrow> \<exists>s'. op_close ops s = Returns s' \<and> closed h s'"
    and open_again: "closed h (l, f) \<Longrightarrow> \<exists>s. create False f = Returns s \<and> reopened h s"
    and get: "reopened h s \<Longrightarrow> k \<noteq> [] \<Longrightarrow> entries_map h k = Some v \<Longrightarrow> v \<noteq> MEMTABLE_TOMBSTONE \<Longrightarrow>
      op_get ops k s = Returns (Some v)"
    and scan: "reopened h s \<Longrightarrow> p \<noteq> [] \<Longrightarrow> \<exists>b xs. op_getPrefix ops p s = Returns (b, xs) \<and> omap_ok xs
      \<and> map_of xs = live (entries_map h) |` with_prefix p"
    and close_reopened: "reopened h s \<Longrightarrow> \<exists>s'. op_close ops s = Returns s' \<and> disk (snd s')"
begin

definition holds :: "(key \<times> val) list \<Rightarrow> ('l \<times> 'f) peers \<Rightarrow> bool" where
  "holds h p \<longleftrightarrow> alone (fst p) \<and> (\<exists>s. mg_store (fst p) = Some s \<and> at h s)"

definition finds :: "(key \<times> val) list \<Rightarrow> ('l \<times> 'f) peers \<Rightarrow> bool" where
  "finds h p \<longleftrightarrow> alone (fst p) \<and> (\<exists>s. mg_store (fst p) = Some s \<and> reopened h s)"

lemma manager_put:
  assumes "holds h p" and fit: "fits (h @ [(k, v)])"
  shows "\<exists>p'. mg_put ops cfg k v flush p = Returns (True, p') \<and> holds (h @ [(k, v)]) p'"
proof -
  obtain m agg where p: "p = (m, agg)" by (cases p)
  from assms(1) obtain s where m: "alone m" "isOpenLocal m" "mg_store m = Some s" "at h s"
    by (auto simp: holds_def p alone_def)
  from put [OF m(4) fit, of flush] obtain s' where "store_put ops k v flush s = Returns (True, s')" "at (h @ [(k, v)]) s'"
    by blast
  with m show ?thesis
    by (cases s') (simp add: mg_put_def p holds_def local_update_def alone_key Let_def)
qed

lemma manager_metaPut:
  assumes "holds h p" and fit: "fits (h @ [(meta_prefix @ k, v)])"
  shows "\<exists>p'. mg_metaPut ops cfg k v flush p = Returns (True, p') \<and> holds (h @ [(meta_prefix @ k, v)]) p'"
proof -
  obtain m agg where p: "p = (m, agg)" by (cases p)
  from assms(1) obtain s where m: "alone m" "isOpenLocal m" "mg_store m = Some s" "at h s"
    by (auto simp: holds_def p alone_def)
  from put [OF m(4) fit, of flush] obtain s' where
    "store_put ops (meta_prefix @ k) v flush s = Returns (True, s')" "at (h @ [(meta_prefix @ k, v)]) s'" by blast
  with m show ?thesis
    by (cases s') (simp add: mg_metaPut_def p holds_def local_update_def alone_key Let_def store_metaPut_def)
qed

lemma manager_barrier:
  assumes "holds h p" and "fits h"
  shows "\<exists>p'. mg_writeBarrier ops cfg p = Returns (True, p') \<and> holds h p'"
proof -
  obtain m agg where p: "p = (m, agg)" by (cases p)
  from assms(1) obtain s where m: "alone m" "isOpenLocal m" "mg_store m = Some s" "at h s"
    by (auto simp: holds_def p alone_def)
  from barrier [OF m(4) assms(2)] obtain s' where "op_writeBarrier ops s = Returns (True, s')" "at h s'" by blast
  with m show ?thesis by (cases s') (simp add: mg_writeBarrier_def p holds_def local_update_def)
qed

lemma manager_closes:
  assumes "holds h p" and "fits h"
  shows "\<exists>m s. manager_close ops (fst p) = Returns (m, Some s) \<and> mg_store m = None \<and> closed h s"
proof -
  from assms(1) obtain s where s: "mg_store (fst p) = Some s" "at h s" by (auto simp: holds_def)
  from close [OF s(2) assms(2)] s(1) show ?thesis by (auto simp: manager_close_def)
qed

lemma manager_finds:
  assumes "finds h p" and v: "k \<noteq> []" "entries_map h k = Some v" "v \<noteq> MEMTABLE_TOMBSTONE"
  shows "\<exists>p'. mg_get ops cfg k v0 p = Returns ((True, v), p') \<and> finds h p'"
proof -
  obtain m agg where p: "p = (m, agg)" by (cases p)
  from assms(1) obtain s where m: "alone m" "isOpenLocal m" "mg_store m = Some s" "reopened h s"
    by (auto simp: finds_def p alone_def)
  from get [OF m(4) v] m show ?thesis
    by (cases s) (simp add: mg_get_def p finds_def local_read_def alone_key found_value_def)
qed

lemma manager_close_found:
  assumes "finds h p"
  shows "\<exists>m s. manager_close ops (fst p) = Returns (m, Some s) \<and> mg_store m = None \<and> disk (snd s)"
proof -
  from assms obtain s where s: "mg_store (fst p) = Some s" "reopened h s" by (auto simp: finds_def)
  from close_reopened [OF s(2)] s(1) show ?thesis by (auto simp: manager_close_def)
qed

end

text \<open>A store that goes on where it was closed: what is opened again accepts further mutations.\<close>

locale resumable_store = durable_store ops create disk fits at closed reopened
  for ops :: "('l \<times> 'f) store_ops"
    and create :: "bool \<Rightarrow> 'f \<Rightarrow> ('l \<times> 'f) outcome"
    and disk :: "'f \<Rightarrow> bool"
    and fits :: "(key \<times> val) list \<Rightarrow> bool"
    and at closed reopened :: "(key \<times> val) list \<Rightarrow> 'l \<times> 'f \<Rightarrow> bool" +
  assumes resume: "reopened h s \<Longrightarrow> at h s"
    and fits_subseq: "subseq h h' \<Longrightarrow> fits h' \<Longrightarrow> fits h"
    and closed_disk: "closed h s \<Longrightarrow> disk (snd s)"
begin

lemma finds_holds: "finds h p \<Longrightarrow> holds h p"
  by (auto simp: finds_def holds_def dest: resume)

end

section \<open>The native store\<close>

definition native_disk :: "fs \<Rightarrow> bool" where
  "native_disk f \<longleftrightarrow> fs_ok f \<and> fs_small f"

definition native_fits :: "(key \<times> val) list \<Rightarrow> bool" where
  "native_fits h \<longleftrightarrow> log_ok h \<and> 1 + 2 * length h < 2 ^ 64 - 1"

definition native_closed :: "string \<Rightarrow> u64 \<Rightarrow> (key \<times> val) list \<Rightarrow> native_state \<Rightarrow> bool" where
  "native_closed db pre h s \<longleftrightarrow> nt_shutting_down (fst s) \<and> native_fits h
     \<and> (\<exists>gens head. flushed_entries gens = h \<and> disk_inv pre db gens head (snd s) \<and> ids_below (1 + 2 * length h) db (snd s))"

definition native_reopened :: "string \<Rightarrow> u64 \<Rightarrow> (key \<times> val) list \<Rightarrow> native_state \<Rightarrow> bool" where
  "native_reopened db pre h s \<longleftrightarrow> nt_immutable (fst s) = [] \<and> nt_active (fst s) = Some mt_new \<and> native_disk (snd s)
     \<and> native_answers pre h s \<and> (pre = 0 \<longrightarrow> native_at db 0 h (1 + 2 * length h) s)"

lemma native_reopen:
  assumes c: "native_closed db pre h (n, f)" and pre: "prealloc_ok pre cfg"
    and pool: "0 < cfg_filePoolSize cfg" "cfg_filePoolSize cfg < 2 ^ 31" and num: "cfg_writeBufferNumber cfg < 2 ^ 31"
  shows "native_reopened db pre h (native_new cfg db False mg f)"
proof -
  from c obtain gens head where gens: "flushed_entries gens = h" and disk: "disk_inv pre db gens head f"
    and below: "ids_below (1 + 2 * length h) db f" and fit: "log_ok h" "1 + 2 * length h < 2 ^ 64 - 1"
    by (auto simp: native_closed_def native_fits_def)
  obtain n' f' where new: "native_new cfg db False mg f = (n', f')" by (metis prod.collapse)
  note fields = native_new_fields [OF new]
  have "native_disk (create_directories db f)"
    using disk by (auto simp: native_disk_def disk_inv_def create_directories_def)
  moreover have "native_answers pre h (native_new cfg db False mg f)"
  proof -
    have "unat (max_file_id (found_files db f)) < 2 ^ 64 - 1"
      using max_file_id_below [OF disk below] fit(2) by simp
    then show ?thesis using reopened_answers [OF disk _ pre, of mg] gens by (simp add: u64_below_max)
  qed
  moreover have "native_at db 0 h (1 + 2 * length h) (native_new cfg db False mg f)" if "pre = 0"
    using native_resume [OF disk [unfolded that] below _ fit(2) _ _ pool num, of mg] pre that fit(1) gens
    by (simp add: prealloc_ok_def)
  ultimately show ?thesis using fields(1,3,4) unfolding native_reopened_def new by simp
qed

lemma native_durable:
  assumes pre: "prealloc_ok pre cfg"
    and pool: "0 < cfg_filePoolSize cfg" "cfg_filePoolSize cfg < 2 ^ 31" and num: "cfg_writeBufferNumber cfg < 2 ^ 31"
  shows "durable_store (native_ops good_io) (\<lambda>ow f. Returns (native_new cfg db ow mg f)) native_disk native_fits
    (\<lambda>h. native_at db pre h (1 + 2 * length h)) (native_closed db pre) (native_reopened db pre)"
proof
  show "\<exists>s. Returns (native_new cfg db True mg f) = Returns s \<and> native_at db pre [] (1 + 2 * length ([] :: (key \<times> val) list)) s"
    if "native_disk f" for f
    using native_fresh_at [OF _ _ pre pool num, of f db mg] that by (simp add: native_disk_def)
  show "native_fits h" if "native_fits (h @ h')" for h h' :: "(key \<times> val) list"
    using that log_ok_prefix [of h h'] by (simp add: native_fits_def)
  show "\<exists>s'. store_put (native_ops good_io) k v flush s = Returns (True, s')
      \<and> native_at db pre (h @ [(k, v)]) (1 + 2 * length (h @ [(k, v)])) s'"
    if "native_at db pre h (1 + 2 * length h) s" "native_fits (h @ [(k, v)])" for h s k v flush
    using seq_mutation_at [OF that(1), of k Put v flush] that(2)
    by (simp add: store_put_def native_ops_def native_fits_def actual_value_def)
  show "\<exists>s'. op_writeBarrier (native_ops good_io) s = Returns (True, s') \<and> native_at db pre h (1 + 2 * length h) s'"
    if "native_at db pre h (1 + 2 * length h) s" "native_fits h" for h s
    using seq_barrier_at [OF that(1)] that(2) by (auto simp: native_ops_def native_fits_def)
  show "\<exists>s'. op_close (native_ops good_io) s = Returns s' \<and> native_closed db pre h s'"
    if "native_at db pre h (1 + 2 * length h) s" "native_fits h" for h s
  proof -
    have "1 + 2 * length h < 2 ^ 64 - 1" using that(2) by (simp add: native_fits_def)
    from close_reopen [OF that(1) this] obtain s' gens head where s': "seq_close good_io s = Returns s'"
      "flushed_entries gens = h" "disk_inv pre db gens head (snd s')" "ids_below (1 + 2 * length h) db (snd s')" by blast
    moreover from this(1) have "nt_shutting_down (fst s')" by (cases s) (auto dest: seq_close_shutting simp del: seq_close.simps)
    ultimately show ?thesis using that(2) by (auto simp: native_ops_def native_closed_def simp del: seq_close.simps)
  qed
  show "\<exists>s'. op_close (native_ops good_io) s = Returns s' \<and> native_closed db pre h s'" if "native_closed db pre h s" for h s
    using that seq_close_again [of s good_io] by (auto simp: native_ops_def native_closed_def)
  show "\<exists>s. Returns (native_new cfg db False mg f) = Returns s \<and> native_reopened db pre h s"
    if "native_closed db pre h (l, f)" for h l f
    using native_reopen [OF that pre pool num] by simp
  show "op_get (native_ops good_io) k s = Returns (Some v)"
    if "native_reopened db pre h s" "k \<noteq> []" "entries_map h k = Some v" "v \<noteq> MEMTABLE_TOMBSTONE" for h s k v
    using that by (simp add: native_ops_def native_reopened_def native_answers_def live_def)
  show "\<exists>b xs. op_getPrefix (native_ops good_io) p s = Returns (b, xs) \<and> omap_ok xs
      \<and> map_of xs = live (entries_map h) |` with_prefix p" if "native_reopened db pre h s" "p \<noteq> []" for h s p
    using that by (simp add: native_ops_def native_reopened_def native_answers_def)
  show "\<exists>s'. op_close (native_ops good_io) s = Returns s' \<and> native_disk (snd s')" if "native_reopened db pre h s" for h s
    using that seq_close_idle [of "fst s" good_io "snd s"] by (auto simp: native_ops_def native_reopened_def)
qed

text \<open>Without preallocation it is also resumable.\<close>

lemma length_file_bytes_subseq: "subseq h h' \<Longrightarrow> length (file_bytes h) \<le> length (file_bytes h')"
  by (induction rule: list_emb.induct) auto

lemma native_fits_subseq:
  assumes "subseq h h'" and "native_fits h'"
  shows "native_fits h"
proof -
  have "set h \<subseteq> set h'" using assms(1) by (induction rule: list_emb.induct) auto
  moreover have "length h \<le> length h'" using assms(1) by (rule list_emb_length)
  ultimately show ?thesis
    using assms(2) length_file_bytes_subseq [OF assms(1)] by (auto simp: native_fits_def log_ok_def)
qed

lemma native_resumable:
  assumes "\<not> cfg_preAllocate cfg"
    and "0 < cfg_filePoolSize cfg" "cfg_filePoolSize cfg < 2 ^ 31" and "cfg_writeBufferNumber cfg < 2 ^ 31"
  shows "resumable_store (native_ops good_io) (\<lambda>ow f. Returns (native_new cfg db ow mg f)) native_disk native_fits
    (\<lambda>h. native_at db 0 h (1 + 2 * length h)) (native_closed db 0) (native_reopened db 0)"
proof (intro resumable_store.intro resumable_store_axioms.intro native_durable)
  show "prealloc_ok 0 cfg" using assms(1) by (simp add: prealloc_ok_def)
  show "native_at db 0 h (1 + 2 * length h) s" if "native_reopened db 0 h s" for h s
    using that by (simp add: native_reopened_def)
  show "native_disk (snd s)" if "native_closed db 0 h s" for h s
    using that by (auto simp: native_closed_def native_disk_def disk_inv_def)
qed (use assms native_fits_subseq in auto)

text \<open>Settings in the range of an \<open>int\<close>, and the passes they allow.\<close>

definition int_settings :: "lsmio_config \<Rightarrow> bool" where
  "int_settings cfg \<longleftrightarrow> 0 < cfg_filePoolSize cfg \<and> cfg_filePoolSize cfg < 2 ^ 31
     \<and> cfg_writeBufferNumber cfg < 2 ^ 31 \<and> cfg_writeBufferSize cfg < 2 ^ 31"

lemma int_settings_prealloc:
  assumes "int_settings cfg"
  shows "prealloc_ok 1 cfg"
proof -
  have "unat (memtable_max_size cfg) < 2 ^ 63"
  proof (cases "0 < cfg_writeBufferSize cfg")
    case True
    then have e: "(word_of_int (cfg_writeBufferSize cfg) :: u64) = word_of_nat (nat (cfg_writeBufferSize cfg))"
      and n: "nat (cfg_writeBufferSize cfg) < 2 ^ 31" using assms by (simp_all add: int_settings_def nat_less_iff)
    from n have "unat (word_of_nat (nat (cfg_writeBufferSize cfg)) :: u64) = nat (cfg_writeBufferSize cfg)"
      by (intro unat_u64_of_nat) simp
    with True n show ?thesis by (simp only: memtable_max_size_def if_True e) simp
  qed (simp add: memtable_max_size_def)
  then show ?thesis by (simp add: prealloc_ok_def)
qed

lemma length_file_bytes_le:
  "\<forall>e \<in> set h. wf_entry e \<and> length (fst e) + length (snd e) \<le> b \<Longrightarrow> length (file_bytes h) \<le> length h * (8 + b)"
  by (induction h) (auto simp: length_serialize)

lemma small_log_fits:
  assumes "list_all (\<lambda>e. length (fst e) < 100 \<and> length (snd e) < 100) h" and "length h < 10"
  shows "native_fits h"
proof -
  have b: "\<forall>e \<in> set h. length (fst e) < 100 \<and> length (snd e) < 100" using assms(1) by (simp add: list_all_iff)
  have "\<forall>e \<in> set h. wf_entry e \<and> length (fst e) + length (snd e) \<le> 200"
  proof
    fix e assume "e \<in> set h"
    with b have "length (fst e) < 100" "length (snd e) < 100" by blast+
    then show "wf_entry e \<and> length (fst e) + length (snd e) \<le> 200" by (simp add: wf_entry_def)
  qed
  with length_file_bytes_le [OF this] assms(2) show ?thesis by (simp add: native_fits_def log_ok_def)
qed

interpretation resumable_native: resumable_store "native_ops good_io" "\<lambda>ow f. Returns (native_new default_config db ow mg f)"
  native_disk native_fits "\<lambda>h. native_at db 0 h (1 + 2 * length h)" "native_closed db 0" "native_reopened db 0" for db mg
  by (rule native_resumable) (simp_all add: default_config_def)

text \<open>The constructor that the manager calls, over a disk.\<close>

definition make_native :: "lsmio_config \<Rightarrow> u64 \<Rightarrow> fs \<Rightarrow> storage_type \<Rightarrow> string \<Rightarrow> bool \<Rightarrow> native_state outcome" where
  "make_native cfg fs_magic f t db ow =
     (case t of NativeDB \<Rightarrow> Returns (native_new cfg db ow fs_magic f) | _ \<Rightarrow> Undefined)"

interpretation default_native: durable_store "native_ops good_io" "\<lambda>ow f. Returns (native_new default_config db ow mg f)"
  native_disk native_fits "\<lambda>h. native_at db 1 h (1 + 2 * length h)" "native_closed db 1" "native_reopened db 1" for db mg
  by (rule native_durable) (simp_all add: default_config_def prealloc_ok_def)


end
