(* ===== verification/Bm_Programs.thy ===== *)
theory Bm_Programs
  imports Bm_Base Durable_Store
begin

text \<open>
  The programs \<open>benchmark/bm_native.cpp\<close>, \<open>bm_leveldb.cpp\<close> and \<open>bm_rocksdb.cpp\<close>, which differ in
  the store they build, and \<open>benchmark/bm_manager.cpp\<close>. The locale \<open>bench_program\<close> is what the passes
  of \<open>bm_base.cpp\<close> need of a program for its iterations to succeed; both kinds of program have it over
  a store that keeps the contract \<open>durable_store\<close>.
\<close>

section \<open>The program over a store\<close>

text \<open>
  The state is the pointer \<open>_lc\<close> and what stays on the disk; a store is called with both. \<open>create\<close>
  is the constructor, with the flag to overwrite. \<open>delete\<close> runs the destructor, which closes.
\<close>

type_synonym ('l, 'f) lc_state = "'l option \<times> 'f"

definition lc_make :: "(bool \<Rightarrow> 'f \<Rightarrow> ('l \<times> 'f) outcome) \<Rightarrow> bool \<Rightarrow> 'f \<Rightarrow> ('l, 'f) lc_state outcome" where
  "lc_make create ow f = bind_outcome (create ow f) (\<lambda>(l, f'). Returns (Some l, f'))"

definition lc_doRead ::
  "('l \<times> 'f) store_ops \<Rightarrow> key \<Rightarrow> ('l, 'f) lc_state \<Rightarrow> ((bool \<times> val) \<times> ('l, 'f) lc_state) outcome" where
  "lc_doRead ops k w = (case w of (None, f) \<Rightarrow> Undefined
     | (Some l, f) \<Rightarrow> bind_outcome (op_get ops k (l, f)) (\<lambda>r.
         Returns ((case r of Some v \<Rightarrow> (True, v) | None \<Rightarrow> (False, [])), w)))"

definition lc_doWrite ::
  "('l \<times> 'f) store_ops \<Rightarrow> bool \<Rightarrow> key \<Rightarrow> val \<Rightarrow> ('l, 'f) lc_state \<Rightarrow> (bool \<times> ('l, 'f) lc_state) outcome" where
  "lc_doWrite ops flush k v w = (case w of (None, f) \<Rightarrow> Undefined
     | (Some l, f) \<Rightarrow> bind_outcome (store_put ops k v flush (l, f)) (\<lambda>(b, l', f'). Returns (b, Some l', f')))"

definition lc_writePrepare :: "(bool \<Rightarrow> 'f \<Rightarrow> ('l \<times> 'f) outcome) \<Rightarrow> ('l, 'f) lc_state \<Rightarrow> ('l, 'f) lc_state outcome" where
  "lc_writePrepare create w = lc_make create True (snd w)"

definition lc_doWriteFinalize :: "('l \<times> 'f) store_ops \<Rightarrow> ('l, 'f) lc_state \<Rightarrow> ('l, 'f) lc_state outcome" where
  "lc_doWriteFinalize ops w = (case w of (None, f) \<Rightarrow> Undefined
     | (Some l, f) \<Rightarrow> bind_outcome (op_writeBarrier ops (l, f)) (\<lambda>(b, s).
         bind_outcome (op_close ops s) (\<lambda>(l', f'). Returns (Some l', f'))))"

definition lc_readPrepare ::
  "('l \<times> 'f) store_ops \<Rightarrow> (bool \<Rightarrow> 'f \<Rightarrow> ('l \<times> 'f) outcome) \<Rightarrow> ('l, 'f) lc_state \<Rightarrow> ('l, 'f) lc_state outcome" where
  "lc_readPrepare ops create w = (case w of (None, f) \<Rightarrow> lc_make create False f
     | (Some l, f) \<Rightarrow> bind_outcome (op_close ops (l, f)) (\<lambda>s. lc_make create False (snd s)))"

definition lc_readCleanup :: "('l \<times> 'f) store_ops \<Rightarrow> ('l, 'f) lc_state \<Rightarrow> ('l, 'f) lc_state outcome" where
  "lc_readCleanup ops w = (case w of (None, f) \<Rightarrow> Returns (None, f)
     | (Some l, f) \<Rightarrow> bind_outcome (op_close ops (l, f)) (\<lambda>s. Returns (None, snd s)))"

definition lc_bench :: "('l \<times> 'f) store_ops \<Rightarrow> (bool \<Rightarrow> 'f \<Rightarrow> ('l \<times> 'f) outcome) \<Rightarrow> bool \<Rightarrow> ('l, 'f) lc_state bm_ops" where
  "lc_bench ops create flush = \<lparr>bo_doRead = lc_doRead ops, bo_doWrite = lc_doWrite ops flush,
     bo_writePrepare = lc_writePrepare create, bo_doWriteFinalize = lc_doWriteFinalize ops,
     bo_writeCleanup = Returns, bo_readPrepare = lc_readPrepare ops create, bo_doReadFinalize = Returns,
     bo_readCleanup = lc_readCleanup ops\<rparr>"

lemmas lc_defs = lc_doRead_def lc_doWrite_def lc_writePrepare_def lc_doWriteFinalize_def lc_readPrepare_def
  lc_readCleanup_def lc_make_def

text \<open>
  The program over a manager, which is built anew for every pass. \<open>make_store\<close> is the constructor of
  the store over the disk; a manager that is closed leaves the disk of its store.
\<close>

type_synonym ('s, 'f) lm_state = "'s manager option \<times> 'f"

definition lm_make ::
  "('f \<Rightarrow> storage_type \<Rightarrow> string \<Rightarrow> bool \<Rightarrow> 's outcome) \<Rightarrow> lsmio_config \<Rightarrow> mpi_env \<Rightarrow> string \<Rightarrow> bool \<Rightarrow> 'f
    \<Rightarrow> ('s, 'f) lm_state outcome" where
  "lm_make make_store cfg env path ow f =
     bind_outcome (manager_init (make_store f) cfg env path [] ow) (\<lambda>m. Returns (Some m, f))"

definition lm_env :: "bm_config \<Rightarrow> mpi_env \<Rightarrow> mpi_env" where
  "lm_env bc env = env\<lparr>me_adios := None, me_mpi := bc_enableCollectiveIO bc\<rparr>"

definition lm_doRead ::
  "'s store_ops \<Rightarrow> lsmio_config \<Rightarrow> 's manager \<Rightarrow> key \<Rightarrow> ('s, 'f) lm_state \<Rightarrow> ((bool \<times> val) \<times> ('s, 'f) lm_state) outcome" where
  "lm_doRead ops cfg agg k w = (case w of (None, f) \<Rightarrow> Undefined
     | (Some m, f) \<Rightarrow> bind_outcome (mg_get ops cfg k [] (m, agg)) (\<lambda>(r, m', agg'). Returns (r, Some m', f)))"

definition lm_doWrite ::
  "'s store_ops \<Rightarrow> lsmio_config \<Rightarrow> 's manager \<Rightarrow> key \<Rightarrow> val \<Rightarrow> ('s, 'f) lm_state \<Rightarrow> (bool \<times> ('s, 'f) lm_state) outcome" where
  "lm_doWrite ops cfg agg k v w = (case w of (None, f) \<Rightarrow> Undefined
     | (Some m, f) \<Rightarrow> bind_outcome (mg_put ops cfg k v (cfg_alwaysFlush cfg) (m, agg))
         (\<lambda>(b, m', agg'). Returns (b, Some m', f)))"

definition lm_close :: "('l \<times> 'f) store_ops \<Rightarrow> ('l \<times> 'f, 'f) lm_state \<Rightarrow> ('l \<times> 'f, 'f) lm_state outcome" where
  "lm_close ops w = (case w of (None, f) \<Rightarrow> Undefined
     | (Some m, f) \<Rightarrow> bind_outcome (manager_close ops m) (\<lambda>(m', left).
         Returns (Some m', case left of None \<Rightarrow> f | Some s \<Rightarrow> snd s)))"

definition lm_doWriteFinalize ::
  "('l \<times> 'f) store_ops \<Rightarrow> lsmio_config \<Rightarrow> ('l \<times> 'f) manager \<Rightarrow> ('l \<times> 'f, 'f) lm_state \<Rightarrow> ('l \<times> 'f, 'f) lm_state outcome" where
  "lm_doWriteFinalize ops cfg agg w = (case w of (None, f) \<Rightarrow> Undefined
     | (Some m, f) \<Rightarrow> bind_outcome (mg_writeBarrier ops cfg (m, agg)) (\<lambda>(b, m', agg'). lm_close ops (Some m', f)))"

definition lm_delete :: "('l \<times> 'f) store_ops \<Rightarrow> ('l \<times> 'f, 'f) lm_state \<Rightarrow> ('l \<times> 'f, 'f) lm_state outcome" where
  "lm_delete ops w = (case w of (None, f) \<Rightarrow> Returns (None, f)
     | (Some m, f) \<Rightarrow> bind_outcome (lm_close ops w) (\<lambda>(m', f'). Returns (None, f')))"

definition lm_bench ::
  "('l \<times> 'f) store_ops \<Rightarrow> ('f \<Rightarrow> storage_type \<Rightarrow> string \<Rightarrow> bool \<Rightarrow> ('l \<times> 'f) outcome) \<Rightarrow> bm_config \<Rightarrow> lsmio_config
    \<Rightarrow> mpi_env \<Rightarrow> ('l \<times> 'f) manager \<Rightarrow> ('l \<times> 'f, 'f) lm_state bm_ops" where
  "lm_bench ops make_store bc cfg env agg =
     (let path = genDBPath bc (cfg_alwaysFlush cfg) (cfg_useBloomFilter cfg);
          open = (\<lambda>ow w. lm_make make_store cfg (lm_env bc env) path ow (snd w))
      in \<lparr>bo_doRead = lm_doRead ops cfg agg, bo_doWrite = lm_doWrite ops cfg agg, bo_writePrepare = open True,
          bo_doWriteFinalize = lm_doWriteFinalize ops cfg agg, bo_writeCleanup = lm_delete ops,
          bo_readPrepare = open False, bo_doReadFinalize = Returns, bo_readCleanup = lm_delete ops\<rparr>)"

text \<open>\<open>main\<close> for the native store: a suite for every setting, on a database named after the setting.\<close>

definition native_bench :: "io_env \<Rightarrow> u64 \<Rightarrow> bm_config \<Rightarrow> lsmio_config \<Rightarrow> (native_store, fs) lc_state bm_ops" where
  "native_bench env fs_magic bc cfg = lc_bench (native_ops env)
     (\<lambda>ow f. Returns (native_new cfg (genDBPath bc (cfg_alwaysFlush cfg) (cfg_useBloomFilter cfg)) ow fs_magic f))
     (cfg_alwaysFlush cfg)"

section \<open>Keys and values\<close>

lemma dec_value_padded_index [simp]: "dec_value (padded_index i) = i"
  by (simp add: padded_index_def Let_def)

lemma bench_key_inj [simp]: "bench_key i = bench_key j \<longleftrightarrow> i = j"
  by (auto simp: bench_key_def dest: arg_cong [where f = dec_value])

lemma bench_key_not_Nil [simp]: "bench_key i \<noteq> []"
  by (simp add: bench_key_def)

lemma bench_value_not_tombstone [simp]: "bench_value vs c \<noteq> MEMTABLE_TOMBSTONE"
proof
  assume e: "bench_value vs c = MEMTABLE_TOMBSTONE"
  have "is_digit (hd (dec c))" by (rule dec_is_digit [of _ c]) simp
  moreover have "hd (bench_value vs c) = hd (dec c)" by (simp add: bench_value_def)
  moreover have "\<not> is_digit (hd MEMTABLE_TOMBSTONE)" by code_simp
  ultimately show False by (simp add: e)
qed

text \<open>The mutations of a write pass, in order.\<close>

fun bench_log :: "int \<Rightarrow> nat \<Rightarrow> nat list \<Rightarrow> (key \<times> val) list" where
  "bench_log vs c [] = []"
| "bench_log vs c (i # is) = (bench_key i, bench_value vs c) # bench_log vs (Suc c) is"

lemma bench_log_keys [simp]: "map fst (bench_log vs c is) = map bench_key is"
  by (induction "is" arbitrary: c) simp_all

lemma bench_log_length [simp]: "length (bench_log vs c is) = length is"
  by (induction "is" arbitrary: c) simp_all

lemma bench_log_nth: "j < length is \<Longrightarrow> bench_log vs c is ! j = (bench_key (is ! j), bench_value vs (c + j))"
  by (induction "is" arbitrary: c j) (auto simp: nth_Cons split: nat.split)

lemma bench_log_set:
  "e \<in> set (bench_log vs c is) \<longleftrightarrow> (\<exists>j < length is. e = (bench_key (is ! j), bench_value vs (c + j)))"
  by (auto simp: in_set_conv_nth bench_log_nth)

lemma bench_log_lookup:
  assumes "distinct is" and "j < length is"
  shows "entries_map (bench_log vs c is) (bench_key (is ! j)) = Some (bench_value vs (c + j))"
proof -
  have d: "distinct (map fst (rev (bench_log vs c is)))"
    using assms(1) by (simp only: rev_map [symmetric] bench_log_keys distinct_rev) (simp add: distinct_map inj_on_def)
  then show ?thesis
    unfolding entries_map_def using assms(2) by (intro map_of_is_SomeI [OF d]) (auto simp: bench_log_set)
qed

text \<open>
  A round of a benchmark: the keys in the order in which they are visited, and the clock at the start
  and the end of the two passes. The order is a permutation of the indexes.
\<close>

definition round_ok :: "bm_config \<Rightarrow> round \<Rightarrow> bool" where
  "round_ok bc r \<longleftrightarrow> (case r of (perm, tw, tr) \<Rightarrow>
     0 \<le> bc_keyCount bc \<and> distinct perm \<and> set perm = {0..<nat (bc_keyCount bc)}
     \<and> fst tw \<le> snd tw \<and> fst tr \<le> snd tr)"

lemma round_ok_length:
  assumes "round_ok bc (perm, tw, tr)"
  shows "bc_keyCount bc = int (length perm)"
proof -
  have "length perm = card {0..<nat (bc_keyCount bc)}" using assms distinct_card [of perm] by (simp add: round_ok_def)
  then show ?thesis using assms by (simp add: round_ok_def)
qed

section \<open>What the passes need of a program\<close>

text \<open>
  \<open>ready\<close>: a pass of writes can be prepared; \<open>writing h\<close>: the keys and values \<open>h\<close> have been written;
  \<open>written h\<close>: the pass is over; \<open>cleaned h\<close>: a pass of reads can be prepared; \<open>reading h\<close>: it is on; \<open>finished\<close>: it is over.
\<close>

locale bench_program =
  fixes B :: "'w bm_ops"
    and fits :: "(key \<times> val) list \<Rightarrow> bool"
    and ready :: "'w \<Rightarrow> bool"
    and writing written cleaned reading :: "(key \<times> val) list \<Rightarrow> 'w \<Rightarrow> bool"
    and finished :: "'w \<Rightarrow> bool"
  assumes fits_prefix: "fits (h @ h') \<Longrightarrow> fits h"
    and writePrepare: "ready w \<Longrightarrow> \<exists>w'. bo_writePrepare B w = Returns w' \<and> writing [] w'"
    and doWrite: "writing h w \<Longrightarrow> fits (h @ [(k, v)]) \<Longrightarrow>
      \<exists>w'. bo_doWrite B k v w = Returns (True, w') \<and> writing (h @ [(k, v)]) w'"
    and doWriteFinalize: "writing h w \<Longrightarrow> fits h \<Longrightarrow> \<exists>w'. bo_doWriteFinalize B w = Returns w' \<and> written h w'"
    and writeCleanup: "written h w \<Longrightarrow> \<exists>w'. bo_writeCleanup B w = Returns w' \<and> cleaned h w'"
    and readPrepare: "cleaned h w \<Longrightarrow> \<exists>w'. bo_readPrepare B w = Returns w' \<and> reading h w'"
    and doRead: "reading h w \<Longrightarrow> k \<noteq> [] \<Longrightarrow> entries_map h k = Some v \<Longrightarrow> v \<noteq> MEMTABLE_TOMBSTONE \<Longrightarrow>
      \<exists>w'. bo_doRead B k w = Returns ((True, v), w') \<and> reading h w'"
    and doReadFinalize: "reading h w \<Longrightarrow> \<exists>w'. bo_doReadFinalize B w = Returns w' \<and> finished w'"
    and readCleanup: "finished w \<Longrightarrow> \<exists>w'. bo_readCleanup B w = Returns w' \<and> ready w'"
begin

lemma write_loop_all:
  "writing h w \<Longrightarrow> fits (h @ bench_log vs c is) \<Longrightarrow>
    \<exists>w'. write_loop B vs c is w = Returns (c + length is, w') \<and> writing (h @ bench_log vs c is) w'"
proof (induction "is" arbitrary: h c w)
  case (Cons i "is")
  let ?e = "(bench_key i, bench_value vs c)"
  have fit: "fits ((h @ [?e]) @ bench_log vs (Suc c) is)" using Cons.prems(2) by simp
  from doWrite [OF Cons.prems(1) fits_prefix [OF fit]] obtain w1 where
    "bo_doWrite B (bench_key i) (bench_value vs c) w = Returns (True, w1)" and w1: "writing (h @ [?e]) w1" by blast
  with Cons.IH [OF w1 fit] show ?case by simp
qed simp

lemma read_loop_all:
  "reading h w \<Longrightarrow> \<forall>j < length is. entries_map h (bench_key (is ! j)) = Some (bench_value vs (c + j)) \<Longrightarrow>
    \<exists>w'. read_loop B vs c is w = Returns (c + length is, w') \<and> reading h w'"
proof (induction "is" arbitrary: c w)
  case (Cons i "is")
  have "entries_map h (bench_key i) = Some (bench_value vs c)" using Cons.prems(2) by (auto dest: spec [of _ 0])
  from doRead [OF Cons.prems(1) _ this] obtain w1 where
    r: "bo_doRead B (bench_key i) w = Returns ((True, bench_value vs c), w1)" "reading h w1" by auto
  have "\<forall>j < length is. entries_map h (bench_key (is ! j)) = Some (bench_value vs (Suc c + j))"
  proof (intro allI impI)
    fix j assume "j < length is"
    then show "entries_map h (bench_key (is ! j)) = Some (bench_value vs (Suc c + j))"
      using Cons.prems(2) [rule_format, of "Suc j"] by simp
  qed
  from Cons.IH [OF r(2) this] r(1) show ?case by simp
qed simp

text \<open>
  An iteration returns 0 and records the two durations, whatever the order of the keys, and leaves a
  state in which the next one can start.
\<close>

lemma iteration_ok:
  assumes w0: "ready (be_world be)" and timer: "\<not> bt_isStarted (be_timer be)"
    and round: "round_ok bc (perm, tw, tr)" and vs: "8 \<le> bc_valueSize bc"
    and fit: "fits (bench_log (bc_valueSize bc) 0 perm)"
  shows "\<exists>be'. benchIteration B bc bytes nops (perm, tw, tr) be = Returns (0, be')
    \<and> ready (be_world be') \<and> \<not> bt_isStarted (be_timer be')
    \<and> be_iterations be' = addIteration ''iread'' ((snd tr - fst tr) div 1000) bytes nops
        (addIteration ''iwrite'' ((snd tw - fst tw) div 1000) bytes nops (be_iterations be))"
proof -
  let ?vs = "bc_valueSize bc" and ?n = "length perm"
  let ?h = "bench_log ?vs 0 perm"
  have perm: "distinct perm" "bc_keyCount bc = int ?n" and t: "fst tw \<le> snd tw" "fst tr \<le> snd tr"
    using round_ok_length [OF round] round by (simp_all add: round_ok_def)
  from writePrepare [OF w0] obtain w1 where w1: "bo_writePrepare B (be_world be) = Returns w1" "writing [] w1" by blast
  from write_loop_all [OF w1(2), of ?vs 0 perm] fit obtain w2 where
    w2: "write_loop B ?vs 0 perm w1 = Returns (?n, w2)" "writing ?h w2" by auto
  from doWriteFinalize [OF w2(2) fit] obtain w3 where w3: "bo_doWriteFinalize B w2 = Returns w3" "written ?h w3" by blast
  from writeCleanup [OF w3(2)] obtain w4 where w4: "bo_writeCleanup B w3 = Returns w4" "cleaned ?h w4" by blast
  from readPrepare [OF w4(2)] obtain w5 where w5: "bo_readPrepare B w4 = Returns w5" "reading ?h w5" by blast
  from read_loop_all [OF w5(2), of perm ?vs 0] bench_log_lookup [OF perm(1), of _ ?vs 0] obtain w6 where
    w6: "read_loop B ?vs 0 perm w5 = Returns (?n, w6)" "reading ?h w6" by auto
  from doReadFinalize [OF w6(2)] obtain w7 where w7: "bo_doReadFinalize B w6 = Returns w7" "finished w7" by blast
  from readCleanup [OF w7(2)] obtain w8 where "bo_readCleanup B w7 = Returns w8" "ready w8" by blast
  with timer vs t w1(1) w2(1) w3(1) w4(1) w5(1) w6(1) w7(1) show ?thesis
    by (simp add: benchIteration_def benchWrite_def benchRead_def timed_pass_def record_pass_def timer_defs
        to_microseconds_def perm(2))
qed

text \<open>So does every round of a suite: the table gets two successful entries for each.\<close>

lemma rounds_ok:
  "ready (be_world be) \<Longrightarrow> \<not> bt_isStarted (be_timer be) \<Longrightarrow> sorted (map fst (be_iterations be)) \<Longrightarrow>
    \<forall>r \<in> set rs. round_ok bc r \<and> fits (bench_log (bc_valueSize bc) 0 (fst r)) \<Longrightarrow> 8 \<le> bc_valueSize bc \<Longrightarrow>
    \<exists>be'. bench_rounds B bc bytes nops rs be = Returns be'
      \<and> ready (be_world be') \<and> \<not> bt_isStarted (be_timer be')
      \<and> named ''iwrite'' (be_iterations be') = named ''iwrite'' (be_iterations be)
          @ map (\<lambda>(perm, tw, tr). ((snd tw - fst tw) div 1000, bytes, nops)) rs
      \<and> named ''iread'' (be_iterations be') = named ''iread'' (be_iterations be)
          @ map (\<lambda>(perm, tw, tr). ((snd tr - fst tr) div 1000, bytes, nops)) rs"
proof (induction rs arbitrary: be)
  case (Cons r rs)
  obtain perm tw tr where r: "r = (perm, tw, tr)" by (cases r)
  from iteration_ok [OF Cons.prems(1,2) _ Cons.prems(5), of perm tw tr bytes nops] Cons.prems(4) r obtain be1 where
    it: "benchIteration B bc bytes nops r be = Returns (0, be1)"
      "ready (be_world be1)" "\<not> bt_isStarted (be_timer be1)"
    and es: "be_iterations be1 = addIteration ''iread'' ((snd tr - fst tr) div 1000) bytes nops
        (addIteration ''iwrite'' ((snd tw - fst tw) div 1000) bytes nops (be_iterations be))" by auto
  have sorted: "sorted (map fst (be_iterations be1))" using Cons.prems(3) by (simp add: es sorted_addIteration)
  have "\<forall>r \<in> set rs. round_ok bc r \<and> fits (bench_log (bc_valueSize bc) 0 (fst r))" using Cons.prems(4) by simp
  from Cons.IH [OF it(2,3) sorted this Cons.prems(5)] obtain be' where be':
    "bench_rounds B bc bytes nops rs be1 = Returns be'"
    "ready (be_world be')" "\<not> bt_isStarted (be_timer be')"
    "named ''iwrite'' (be_iterations be') = named ''iwrite'' (be_iterations be1)
          @ map (\<lambda>(perm, tw, tr). ((snd tw - fst tw) div 1000, bytes, nops)) rs"
    "named ''iread'' (be_iterations be') = named ''iread'' (be_iterations be1)
          @ map (\<lambda>(perm, tw, tr). ((snd tr - fst tr) div 1000, bytes, nops)) rs"
    by blast
  with it(1) Cons.prems(3) show ?case by (simp add: r es named_addIteration sorted_addIteration)
qed simp

end

section \<open>The programs have it\<close>

sublocale durable_store \<subseteq> lc: bench_program "lc_bench ops create flush" fits "\<lambda>w. disk (snd w)"
  "\<lambda>h w. \<exists>l f. w = (Some l, f) \<and> at h (l, f)" "\<lambda>h w. \<exists>l f. w = (Some l, f) \<and> closed h (l, f)"
  "\<lambda>h w. \<exists>l f. w = (Some l, f) \<and> closed h (l, f)" "\<lambda>h w. \<exists>l f. w = (Some l, f) \<and> reopened h (l, f)"
  "\<lambda>w. \<exists>h l f. w = (Some l, f) \<and> reopened h (l, f)" for flush
proof
  show "fits h" if "fits (h @ h')" for h h' by (rule fits_prefix [OF that])
  show "\<exists>w'. bo_writePrepare (lc_bench ops create flush) w = Returns w' \<and> (\<exists>l f. w' = (Some l, f) \<and> at [] (l, f))"
    if "disk (snd w)" for w
    using fresh [OF that] by (auto simp: lc_bench_def lc_writePrepare_def lc_make_def)
  show "\<exists>w'. bo_doWrite (lc_bench ops create flush) k v w = Returns (True, w') \<and> (\<exists>l f. w' = (Some l, f) \<and> at (h @ [(k, v)]) (l, f))"
    if "\<exists>l f. w = (Some l, f) \<and> at h (l, f)" "fits (h @ [(k, v)])" for h w k v
    using that(1) put [OF _ that(2), of _ flush] by (fastforce simp: lc_bench_def lc_doWrite_def)
  show "\<exists>w'. bo_doWriteFinalize (lc_bench ops create flush) w = Returns w' \<and> (\<exists>l f. w' = (Some l, f) \<and> closed h (l, f))"
    if w: "\<exists>l f. w = (Some l, f) \<and> at h (l, f)" and fit: "fits h" for h w
  proof -
    from w obtain l f where lf: "w = (Some l, f)" "at h (l, f)" by blast
    from barrier [OF lf(2) fit] obtain s1 where s1: "op_writeBarrier ops (l, f) = Returns (True, s1)" "at h s1" by blast
    from close [OF s1(2) fit] obtain l2 f2 where "op_close ops s1 = Returns (l2, f2)" "closed h (l2, f2)" by auto
    with lf(1) s1(1) show ?thesis by (simp add: lc_bench_def lc_doWriteFinalize_def)
  qed
  show "\<exists>w'. bo_writeCleanup (lc_bench ops create flush) w = Returns w' \<and> (\<exists>l f. w' = (Some l, f) \<and> closed h (l, f))"
    if "\<exists>l f. w = (Some l, f) \<and> closed h (l, f)" for h w using that by (simp add: lc_bench_def)
  show "\<exists>w'. bo_readPrepare (lc_bench ops create flush) w = Returns w' \<and> (\<exists>l f. w' = (Some l, f) \<and> reopened h (l, f))"
    if w: "\<exists>l f. w = (Some l, f) \<and> closed h (l, f)" for h w
  proof -
    from w obtain l f where lf: "w = (Some l, f)" "closed h (l, f)" by blast
    from close_again [OF lf(2)] obtain l1 f1 where s1: "op_close ops (l, f) = Returns (l1, f1)" "closed h (l1, f1)" by auto
    from open_again [OF s1(2)] lf(1) s1(1) show ?thesis
      by (auto simp: lc_bench_def lc_readPrepare_def lc_make_def)
  qed
  show "\<exists>w'. bo_doRead (lc_bench ops create flush) k w = Returns ((True, v), w') \<and> (\<exists>l f. w' = (Some l, f) \<and> reopened h (l, f))"
    if "\<exists>l f. w = (Some l, f) \<and> reopened h (l, f)" "k \<noteq> []" "entries_map h k = Some v" "v \<noteq> MEMTABLE_TOMBSTONE" for h w k v
    using that(1) get [OF _ that(2-4)] by (auto simp: lc_bench_def lc_doRead_def)
  show "\<exists>w'. bo_doReadFinalize (lc_bench ops create flush) w = Returns w' \<and> (\<exists>h l f. w' = (Some l, f) \<and> reopened h (l, f))"
    if "\<exists>l f. w = (Some l, f) \<and> reopened h (l, f)" for h w using that by (auto simp: lc_bench_def)
  show "\<exists>w'. bo_readCleanup (lc_bench ops create flush) w = Returns w' \<and> disk (snd w')"
    if "\<exists>h l f. w = (Some l, f) \<and> reopened h (l, f)" for w
    using that close_reopened by (fastforce simp: lc_bench_def lc_readCleanup_def)
qed

context durable_store
begin

lemmas lc_program = lc.bench_program_axioms

lemmas lc_rounds_ok = lc.rounds_ok

end

text \<open>The manager benchmark without collective IO: a manager with a store of its own.\<close>

locale managed_store = durable_store ops create disk fits at closed reopened
  for ops :: "('l \<times> 'f) store_ops"
    and create :: "bool \<Rightarrow> 'f \<Rightarrow> ('l \<times> 'f) outcome"
    and disk :: "'f \<Rightarrow> bool"
    and fits :: "(key \<times> val) list \<Rightarrow> bool"
    and at closed reopened :: "(key \<times> val) list \<Rightarrow> 'l \<times> 'f \<Rightarrow> bool" +
  fixes make_store :: "'f \<Rightarrow> storage_type \<Rightarrow> string \<Rightarrow> bool \<Rightarrow> ('l \<times> 'f) outcome"
    and bc :: bm_config
    and cfg :: lsmio_config
  assumes builds: "make_store f (cfg_storageType cfg) (genDBPath bc (cfg_alwaysFlush cfg) (cfg_useBloomFilter cfg)) ow
      = create ow f"
    and own: "\<not> bc_enableCollectiveIO bc"
begin

lemma lm_opens:
  assumes "create ow f = Returns s"
  shows "\<exists>m. lm_make make_store cfg (lm_env bc env) (genDBPath bc (cfg_alwaysFlush cfg) (cfg_useBloomFilter cfg)) ow f
      = Returns (Some m, f) \<and> alone m \<and> mg_store m = Some s"
  using manager_init_alone [of "lm_env bc env" "make_store f" cfg "[]"
      "genDBPath bc (cfg_alwaysFlush cfg) (cfg_useBloomFilter cfg)" ow s] own builds [of f ow] assms
  by (auto simp: lm_make_def lm_env_def)

lemma lm_deletes:
  "mg_store m = None \<Longrightarrow> lm_delete ops (Some m, f) = Returns (None, f)"
  by (simp add: lm_delete_def lm_close_def manager_close_def)

end

sublocale managed_store \<subseteq> lm: bench_program "lm_bench ops make_store bc cfg env agg" fits "\<lambda>w. disk (snd w)"
  "\<lambda>h w. \<exists>m f. w = (Some m, f) \<and> holds h (m, agg)"
  "\<lambda>h w. \<exists>m s. w = (Some m, snd s) \<and> mg_store m = None \<and> closed h s" "\<lambda>h w. \<exists>s. w = (None, snd s) \<and> closed h s"
  "\<lambda>h w. \<exists>m f. w = (Some m, f) \<and> finds h (m, agg)" "\<lambda>w. \<exists>h m f. w = (Some m, f) \<and> finds h (m, agg)" for env agg
proof
  let ?B = "lm_bench ops make_store bc cfg env agg"
  show "fits h" if "fits (h @ h')" for h h' by (rule fits_prefix [OF that])
  show "\<exists>w'. bo_writePrepare ?B w = Returns w' \<and> (\<exists>m f. w' = (Some m, f) \<and> holds [] (m, agg))" if "disk (snd w)" for w
  proof -
    from fresh [OF that] obtain s where s: "create True (snd w) = Returns s" "at [] s" by blast
    from lm_opens [OF s(1)] obtain m where "lm_make make_store cfg (lm_env bc env) (genDBPath bc (cfg_alwaysFlush cfg) (cfg_useBloomFilter cfg)) True (snd w)
        = Returns (Some m, snd w)" "alone m" "mg_store m = Some s" by blast
    with s(2) show ?thesis by (cases s) (simp add: lm_bench_def Let_def holds_def)
  qed
  show "\<exists>w'. bo_doWrite ?B k v w = Returns (True, w') \<and> (\<exists>m f. w' = (Some m, f) \<and> holds (h @ [(k, v)]) (m, agg))"
    if "\<exists>m f. w = (Some m, f) \<and> holds h (m, agg)" "fits (h @ [(k, v)])" for h w k v
  proof -
    from that(1) obtain m f where m: "w = (Some m, f)" "holds h (m, agg)" by blast
    from manager_put [OF m(2) that(2), of cfg "cfg_alwaysFlush cfg"] obtain p where
      "mg_put ops cfg k v (cfg_alwaysFlush cfg) (m, agg) = Returns (True, p)" "holds (h @ [(k, v)]) p" by blast
    with m(1) show ?thesis by (cases p) (simp add: lm_bench_def Let_def lm_doWrite_def holds_def)
  qed
  show "\<exists>w'. bo_doWriteFinalize ?B w = Returns w' \<and> (\<exists>m s. w' = (Some m, snd s) \<and> mg_store m = None \<and> closed h s)"
    if w: "\<exists>m f. w = (Some m, f) \<and> holds h (m, agg)" and fit: "fits h" for h w
  proof -
    from w obtain m f where m: "w = (Some m, f)" "holds h (m, agg)" by blast
    from manager_barrier [OF m(2) fit, of cfg] obtain p where p: "mg_writeBarrier ops cfg (m, agg) = Returns (True, p)" "holds h p"
      by blast
    from manager_closes [OF p(2) fit] obtain m2 s where "manager_close ops (fst p) = Returns (m2, Some s)"
      "mg_store m2 = None" "closed h s" by blast
    with m(1) p(1) show ?thesis by (cases p; cases s) (auto simp: lm_bench_def Let_def lm_doWriteFinalize_def lm_close_def)
  qed
  show "\<exists>w'. bo_writeCleanup ?B w = Returns w' \<and> (\<exists>s. w' = (None, snd s) \<and> closed h s)"
    if "\<exists>m s. w = (Some m, snd s) \<and> mg_store m = None \<and> closed h s" for h w
    using that by (auto simp: lm_bench_def Let_def lm_deletes)
  show "\<exists>w'. bo_readPrepare ?B w = Returns w' \<and> (\<exists>m f. w' = (Some m, f) \<and> finds h (m, agg))"
    if "\<exists>s. w = (None, snd s) \<and> closed h s" for h w
  proof -
    from that obtain l f where s: "w = (None, f)" "closed h (l, f)" by auto
    from open_again [OF s(2)] obtain s2 where s2: "create False f = Returns s2" "reopened h s2" by blast
    from lm_opens [OF s2(1)] obtain m where "lm_make make_store cfg (lm_env bc env) (genDBPath bc (cfg_alwaysFlush cfg) (cfg_useBloomFilter cfg)) False f
        = Returns (Some m, f)" "alone m" "mg_store m = Some s2" by blast
    with s2(2) s(1) show ?thesis by (cases s2) (simp add: lm_bench_def Let_def finds_def)
  qed
  show "\<exists>w'. bo_doRead ?B k w = Returns ((True, v), w') \<and> (\<exists>m f. w' = (Some m, f) \<and> finds h (m, agg))"
    if "\<exists>m f. w = (Some m, f) \<and> finds h (m, agg)" "k \<noteq> []" "entries_map h k = Some v" "v \<noteq> MEMTABLE_TOMBSTONE" for h w k v
  proof -
    from that(1) obtain m f where m: "w = (Some m, f)" "finds h (m, agg)" by blast
    from manager_finds [OF m(2) that(2-4), of cfg "[]"] obtain p where
      "mg_get ops cfg k [] (m, agg) = Returns ((True, v), p)" "finds h p" by blast
    with m(1) show ?thesis by (cases p) (simp add: lm_bench_def Let_def lm_doRead_def finds_def)
  qed
  show "\<exists>w'. bo_doReadFinalize ?B w = Returns w' \<and> (\<exists>h m f. w' = (Some m, f) \<and> finds h (m, agg))"
    if "\<exists>m f. w = (Some m, f) \<and> finds h (m, agg)" for h w using that by (auto simp: lm_bench_def Let_def)
  show "\<exists>w'. bo_readCleanup ?B w = Returns w' \<and> disk (snd w')"
    if "\<exists>h m f. w = (Some m, f) \<and> finds h (m, agg)" for w
  proof -
    from that obtain h m f where m: "w = (Some m, f)" "finds h (m, agg)" by blast
    from manager_close_found [OF m(2)] m(1) show ?thesis by (auto simp: lm_bench_def Let_def lm_delete_def lm_close_def)
  qed
qed

context managed_store
begin

lemmas lm_rounds_ok = lm.rounds_ok

end

lemma length_dec: "n < 10 ^ k \<Longrightarrow> 0 < k \<Longrightarrow> length (dec n) \<le> k"
proof (induction k arbitrary: n)
  case (Suc k)
  show ?case
  proof (cases "n < 10")
    case False
    with Suc.prems have "n div 10 < 10 ^ k" "0 < k" by (auto intro: Nat.gr0I)
    from Suc.IH [OF this] False show ?thesis by (simp add: dec.simps [of n])
  qed (simp add: dec.simps [of n])
qed simp

lemma bench_entry_length:
  assumes "i < 2 ^ 31" and "c < 2 ^ 31" and "8 \<le> vs"
  shows "length (bench_key i) \<le> 20" and "length (bench_value vs c) \<le> nat vs + 4"
proof -
  have "length (dec i) \<le> 10" "length (dec c) \<le> 10" using assms(1,2) by (auto intro!: length_dec)
  then show "length (bench_key i) \<le> 20" "length (bench_value vs c) \<le> nat vs + 4"
    using assms(3) by (simp_all add: bench_key_def padded_index_def bench_value_def Let_def)
qed

lemma bench_log_limits:
  assumes "round_ok bc (perm, tw, tr)" and k: "bc_keyCount bc < 2 ^ 31" and vs: "8 \<le> bc_valueSize bc" "bc_valueSize bc < 2 ^ 31"
  shows bench_log_bytes: "length (file_bytes (bench_log (bc_valueSize bc) 0 perm)) \<le> 2 ^ 31 * (2 ^ 31 + 31)"
    and bench_log_fits: "native_fits (bench_log (bc_valueSize bc) 0 perm)"
proof -
  let ?h = "bench_log (bc_valueSize bc) 0 perm" and ?n = "length perm"
  have n: "?n < 2 ^ 31" using round_ok_length [OF assms(1)] k by simp
  have i: "perm ! j < 2 ^ 31" if "j < ?n" for j
  proof -
    have "perm ! j < nat (bc_keyCount bc)" using assms(1) nth_mem [OF that] by (auto simp: round_ok_def)
    then show ?thesis using k by simp
  qed
  have e: "length (fst e) \<le> 20 \<and> length (snd e) \<le> 2 ^ 31 + 3" if "e \<in> set ?h" for e
  proof -
    from that obtain j where j: "j < ?n" and e: "e = (bench_key (perm ! j), bench_value (bc_valueSize bc) j)"
      by (auto simp: bench_log_set)
    have "length (fst e) \<le> 20" "length (snd e) \<le> nat (bc_valueSize bc) + 4"
      using bench_entry_length [OF i [OF j] _ vs(1), of j] j n by (simp_all add: e)
    then show ?thesis using vs(2) by simp
  qed
  have wf: "\<forall>e \<in> set ?h. wf_entry e \<and> length (fst e) + length (snd e) \<le> 2 ^ 31 + 23"
  proof
    fix e
    assume "e \<in> set ?h"
    then show "wf_entry e \<and> length (fst e) + length (snd e) \<le> 2 ^ 31 + 23"
      using e [of e] by (simp add: wf_entry_def)
  qed
  have "length (file_bytes ?h) \<le> ?n * (8 + (2 ^ 31 + 23))" using length_file_bytes_le [OF wf] by simp
  also have "\<dots> \<le> 2 ^ 31 * (8 + (2 ^ 31 + 23))" using n by (intro mult_right_mono) simp_all
  finally show bytes: "length (file_bytes ?h) \<le> 2 ^ 31 * (2 ^ 31 + 31)" by simp
  then show "native_fits ?h" using wf n by (simp add: native_fits_def log_ok_def)
qed

section \<open>Properties\<close>

text \<open>
  Every round of the benchmark of the native store succeeds, for every order of the keys and every
  number of rounds: the write pass stores all keys, closes the store, and the read pass of a store
  opened again finds every value; the table gets the durations of both passes.
\<close>

theorem native_benchmark_succeeds:
  assumes "int_settings cfg" and "fs_ok (snd (be_world be))" and "fs_small (snd (be_world be))"
    and "\<not> bt_isStarted (be_timer be)" and "be_iterations be = []" and "\<forall>r \<in> set rs. round_ok bc r"
    and "bc_keyCount bc < 2 ^ 31" and "8 \<le> bc_valueSize bc" and "bc_valueSize bc < 2 ^ 31"
  shows "\<exists>be'. bench_rounds (native_bench good_io mg bc cfg) bc bytes nops rs be = Returns be'
    \<and> named ''iwrite'' (be_iterations be') = map (\<lambda>(perm, tw, tr). ((snd tw - fst tw) div 1000, bytes, nops)) rs
    \<and> named ''iread'' (be_iterations be') = map (\<lambda>(perm, tw, tr). ((snd tr - fst tr) div 1000, bytes, nops)) rs"
proof -
  let ?db = "genDBPath bc (cfg_alwaysFlush cfg) (cfg_useBloomFilter cfg)"
  have set: "0 < cfg_filePoolSize cfg" "cfg_filePoolSize cfg < 2 ^ 31" "cfg_writeBufferNumber cfg < 2 ^ 31"
    using assms(1) by (simp_all add: int_settings_def)
  have rs: "\<forall>r \<in> set rs. round_ok bc r \<and> native_fits (bench_log (bc_valueSize bc) 0 (fst r))"
    using assms(6) bench_log_fits [OF _ assms(7-9)] by fastforce
  show ?thesis
    using durable_store.lc_rounds_ok [OF native_durable [OF int_settings_prealloc [OF assms(1)] set], of be rs bc
        ?db mg "cfg_alwaysFlush cfg" bytes nops] rs assms(2-5,8)
    by (auto simp: native_disk_def native_bench_def)
qed

definition sample_bench :: "(int, (native_store, fs) lc_state) bench" where
  "sample_bench = \<lparr>be_timer = bt_new, be_iterations = [], be_world = (None, fs_empty)\<rparr>"

definition sample_bc :: bm_config where
  "sample_bc = bm_default\<lparr>bc_fileName := ''bm'', bc_keyCount := 3, bc_valueSize := 8\<rparr>"

theorem native_benchmark_succeeds_witness:
  "\<exists>be'. bench_rounds (native_bench good_io 0 sample_bc default_config) sample_bc 24 3
      [([2, 0, 1], (0, 5000), (0, 3000))] sample_bench = Returns be'
    \<and> named ''iwrite'' (be_iterations be') = [(5, 24, 3)] \<and> named ''iread'' (be_iterations be') = [(3, 24, 3)]"
proof -
  have "\<forall>r \<in> set [([2, 0, 1], (0, 5000), (0, 3000))]. round_ok sample_bc r"
    by (auto simp: round_ok_def sample_bc_def atLeastLessThan_nat_numeral)
  from native_benchmark_succeeds [OF _ _ _ _ _ this, of default_config sample_bench 0 24 3] show ?thesis
    by (simp add: sample_bench_def sample_bc_def bm_default_def bt_new_def int_settings_def default_config_def fs_empty_ok)
qed

lemma native_managed:
  assumes "int_settings cfg" and "cfg_storageType cfg = NativeDB" and "\<not> bc_enableCollectiveIO bc"
    and "db = genDBPath bc (cfg_alwaysFlush cfg) (cfg_useBloomFilter cfg)"
  shows "managed_store (native_ops good_io) (\<lambda>ow f. Returns (native_new cfg db ow mg f)) native_disk native_fits
    (\<lambda>h. native_at db 1 h (1 + 2 * length h)) (native_closed db 1) (native_reopened db 1) (make_native cfg mg) bc cfg"
proof -
  have set: "0 < cfg_filePoolSize cfg" "cfg_filePoolSize cfg < 2 ^ 31" "cfg_writeBufferNumber cfg < 2 ^ 31"
    using assms(1) by (simp_all add: int_settings_def)
  show ?thesis
    by (intro managed_store.intro managed_store_axioms.intro native_durable [OF int_settings_prealloc [OF assms(1)] set])
      (simp_all add: make_native_def assms(2-4))
qed

interpretation sample_managed: managed_store "native_ops good_io"
  "\<lambda>ow f. Returns (native_new default_config (genDBPath sample_bc (cfg_alwaysFlush default_config) (cfg_useBloomFilter default_config)) ow mg f)" native_disk native_fits
  "\<lambda>h. native_at (genDBPath sample_bc (cfg_alwaysFlush default_config) (cfg_useBloomFilter default_config)) 1 h (1 + 2 * length h)" "native_closed (genDBPath sample_bc (cfg_alwaysFlush default_config) (cfg_useBloomFilter default_config)) 1"
  "native_reopened (genDBPath sample_bc (cfg_alwaysFlush default_config) (cfg_useBloomFilter default_config)) 1" "make_native default_config mg" sample_bc default_config for mg
  by (rule native_managed) (simp_all add: int_settings_def default_config_def sample_bc_def bm_default_def)



definition refusing :: "unit bm_ops" where
  "refusing = \<lparr>bo_doRead = (\<lambda>k s. Returns ((False, []), s)), bo_doWrite = (\<lambda>k v s. Returns (False, s)),
     bo_writePrepare = Returns, bo_doWriteFinalize = Returns, bo_writeCleanup = Returns, bo_readPrepare = Returns,
     bo_doReadFinalize = Returns, bo_readCleanup = Returns\<rparr>"

text \<open>
  A suite returns 0 whatever its iterations return: with a store that refuses every mutation both
  passes of the iteration fail and are counted, and the program still ends with exit code 0.
\<close>

theorem suite_hides_failures:
  "\<exists>be1 out be2. let be = \<lparr>be_timer = bt_new, be_iterations = [], be_world = ()\<rparr>;
       r = ([2, 0, 1], (0, 5000), (0, 3000)) in
     benchIteration refusing sample_bc (24 :: int) 3 r be = Returns (2, be1)
     \<and> be_iterations be1 = [(''iread'', - 1, 24, 3), (''iwrite'', - 1, 24, 3)]
     \<and> benchSuite int_fp refusing sample_bc 24 3 ''p'' [r] be = Returns ((0, out), be2)"
  by (simp add: benchSuite_def benchIteration_def benchWrite_def benchRead_def timed_pass_def record_pass_def timer_defs
      to_microseconds_def sample_bc_def bm_default_def refusing_def bt_new_def Let_def)

end
