(* ===== verification/Plugin.thy ===== *)
theory Plugin
  imports Std_Text Manager_Laws
begin

text \<open>
  The ADIOS2 engine of \<open>lib/adios-plugin/lsmio_plugin.cpp\<close> and \<open>lsmio_plugin.tcc\<close>: variables are
  stored under their names as comma separated text, and their types and dimensions as metadata of the
  manager, from which a reader declares them again. ADIOS2 is not part of the repository: what the
  engine uses of it is the record \<open>adios\<close>, and \<open>adios_laws\<close> states its documented behaviour.
\<close>

section \<open>What is used of ADIOS2\<close>

type_synonym dims = "u64 list"

record 'dt adios_var =
  va_name :: string
  va_type :: 'dt
  va_shape :: dims
  va_start :: dims
  va_count :: dims

text \<open>
  \<open>helper::GetParameter\<close> in its two forms, the variables of an \<open>IO\<close> object, the names of the types, the
  types in the list of \<open>ADIOS2_FOREACH_STDTYPE_1ARG\<close>, and how a \<open>Dims\<close> is printed.
\<close>

record ('io, 'dt) adios =
  ad_parameter :: "'io \<Rightarrow> string \<Rightarrow> bool \<Rightarrow> string outcome"
  ad_option :: "'io \<Rightarrow> string \<Rightarrow> string"
  ad_variables :: "'io \<Rightarrow> 'dt adios_var list"
  ad_inquire :: "'dt \<Rightarrow> string \<Rightarrow> 'io \<Rightarrow> 'dt adios_var option"
  ad_define :: "'dt adios_var \<Rightarrow> 'io \<Rightarrow> 'io outcome"
  ad_type_name :: "'dt \<Rightarrow> string"
  ad_type_of :: "string \<Rightarrow> 'dt"
  ad_std :: "'dt \<Rightarrow> bool"
  ad_dims :: "dims \<Rightarrow> string"

text \<open>A list of numbers in braces, with or without a blank behind the commas.\<close>

fun dims_parts :: "string \<Rightarrow> dims \<Rightarrow> string list" where
  "dims_parts pad [] = []"
| "dims_parts pad (d # ds) = dec (unat d) # map (\<lambda>x. pad @ dec (unat x)) ds"

definition dims_text :: "string \<Rightarrow> dims \<Rightarrow> string" where
  "dims_text pad ds = ''{'' @ join_with (CHR '','') (dims_parts pad ds) @ ''}''"

section \<open>The text of dimensions and variables\<close>

fun map_outcome :: "('a \<Rightarrow> 'b outcome) \<Rightarrow> 'a list \<Rightarrow> 'b list outcome" where
  "map_outcome f [] = Returns []"
| "map_outcome f (x # xs) = bind_outcome (f x) (\<lambda>y. bind_outcome (map_outcome f xs) (\<lambda>ys. Returns (y # ys)))"

definition dim_of :: "string \<Rightarrow> u64 outcome" where
  "dim_of s = bind_outcome (stoi s) (\<lambda>i. Returns (word_of_int i))"

definition convertStrToDims :: "string \<Rightarrow> dims outcome" where
  "convertStrToDims str = (if 2 < length str
     then map_outcome dim_of (Std_Text.fields (CHR '','') (take (length str - 2) (drop 1 str))) else Returns [])"

definition commaSplit :: "string \<Rightarrow> string list" where
  "commaSplit str = getlines (CHR '','') str"

definition WriteVariableInfo :: "('io, 'dt) adios \<Rightarrow> 'dt adios_var \<Rightarrow> string" where
  "WriteVariableInfo A v = va_name v @ '';'' @ ad_type_name A (va_type v) @ '';'' @ ad_dims A (va_shape v)
     @ '';'' @ ad_dims A (va_start v) @ '';'' @ ad_dims A (va_count v)"

text \<open>One \<open>std::getline\<close>: the line and what is left; an exhausted stream leaves the string empty.\<close>

definition next_line :: "char \<Rightarrow> string \<Rightarrow> string \<times> string" where
  "next_line d s = (takeWhile (\<lambda>c. c \<noteq> d) s, drop 1 (dropWhile (\<lambda>c. c \<noteq> d) s))"

definition parseVariableInfo :: "('io, 'dt) adios \<Rightarrow> string \<Rightarrow> 'dt adios_var outcome" where
  "parseVariableInfo A value =
     (let (name, s1) = next_line (CHR '';'') value; (typeStr, s2) = next_line (CHR '';'') s1;
          (shapeStr, s3) = next_line (CHR '';'') s2; (startStr, s4) = next_line (CHR '';'') s3;
          (countStr, s5) = next_line (CHR 0x0A) s4
      in bind_outcome (convertStrToDims shapeStr) (\<lambda>shape.
           bind_outcome (convertStrToDims startStr) (\<lambda>start.
             bind_outcome (convertStrToDims countStr) (\<lambda>cnt.
               Returns \<lparr>va_name = name, va_type = ad_type_of A typeStr, va_shape = shape,
                 va_start = start, va_count = cnt\<rparr>))))"

section \<open>The text of values\<close>

text \<open>
  \<open>WriteVariable\<close>: the selected values, printed by \<open>operator<<\<close>, with commas between them.
\<close>

fun value_text :: "('a \<Rightarrow> string) \<Rightarrow> 'a list \<Rightarrow> string" where
  "value_text shw [] = []"
| "value_text shw [x] = shw x"
| "value_text shw (x # y # xs) = shw x @ '','' @ value_text shw (y # xs)"

text \<open>
  \<open>ReadVariable\<close> into the caller's buffer: the general template stores as many values as the text has,
  the specialisations as many as the selection has. Writing or reading past an end is undefined.
\<close>

definition put_at :: "'a list \<Rightarrow> nat \<Rightarrow> 'a \<Rightarrow> 'a list outcome" where
  "put_at buf i x = (if i < length buf then Returns (buf[i := x]) else Undefined)"

fun read_all :: "(string \<Rightarrow> 'a outcome) \<Rightarrow> string list \<Rightarrow> nat \<Rightarrow> 'a list \<Rightarrow> 'a list outcome" where
  "read_all conv [] i buf = Returns buf"
| "read_all conv (s # ss) i buf =
     bind_outcome (conv s) (\<lambda>x. bind_outcome (put_at buf i x) (read_all conv ss (Suc i)))"

definition read_template :: "(string \<Rightarrow> 'a outcome) \<Rightarrow> string \<Rightarrow> 'a list \<Rightarrow> 'a list outcome" where
  "read_template conv vals buf =
     (if CHR '','' \<notin> set vals then bind_outcome (conv vals) (put_at buf 0)
      else read_all conv (getlines (CHR '','') vals) 0 buf)"

fun read_array :: "(string \<Rightarrow> 'a outcome) \<Rightarrow> string list \<Rightarrow> nat \<Rightarrow> nat \<Rightarrow> 'a list \<Rightarrow> 'a list outcome" where
  "read_array conv valueArray i 0 buf = Returns buf"
| "read_array conv valueArray i (Suc n) buf =
     (if i < length valueArray
      then bind_outcome (conv (valueArray ! i)) (\<lambda>x. bind_outcome (put_at buf i x) (read_array conv valueArray (Suc i) n))
      else Undefined)"

definition read_special :: "(string \<Rightarrow> 'a outcome) \<Rightarrow> string \<Rightarrow> nat \<Rightarrow> 'a list \<Rightarrow> 'a list outcome" where
  "read_special conv vals selection buf = read_array conv (commaSplit vals) 0 selection buf"

text \<open>\<open>valueArray[i][0]\<close>: of an empty string it is the terminating zero.\<close>

text \<open>For \<open>long double\<close> the conversion is \<open>std::strtold\<close>, which does not throw.\<close>

definition read_long_double :: "(string \<Rightarrow> 'a) \<Rightarrow> string \<Rightarrow> nat \<Rightarrow> 'a list \<Rightarrow> 'a list outcome" where
  "read_long_double strtold = read_special (\<lambda>s. Returns (strtold s))"

definition char_value :: "string \<Rightarrow> char outcome" where
  "char_value s = Returns (case s of c # _ \<Rightarrow> c | [] \<Rightarrow> CHR 0x00)"

definition short_value :: "string \<Rightarrow> 16 word outcome" where
  "short_value s = bind_outcome (stoi s) (\<lambda>i. Returns (word_of_int i))"

definition complex_value :: "string \<Rightarrow> 'a list \<Rightarrow> 'a list outcome" where
  "complex_value vals buf = Throws ''ERROR: std::complex not supported in this engine''"

section \<open>The engine\<close>

datatype open_mode = Write | Append | Read

datatype launch = Sync | Deferred

record ('s, 'io) plugin =
  pl_mode :: open_mode
  pl_io :: 'io
  pl_currentStep :: u64
  pl_peers :: "'s peers"

text \<open>The aggregation type that \<open>Init\<close> takes from the engine's parameters.\<close>

definition aggregation_type :: "string \<Rightarrow> string \<Rightarrow> mpi_agg_type outcome" where
  "aggregation_type aggType ratio =
     (if aggType = [] \<or> aggType = ''twolevelshm'' then Returns Shared
      else if aggType = ''everyonewritesserial'' then Returns EntireSerial
      else if aggType = ''everyonewrites'' \<or> aggType = ''auto''
        then Returns (if ratio = ''2'' then Split else Entire)
      else Throws (''ERROR: LsmioPlugin: Invalid AggregationType parameter provided: '' @ aggType))"

definition addVariable :: "('io, 'dt) adios \<Rightarrow> 'dt adios_var \<Rightarrow> 'io \<Rightarrow> 'io outcome" where
  "addVariable A v io = (case ad_inquire A (va_type v) (va_name v) io of
       None \<Rightarrow> ad_define A v io
     | Some w \<Rightarrow> Returns io)"

fun declare_variables :: "('io, 'dt) adios \<Rightarrow> (string \<times> string) list \<Rightarrow> 'io \<Rightarrow> 'io outcome" where
  "declare_variables A [] io = Returns io"
| "declare_variables A ((k, value) # vs) io =
     bind_outcome (parseVariableInfo A value) (\<lambda>v.
       bind_outcome (if ad_std A (va_type v) then addVariable A v io else Returns io) (declare_variables A vs))"

definition plugin_init ::
  "('io, 'dt) adios \<Rightarrow> (storage_type \<Rightarrow> string \<Rightarrow> bool \<Rightarrow> 's outcome) \<Rightarrow> 's store_ops \<Rightarrow> lsmio_config
    \<Rightarrow> mpi_env \<Rightarrow> open_mode \<Rightarrow> 's manager \<Rightarrow> 'io \<Rightarrow> (('s, 'io) plugin \<times> lsmio_config) outcome" where
  "plugin_init A make_store ops cfg env mode agg io =
     bind_outcome (ad_parameter A io ''DirName'' False) (\<lambda>dirName.
       bind_outcome (ad_parameter A io ''FileName'' True) (\<lambda>fileName.
         if fileName = [] then Throws ''ERROR: LsmioPlugin: no FileName parameter provided.''
         else bind_outcome
             (if me_adios env = Some True
              then bind_outcome (aggregation_type (ad_option A io ''AggregationType'') (ad_option A io ''AggregatorRatio''))
                     (\<lambda>t. Returns (cfg\<lparr>cfg_mpiAggType := t\<rparr>))
              else Returns cfg) (\<lambda>cfg'.
           bind_outcome (manager_init make_store cfg' env fileName dirName (mode = Write)) (\<lambda>m.
             let e = \<lparr>pl_mode = mode, pl_io = io, pl_currentStep = 0, pl_peers = (m, agg)\<rparr> in
             if mode = Read then
               bind_outcome (mg_metaGetAll ops cfg' [] [] (m, agg)) (\<lambda>((success, values), p).
                 bind_outcome (declare_variables A values io) (\<lambda>io'.
                   Returns (e\<lparr>pl_io := io', pl_peers := p\<rparr>, cfg')))
             else Returns (e, cfg')))))"

fun write_vars ::
  "('io, 'dt) adios \<Rightarrow> 's store_ops \<Rightarrow> lsmio_config \<Rightarrow> bool \<Rightarrow> 'io \<Rightarrow> 'dt adios_var list \<Rightarrow> 's peers \<Rightarrow> 's peers outcome" where
  "write_vars A ops cfg isSync io [] p = Returns p"
| "write_vars A ops cfg isSync io (v # vs) p =
     (if \<not> ad_std A (va_type v) then write_vars A ops cfg isSync io vs p
      else case ad_inquire A (va_type v) (va_name v) io of
          None \<Rightarrow> Returns p
        | Some w \<Rightarrow> bind_outcome (mg_metaPut ops cfg (va_name w) (WriteVariableInfo A w) isSync p)
            (\<lambda>(success, p'). write_vars A ops cfg isSync io vs p'))"

definition WriteVarsFromIO ::
  "('io, 'dt) adios \<Rightarrow> 's store_ops \<Rightarrow> lsmio_config \<Rightarrow> launch \<Rightarrow> ('s, 'io) plugin \<Rightarrow> ('s, 'io) plugin outcome" where
  "WriteVarsFromIO A ops cfg mode e =
     bind_outcome (write_vars A ops cfg (mode = Sync) (pl_io e) (ad_variables A (pl_io e)) (pl_peers e))
       (\<lambda>p. Returns (e\<lparr>pl_peers := p\<rparr>))"

definition PerformPuts ::
  "('io, 'dt) adios \<Rightarrow> 's store_ops \<Rightarrow> lsmio_config \<Rightarrow> ('s, 'io) plugin \<Rightarrow> ('s, 'io) plugin outcome" where
  "PerformPuts A ops cfg e = WriteVarsFromIO A ops cfg Deferred e"

text \<open>The calls that do nothing, and the constructor and destructor.\<close>

datatype step_status = StepOK | StepNotReady | StepEndOfStream | StepOtherError

definition BeginStep :: "('s, 'io) plugin \<Rightarrow> step_status \<times> ('s, 'io) plugin" where
  "BeginStep e = (StepOK, e)"

definition PerformGets :: "('s, 'io) plugin \<Rightarrow> ('s, 'io) plugin" where
  "PerformGets e = e"

definition plugin_new ::
  "('io, 'dt) adios \<Rightarrow> (storage_type \<Rightarrow> string \<Rightarrow> bool \<Rightarrow> 's outcome) \<Rightarrow> 's store_ops \<Rightarrow> lsmio_config
    \<Rightarrow> mpi_env \<Rightarrow> open_mode \<Rightarrow> 's manager \<Rightarrow> 'io \<Rightarrow> (('s, 'io) plugin \<times> lsmio_config) outcome" where
  "plugin_new A make_store ops cfg env mode agg io = plugin_init A make_store ops cfg env mode agg io"

definition plugin_delete :: "'s store_ops \<Rightarrow> ('s, 'io) plugin \<Rightarrow> 's option outcome" where
  "plugin_delete ops e = bind_outcome (manager_close ops (fst (pl_peers e))) (\<lambda>(m, left). Returns left)"

definition CurrentStep :: "('s, 'io) plugin \<Rightarrow> u64" where
  "CurrentStep e = pl_currentStep e"

definition EndStep ::
  "('io, 'dt) adios \<Rightarrow> 's store_ops \<Rightarrow> lsmio_config \<Rightarrow> ('s, 'io) plugin \<Rightarrow> ('s, 'io) plugin outcome" where
  "EndStep A ops cfg e =
     bind_outcome (if pl_mode e = Write \<or> pl_mode e = Append then PerformPuts A ops cfg e else Returns e)
       (\<lambda>e'. Returns (e'\<lparr>pl_currentStep := pl_currentStep e' + 1\<rparr>))"

text \<open>\<open>DoPutSync\<close>, \<open>DoPutDeferred\<close> and the gets; the result of a lookup is not looked at.\<close>

definition WriteVariable ::
  "'s store_ops \<Rightarrow> lsmio_config \<Rightarrow> ('a \<Rightarrow> string) \<Rightarrow> string \<Rightarrow> 'a list \<Rightarrow> launch \<Rightarrow> ('s, 'io) plugin
    \<Rightarrow> ('s, 'io) plugin outcome" where
  "WriteVariable ops cfg shw name values mode e =
     bind_outcome (mg_put ops cfg name (value_text shw values) (mode = Sync) (pl_peers e))
       (\<lambda>(success, p). Returns (e\<lparr>pl_peers := p\<rparr>))"

definition WriteVariable_string ::
  "'s store_ops \<Rightarrow> lsmio_config \<Rightarrow> string \<Rightarrow> string list \<Rightarrow> launch \<Rightarrow> ('s, 'io) plugin \<Rightarrow> ('s, 'io) plugin outcome" where
  "WriteVariable_string ops cfg name values mode e = (case values of [] \<Rightarrow> Undefined | v # _ \<Rightarrow>
     bind_outcome (mg_put ops cfg name v (mode = Sync) (pl_peers e)) (\<lambda>(success, p). Returns (e\<lparr>pl_peers := p\<rparr>)))"

definition ReadVariable ::
  "'s store_ops \<Rightarrow> lsmio_config \<Rightarrow> (string \<Rightarrow> 'a list \<Rightarrow> 'a list outcome) \<Rightarrow> string \<Rightarrow> 'a list \<Rightarrow> ('s, 'io) plugin
    \<Rightarrow> ('a list \<times> ('s, 'io) plugin) outcome" where
  "ReadVariable ops cfg parse name buf e =
     bind_outcome (mg_get ops cfg name [] (pl_peers e)) (\<lambda>((success, vals), p).
       bind_outcome (parse vals buf) (\<lambda>buf'. Returns (buf', e\<lparr>pl_peers := p\<rparr>)))"

definition ReadVariable_string ::
  "'s store_ops \<Rightarrow> lsmio_config \<Rightarrow> string \<Rightarrow> string list \<Rightarrow> ('s, 'io) plugin \<Rightarrow> (string list \<times> ('s, 'io) plugin) outcome" where
  "ReadVariable_string ops cfg name buf e = (case buf of [] \<Rightarrow> Undefined | b # bs \<Rightarrow>
     bind_outcome (mg_get ops cfg name b (pl_peers e)) (\<lambda>((success, v), p). Returns (v # bs, e\<lparr>pl_peers := p\<rparr>)))"

text \<open>\<open>DoClose\<close>: the variables are written again, also by an engine that was opened for reading.\<close>

definition DoClose ::
  "('io, 'dt) adios \<Rightarrow> 's store_ops \<Rightarrow> lsmio_config \<Rightarrow> ('s, 'io) plugin \<Rightarrow> (('s, 'io) plugin \<times> 's option) outcome" where
  "DoClose A ops cfg e = bind_outcome (PerformPuts A ops cfg e) (\<lambda>e'.
     bind_outcome (manager_close ops (fst (pl_peers e'))) (\<lambda>(m, left).
       Returns (e'\<lparr>pl_peers := (m, snd (pl_peers e'))\<rparr>, left)))"

end
