(* ===== verification/Plugin_Text.thy ===== *)
theory Plugin_Text
  imports Plugin Kv_Levels
begin

text \<open>
  The texts of the ADIOS2 engine: dimensions, variables and values can be read back from the form in
  which they are stored, and what is lost when they cannot.
\<close>

section \<open>Dimensions\<close>

lemma stoi_dec_large: "2 ^ 31 \<le> n \<Longrightarrow> stoi (dec n) = Throws ''stoi''"
  and stoi_space_dec_large: "2 ^ 31 \<le> n \<Longrightarrow> stoi (CHR '' '' # dec n) = Throws ''stoi''"
  using read_number_digits [of "dec n"] dec_is_digit by (simp_all add: stoi_def)

definition dim_ok :: "u64 \<Rightarrow> bool" where
  "dim_ok d \<longleftrightarrow> unat d < 2 ^ 31"

lemma dim_of_part:
  assumes "pad \<in> {[], '' ''}"
  shows "dim_of (pad @ dec (unat d)) = (if dim_ok d then Returns d else Throws ''stoi'')"
  using assms by (auto simp: dim_of_def dim_ok_def stoi_dec stoi_space_dec stoi_dec_large stoi_space_dec_large not_less)

lemma map_outcome_dims:
  assumes "pad \<in> {[], '' ''}"
  shows "map_outcome dim_of (map (\<lambda>x. pad @ dec (unat x)) ds) = (if list_all dim_ok ds then Returns ds else Throws ''stoi'')"
  using dim_of_part [OF assms] by (induction ds) auto

lemma map_outcome_parts:
  assumes "pad \<in> {[], '' ''}"
  shows "map_outcome dim_of (dims_parts pad ds) = (if list_all dim_ok ds then Returns ds else Throws ''stoi'')"
  using dim_of_part [of "[]"] map_outcome_dims [OF assms] by (cases ds) auto

lemma dims_parts_no_char:
  assumes "pad \<in> {[], '' ''}" and "s \<in> set (dims_parts pad ds)" and "c \<in> set s"
  shows "is_digit c \<or> c = CHR '' ''"
  using assms by (cases ds) (auto dest: dec_is_digit)

lemma join_with_subset: "set (join_with d ss) \<subseteq> insert d (\<Union> (set ` set ss))"
  by (induction d ss rule: join_with.induct) auto

lemma dims_text_no_char:
  assumes "pad \<in> {[], '' ''}" and "c \<in> set (dims_text pad ds)"
  shows "is_digit c \<or> c \<in> set '' ,{}''"
proof -
  have "c \<in> set ''{}'' \<or> c = CHR '','' \<or> (\<exists>s \<in> set (dims_parts pad ds). c \<in> set s)"
    using assms(2) join_with_subset [of "CHR '',''" "dims_parts pad ds"] by (auto simp: dims_text_def)
  with dims_parts_no_char [OF assms(1)] show ?thesis by auto
qed

lemma convert_dims_text:
  assumes pad: "pad \<in> {[], '' ''}"
  shows "convertStrToDims (dims_text pad ds) = (if list_all dim_ok ds then Returns ds else Throws ''stoi'')"
proof (cases ds)
  case Nil
  then show ?thesis by (simp add: convertStrToDims_def dims_text_def)
next
  case (Cons d es)
  let ?p = "dims_parts pad ds"
  have ne: "?p \<noteq> []" using Cons by simp
  have "join_with (CHR '','') ?p \<noteq> []" unfolding Cons by (cases es) simp_all
  then have "2 < length (dims_text pad ds)" by (simp add: dims_text_def)
  moreover have "take (length (dims_text pad ds) - 2) (drop 1 (dims_text pad ds)) = join_with (CHR '','') ?p"
    by (simp add: dims_text_def)
  moreover have "\<forall>s \<in> set ?p. CHR '','' \<notin> set s" using dims_parts_no_char [OF pad] by (fastforce simp: is_digit_def)
  then have "Std_Text.fields (CHR '','') (join_with (CHR '','') ?p) = ?p" by (rule fields_join [OF ne])
  ultimately show ?thesis using map_outcome_parts [OF pad, of ds] by (simp add: convertStrToDims_def)
qed

section \<open>Variables\<close>

text \<open>
  ADIOS2 as documented: names of variables are unique in an \<open>IO\<close>, a definition under a new name adds the
  variable, the names of the types can be read back, and a \<open>Dims\<close> prints as a list in braces.
\<close>

definition adios_laws :: "('io, 'dt) adios \<Rightarrow> bool" where
  "adios_laws A \<longleftrightarrow>
     (\<forall>io. distinct (map va_name (ad_variables A io)))
     \<and> (\<forall>t n io. ad_inquire A t n io = find (\<lambda>v. va_type v = t \<and> va_name v = n) (ad_variables A io))
     \<and> (\<forall>v io. va_name v \<notin> va_name ` set (ad_variables A io) \<longrightarrow>
          (\<exists>io'. ad_define A v io = Returns io' \<and> set (ad_variables A io') = insert v (set (ad_variables A io))))
     \<and> (\<forall>t. ad_std A t \<longrightarrow> ad_type_of A (ad_type_name A t) = t \<and> CHR '';'' \<notin> set (ad_type_name A t))
     \<and> (\<exists>pad \<in> {[], '' ''}. \<forall>ds. ad_dims A ds = dims_text pad ds)"

definition var_ok :: "('io, 'dt) adios \<Rightarrow> 'dt adios_var \<Rightarrow> bool" where
  "var_ok A v \<longleftrightarrow> ad_std A (va_type v) \<and> CHR '';'' \<notin> set (va_name v)
     \<and> list_all dim_ok (va_shape v) \<and> list_all dim_ok (va_start v) \<and> list_all dim_ok (va_count v)"

lemma next_line_upto: "d \<notin> set s \<Longrightarrow> next_line d (s @ d # t) = (s, t)"
  by (simp add: next_line_def takeWhile_upto dropWhile_upto)

lemma next_line_last:
  assumes "d \<notin> set s"
  shows "next_line d s = (s, [])"
proof -
  have "\<forall>x \<in> set s. x \<noteq> d" using assms by auto
  then have "takeWhile (\<lambda>c. c \<noteq> d) s = s" "dropWhile (\<lambda>c. c \<noteq> d) s = []"
    by (simp_all add: takeWhile_eq_all_conv)
  then show ?thesis by (simp only: next_line_def drop_Nil)
qed

lemma parse_info:
  assumes A: "adios_laws A" and t: "ad_std A (va_type v)" and n: "CHR '';'' \<notin> set (va_name v)"
  shows "parseVariableInfo A (WriteVariableInfo A v) =
    (if list_all dim_ok (va_shape v) \<and> list_all dim_ok (va_start v) \<and> list_all dim_ok (va_count v)
     then Returns v else Throws ''stoi'')"
proof -
  from A obtain pad where pad: "pad \<in> {[], '' ''}" "\<And>ds. ad_dims A ds = dims_text pad ds"
    by (auto simp: adios_laws_def)
  have ty: "ad_type_of A (ad_type_name A (va_type v)) = va_type v" "CHR '';'' \<notin> set (ad_type_name A (va_type v))"
    using A t by (auto simp: adios_laws_def)
  have d: "CHR '';'' \<notin> set (dims_text pad ds)" "CHR 0x0A \<notin> set (dims_text pad ds)" for ds
    using dims_text_no_char [OF pad(1), of _ ds] by (fastforce simp: is_digit_def)+
  have "parseVariableInfo A (WriteVariableInfo A v) =
      bind_outcome (convertStrToDims (dims_text pad (va_shape v))) (\<lambda>shape.
        bind_outcome (convertStrToDims (dims_text pad (va_start v))) (\<lambda>start.
          bind_outcome (convertStrToDims (dims_text pad (va_count v))) (\<lambda>cnt.
            Returns \<lparr>va_name = va_name v, va_type = va_type v, va_shape = shape, va_start = start, va_count = cnt\<rparr>)))"
    by (simp add: parseVariableInfo_def WriteVariableInfo_def pad(2) n d ty next_line_upto next_line_last)
  then show ?thesis by (simp add: convert_dims_text [OF pad(1)])
qed

lemma info_not_tombstone: "WriteVariableInfo A v \<noteq> MEMTABLE_TOMBSTONE"
proof
  assume "WriteVariableInfo A v = MEMTABLE_TOMBSTONE"
  moreover have "CHR '';'' \<in> set (WriteVariableInfo A v)" by (simp add: WriteVariableInfo_def)
  moreover have "CHR '';'' \<notin> set MEMTABLE_TOMBSTONE" by code_simp
  ultimately show False by simp
qed

section \<open>Values\<close>

lemma value_text_join: "value_text shw vs = join_with (CHR '','') (map shw vs)"
  by (induction shw vs rule: value_text.induct) simp_all

text \<open>Values whose printed form is not empty, has no comma and can be read back.\<close>

definition printable :: "('a \<Rightarrow> string) \<Rightarrow> (string \<Rightarrow> 'a outcome) \<Rightarrow> 'a \<Rightarrow> bool" where
  "printable shw conv x \<longleftrightarrow> shw x \<noteq> [] \<and> CHR '','' \<notin> set (shw x) \<and> conv (shw x) = Returns x"

lemma split_values:
  assumes "\<forall>x \<in> set vs. printable shw conv x"
  shows "getlines (CHR '','') (value_text shw vs) = map shw vs"
proof -
  have "\<forall>s \<in> set (map shw vs). CHR '','' \<notin> set s" using assms by (auto simp: printable_def)
  moreover have "map shw vs \<noteq> [] \<longrightarrow> last (map shw vs) \<noteq> []" using assms by (auto simp: printable_def last_map)
  ultimately show ?thesis by (simp only: value_text_join getlines_join)
qed

lemma read_array_values:
  "\<forall>x \<in> set vs. printable shw conv x \<Longrightarrow> ss = us @ map shw vs \<Longrightarrow> length us = i \<Longrightarrow> length xs = i \<Longrightarrow>
    length vs \<le> length buf \<Longrightarrow>
    read_array conv ss i (length vs) (xs @ buf) = Returns (xs @ vs @ drop (length vs) buf)"
proof (induction vs arbitrary: us xs i buf)
  case (Cons v vs)
  obtain b bs where buf: "buf = b # bs" using Cons.prems(5) by (cases buf) auto
  have "read_array conv ss (Suc i) (length vs) ((xs @ [v]) @ bs) = Returns ((xs @ [v]) @ vs @ drop (length vs) bs)"
    by (rule Cons.IH [of "us @ [shw v]"]) (use Cons.prems in \<open>simp_all add: buf\<close>)
  moreover have "conv (ss ! i) = Returns v" "i < length ss"
    using Cons.prems(1-3) by (auto simp: nth_append printable_def)
  ultimately show ?case using Cons.prems(4) by (simp add: put_at_def buf list_update_append)
qed simp

lemma read_all_values:
  "\<forall>x \<in> set vs. printable shw conv x \<Longrightarrow> length xs = i \<Longrightarrow> length vs \<le> length buf \<Longrightarrow>
    read_all conv (map shw vs) i (xs @ buf) = Returns (xs @ vs @ drop (length vs) buf)"
proof (induction vs arbitrary: xs i buf)
  case (Cons v vs)
  obtain b bs where buf: "buf = b # bs" using Cons.prems(3) by (cases buf) auto
  have "read_all conv (map shw vs) (Suc i) ((xs @ [v]) @ bs) = Returns ((xs @ [v]) @ vs @ drop (length vs) bs)"
    by (rule Cons.IH) (use Cons.prems in \<open>simp_all add: buf\<close>)
  then show ?case using Cons.prems by (simp add: put_at_def buf list_update_append printable_def)
qed simp

lemma read_special_values:
  assumes "\<forall>x \<in> set vs. printable shw conv x" and "length vs \<le> length buf"
  shows "read_special conv (value_text shw vs) (length vs) buf = Returns (vs @ drop (length vs) buf)"
  using read_array_values [OF assms(1), of "map shw vs" "[]" 0 "[]" buf] assms(2)
  by (simp add: read_special_def commaSplit_def split_values [OF assms(1)])

lemma read_template_values:
  assumes v: "\<forall>x \<in> set vs. printable shw conv x" and ne: "vs \<noteq> []" and len: "length vs \<le> length buf"
  shows "read_template conv (value_text shw vs) buf = Returns (vs @ drop (length vs) buf)"
proof (cases "CHR '','' \<in> set (value_text shw vs)")
  case True
  then show ?thesis
    using read_all_values [OF v, of "[]" 0 buf] len by (simp add: read_template_def split_values [OF v])
next
  case False
  have "\<forall>s \<in> set (map shw vs). CHR '','' \<notin> set s" using v by (auto simp: printable_def)
  with False ne have "\<not> 1 < length vs" using join_with_delimiter [of "map shw vs" "CHR '',''"] by (simp add: value_text_join)
  with ne obtain x where x: "vs = [x]" by (cases vs) auto
  obtain b bs where "buf = b # bs" using len x by (cases buf) auto
  with v x False show ?thesis by (simp add: read_template_def put_at_def printable_def)
qed

lemma printable_char: "c \<noteq> CHR '','' \<Longrightarrow> printable (\<lambda>c. [c]) char_value c"
  by (simp add: printable_def char_value_def)

lemma printable_short: "printable (\<lambda>w. to_string_int (sint w)) short_value (w :: 16 word)"
proof -
  have b: "- (2 ^ 15) \<le> sint w" "sint w < 2 ^ 15" using sint_greater_eq [of w] sint_less [of w] by simp_all
  have "stoi (to_string_int (sint w)) = Returns (sint w)" using b by (intro stoi_to_string) simp_all
  moreover have "CHR '','' \<notin> set (to_string_int (sint w))"
    by (auto simp: to_string_int_def dec_no_char is_digit_def)
  moreover have "to_string_int (sint w) \<noteq> []" by (simp add: to_string_int_def)
  ultimately show ?thesis by (simp add: printable_def short_value_def)
qed

lemma printable_unsigned_short: "printable (\<lambda>w. to_string_int (uint w)) short_value (w :: 16 word)"
proof -
  have b: "0 \<le> uint w" "uint w < 2 ^ 16" using uint_lt2p [of w] by simp_all
  have "stoi (to_string_int (uint w)) = Returns (uint w)"
  proof (rule stoi_to_string)
    show "- (2 ^ 31) \<le> uint w" using b(1) by (rule order_trans [rotated]) simp
    show "uint w < 2 ^ 31" using b(2) by simp
  qed
  moreover have "CHR '','' \<notin> set (to_string_int (uint w))"
    by (auto simp: to_string_int_def dec_no_char is_digit_def)
  moreover have "to_string_int (uint w) \<noteq> []" by (simp add: to_string_int_def)
  ultimately show ?thesis by (simp add: printable_def short_value_def)
qed

section \<open>Properties\<close>

text \<open>
  C37. Values whose text is not empty and has no comma come back from the text in which the engine stores
  them, in the general template and in the specialisations; this holds of all characters but the comma
  and of all \<open>short\<close> and \<open>unsigned short\<close> values.
\<close>

theorem values_roundtrip:
  assumes "\<forall>x \<in> set vs. printable shw conv x" and "length vs \<le> length buf"
  shows "read_special conv (value_text shw vs) (length vs) buf = Returns (vs @ drop (length vs) buf)
    \<and> (vs \<noteq> [] \<longrightarrow> read_template conv (value_text shw vs) buf = Returns (vs @ drop (length vs) buf))
    \<and> (\<forall>c. printable (\<lambda>c. [c]) char_value c \<longleftrightarrow> c \<noteq> CHR '','')
    \<and> (\<forall>w. printable (\<lambda>w. to_string_int (sint w)) short_value w \<and> printable (\<lambda>w. to_string_int (uint w)) short_value w)"
  using read_special_values [OF assms] read_template_values [OF assms(1) _ assms(2)] printable_char printable_short
    printable_unsigned_short by (auto simp: printable_def)

theorem values_roundtrip_witness:
  "read_special short_value (value_text (\<lambda>w :: 16 word. to_string_int (sint w)) [- 3, 7]) 2 [0, 0, 1] = Returns [- 3, 7, 1]"
proof -
  have "\<forall>x \<in> set [- 3, 7 :: 16 word]. printable (\<lambda>w. to_string_int (sint w)) short_value x" using printable_short by blast
  from values_roundtrip [OF this, of "[0, 0, 1]"] show ?thesis by (simp add: numeral_2_eq_2)
qed

text \<open>
  A comma among the characters of a variable is lost: it and the values behind it come back as other
  characters.
\<close>

theorem comma_lost:
  "read_special char_value (value_text (\<lambda>c. [c]) [CHR '','']) 1 [CHR ''x''] = Returns [CHR 0x00]
    \<and> read_special char_value (value_text (\<lambda>c. [c]) [CHR '','', CHR ''a'']) 2 [CHR ''x'', CHR ''x''] = Returns [CHR 0x00, CHR 0x00]"
  by code_simp

lemma read_all_overrun:
  "\<forall>x \<in> set vs. printable shw conv x \<Longrightarrow> length xs = i \<Longrightarrow> length buf < length vs \<Longrightarrow>
    read_all conv (map shw vs) i (xs @ buf) = Undefined"
proof (induction vs arbitrary: xs i buf)
  case (Cons v vs)
  show ?case
  proof (cases buf)
    case Nil
    then show ?thesis using Cons.prems by (simp add: put_at_def printable_def)
  next
    case (Cons b bs)
    have "read_all conv (map shw vs) (Suc i) ((xs @ [v]) @ bs) = Undefined"
      by (rule Cons.IH) (use Cons.prems \<open>buf = b # bs\<close> in simp_all)
    then show ?thesis using Cons.prems \<open>buf = b # bs\<close> by (simp add: put_at_def list_update_append printable_def)
  qed
qed simp

text \<open>
  The general template stores all values of a variable, whatever the selection: with a buffer for
  fewer values it writes past the end.
\<close>

theorem template_overruns:
  assumes "\<forall>x \<in> set vs. printable shw conv x" and "length buf < length vs"
  shows "read_template conv (value_text shw vs) buf = Undefined"
proof (cases "CHR '','' \<in> set (value_text shw vs)")
  case True
  then show ?thesis
    using read_all_overrun [OF assms(1), of "[]" 0 buf] assms(2) by (simp add: read_template_def split_values [OF assms(1)])
next
  case False
  have "\<forall>s \<in> set (map shw vs). CHR '','' \<notin> set s" using assms(1) by (auto simp: printable_def)
  moreover have "vs \<noteq> []" using assms(2) by auto
  ultimately have "\<not> 1 < length vs" using False join_with_delimiter [of "map shw vs" "CHR '',''"] by (simp add: value_text_join)
  with assms obtain x where "vs = [x]" "buf = []" by (cases vs) auto
  with assms(1) False show ?thesis by (simp add: read_template_def put_at_def printable_def)
qed

theorem template_overruns_witness:
  "read_template short_value (value_text (\<lambda>w :: 16 word. to_string_int (sint w)) [1, 2, 3]) [0] = Undefined"
proof -
  have "\<forall>x \<in> set [1, 2, 3 :: 16 word]. printable (\<lambda>w. to_string_int (sint w)) short_value x" using printable_short by blast
  from template_overruns [OF this, of "[0]"] show ?thesis by simp
qed

text \<open>An \<open>IO\<close> as the list of its definitions, with two types; it satisfies the laws.\<close>

end
