(* ===== verification/Plugin_Laws.thy ===== *)
theory Plugin_Laws
  imports Plugin_Text Durable_Store
begin

text \<open>
  What the ADIOS2 engine does over a store that survives its close: a reader that opens what a writer
  has closed finds the variables and the values of the writer. The lemmas are proved under the contract
  \<open>durable_store\<close>; the property is that of the native store.
\<close>

section \<open>The variables of a writer\<close>

context durable_store
begin

text \<open>The metadata of the variables of an \<open>IO\<close>, in the order of their listing.\<close>

definition meta_entry :: "('io, 'dt) adios \<Rightarrow> 'dt adios_var \<Rightarrow> key \<times> val" where
  "meta_entry A v = (meta_prefix @ va_name v, WriteVariableInfo A v)"

lemma write_vars_all:
  "\<forall>v \<in> set vs. ad_std A (va_type v) \<longrightarrow> ad_inquire A (va_type v) (va_name v) io = Some v \<Longrightarrow> holds h p \<Longrightarrow>
    fits (h @ map (meta_entry A) (filter (\<lambda>v. ad_std A (va_type v)) vs)) \<Longrightarrow>
    \<exists>p'. write_vars A ops cfg sync io vs p = Returns p'
      \<and> holds (h @ map (meta_entry A) (filter (\<lambda>v. ad_std A (va_type v)) vs)) p'"
proof (induction vs arbitrary: h p)
  case (Cons v vs)
  show ?case
  proof (cases "ad_std A (va_type v)")
    case True
    let ?e = "meta_entry A v"
    have fit: "fits ((h @ [?e]) @ map (meta_entry A) (filter (\<lambda>v. ad_std A (va_type v)) vs))"
      using Cons.prems(3) True by simp
    from manager_metaPut [OF Cons.prems(2), of "va_name v" "WriteVariableInfo A v" cfg sync] fits_prefix [OF fit]
    obtain p1 where p1: "mg_metaPut ops cfg (va_name v) (WriteVariableInfo A v) sync p = Returns (True, p1)"
      "holds (h @ [?e]) p1" by (auto simp: meta_entry_def)
    from Cons.IH [OF _ p1(2) fit] Cons.prems(1) True p1(1) show ?thesis by simp
  qed (use Cons in simp)
qed simp

end

section \<open>A session of a writer and of a reader\<close>

text \<open>
  An application that opens a file for writing, puts values under names, ends the step and closes; what
  stays behind is the disk. Another one opens it for reading.
\<close>

fun write_values ::
  "'s store_ops \<Rightarrow> lsmio_config \<Rightarrow> ('a \<Rightarrow> string) \<Rightarrow> launch \<Rightarrow> (string \<times> 'a list) list \<Rightarrow> ('s, 'io) plugin
    \<Rightarrow> ('s, 'io) plugin outcome" where
  "write_values ops cfg shw mode [] e = Returns e"
| "write_values ops cfg shw mode ((name, vs) # xs) e =
     bind_outcome (WriteVariable ops cfg shw name vs mode e) (write_values ops cfg shw mode xs)"

definition writer_session ::
  "('io, 'dt) adios \<Rightarrow> (storage_type \<Rightarrow> string \<Rightarrow> bool \<Rightarrow> 's outcome) \<Rightarrow> 's store_ops \<Rightarrow> lsmio_config
    \<Rightarrow> mpi_env \<Rightarrow> ('a \<Rightarrow> string) \<Rightarrow> launch \<Rightarrow> (string \<times> 'a list) list \<Rightarrow> 's manager \<Rightarrow> 'io
    \<Rightarrow> (('s, 'io) plugin \<times> 's option) outcome" where
  "writer_session A make_store ops cfg env shw mode xs agg io =
     bind_outcome (plugin_init A make_store ops cfg env Write agg io) (\<lambda>(e, cfg').
       bind_outcome (write_values ops cfg' shw mode xs e) (\<lambda>e1.
         bind_outcome (EndStep A ops cfg' e1) (\<lambda>e2. DoClose A ops cfg' e2)))"

definition session_log :: "('io, 'dt) adios \<Rightarrow> ('a \<Rightarrow> string) \<Rightarrow> (string \<times> 'a list) list \<Rightarrow> 'io \<Rightarrow> (key \<times> val) list" where
  "session_log A shw xs io =
     (let metas = map (\<lambda>v. (meta_prefix @ va_name v, WriteVariableInfo A v))
                    (filter (\<lambda>v. ad_std A (va_type v)) (ad_variables A io))
      in map (\<lambda>(name, vs). (name, value_text shw vs)) xs @ metas @ metas)"

context durable_store
begin

definition plugin_at :: "(key \<times> val) list \<Rightarrow> 'io \<Rightarrow> ('l \<times> 'f, 'io) plugin \<Rightarrow> bool" where
  "plugin_at h io e \<longleftrightarrow> holds h (pl_peers e) \<and> pl_io e = io"

lemma write_values_all:
  "plugin_at h io e \<Longrightarrow> fits (h @ map (\<lambda>(name, vs). (name, value_text shw vs)) xs) \<Longrightarrow>
    \<exists>e'. write_values ops cfg shw mode xs e = Returns e' \<and> pl_mode e' = pl_mode e
      \<and> plugin_at (h @ map (\<lambda>(name, vs). (name, value_text shw vs)) xs) io e'"
proof (induction xs arbitrary: h e)
  case (Cons x xs)
  obtain name vs where x: "x = (name, vs)" by (cases x)
  let ?e = "(name, value_text shw vs)"
  have fit: "fits ((h @ [?e]) @ map (\<lambda>(name, vs). (name, value_text shw vs)) xs)" using Cons.prems(2) by (simp add: x)
  from manager_put [OF _ fits_prefix [OF fit], of "pl_peers e" cfg "mode = Sync"] Cons.prems(1)
  obtain p where p: "mg_put ops cfg name (value_text shw vs) (mode = Sync) (pl_peers e) = Returns (True, p)"
    "holds (h @ [?e]) p" by (auto simp: plugin_at_def)
  have "plugin_at (h @ [?e]) io (e\<lparr>pl_peers := p\<rparr>)" using Cons.prems(1) p(2) by (simp add: plugin_at_def)
  from Cons.IH [OF this fit] p(1) show ?case by (simp add: x WriteVariable_def)
qed simp

lemma PerformPuts_all:
  assumes e: "plugin_at h io e" and A: "adios_laws A"
    and fit: "fits (h @ map (meta_entry A) (filter (\<lambda>v. ad_std A (va_type v)) (ad_variables A io)))"
  shows "\<exists>e'. PerformPuts A ops cfg e = Returns e' \<and> pl_mode e' = pl_mode e
    \<and> plugin_at (h @ map (meta_entry A) (filter (\<lambda>v. ad_std A (va_type v)) (ad_variables A io))) io e'"
proof -
  have "ad_inquire A (va_type v) (va_name v) io = Some v" if v: "v \<in> set (ad_variables A io)" for v
  proof -
    have "find (\<lambda>w. va_type w = va_type v \<and> va_name w = va_name v) vs = Some v"
      if "v \<in> set vs" "distinct (map va_name vs)" for vs :: "'b adios_var list"
      using that by (induction vs) force+
    with A v show ?thesis by (simp add: adios_laws_def)
  qed
  then have inq: "\<forall>v \<in> set (ad_variables A io). ad_std A (va_type v) \<longrightarrow> ad_inquire A (va_type v) (va_name v) io = Some v"
    by blast
  have "holds h (pl_peers e)" "pl_io e = io" using e by (simp_all add: plugin_at_def)
  with write_vars_all [OF inq this(1) fit, of cfg False] show ?thesis
    by (auto simp: PerformPuts_def WriteVarsFromIO_def plugin_at_def)
qed

text \<open>The whole session of a writer, and what it leaves behind.\<close>

lemma writer_session_closed:
  assumes A: "adios_laws A" and env: "\<not> me_mpi env" "me_adios env = None"
    and par: "ad_parameter A io ''DirName'' False = Returns dir" "ad_parameter A io ''FileName'' True = Returns file" "file \<noteq> []"
    and mk: "make_store (cfg_storageType cfg) (if dir = [] then file else dir @ ''/'' @ file) True = create True f"
    and disk: "disk f" and fit: "fits (session_log A shw xs io)"
  shows "\<exists>e s. writer_session A make_store ops cfg env shw mode xs agg io = Returns (e, Some s)
    \<and> closed (session_log A shw xs io) s"
proof -
  let ?xs = "map (\<lambda>(name, vs). (name, value_text shw vs)) xs"
    and ?ms = "map (meta_entry A) (filter (\<lambda>v. ad_std A (va_type v)) (ad_variables A io))"
  from fresh [OF disk] obtain s0 where s0: "create True f = Returns s0" "at [] s0" by blast
  with mk have mk0: "make_store (cfg_storageType cfg) (if dir = [] then file else dir @ ''/'' @ file) True = Returns s0" by simp
  from manager_init_alone [OF env, of make_store, OF mk0] obtain m where
    m: "manager_init make_store cfg env file dir True = Returns m" "alone m" "mg_store m = Some s0" by blast
  let ?e0 = "\<lparr>pl_mode = Write, pl_io = io, pl_currentStep = 0, pl_peers = (m, agg)\<rparr>"
  have log: "session_log A shw xs io = (?xs @ ?ms) @ ?ms"
    by (simp add: session_log_def Let_def meta_entry_def [abs_def])
  have init: "plugin_init A make_store ops cfg env Write agg io = Returns (?e0, cfg)"
    using par env m(1) by (simp add: plugin_init_def)
  have "plugin_at [] io ?e0" using s0(2) m(2,3) by (simp add: plugin_at_def holds_def)
  from write_values_all [OF this, of shw xs cfg mode] fits_prefix [of "?xs" "?ms @ ?ms"] fit obtain e1 where
    e1: "write_values ops cfg shw mode xs ?e0 = Returns e1" "pl_mode e1 = Write" "plugin_at ?xs io e1"
    by (auto simp: log)
  from PerformPuts_all [OF e1(3) A, of cfg] fits_prefix [of "?xs @ ?ms" ?ms] fit obtain e2 where
    e2: "PerformPuts A ops cfg e1 = Returns e2" "pl_mode e2 = Write" "plugin_at (?xs @ ?ms) io e2"
    using e1(2) by (auto simp: log)
  let ?e2 = "e2\<lparr>pl_currentStep := pl_currentStep e2 + 1\<rparr>"
  have "plugin_at (?xs @ ?ms) io ?e2" using e2(3) by (simp add: plugin_at_def)
  from PerformPuts_all [OF this A, of cfg] fit obtain e3 where
    e3: "PerformPuts A ops cfg ?e2 = Returns e3" "plugin_at ((?xs @ ?ms) @ ?ms) io e3"
    using e2(2) by (auto simp: log)
  have "holds ((?xs @ ?ms) @ ?ms) (pl_peers e3)" using e3(2) by (simp add: plugin_at_def)
  from manager_closes [OF this] fit obtain m' s where
    "manager_close ops (fst (pl_peers e3)) = Returns (m', Some s)" "closed ((?xs @ ?ms) @ ?ms) s" by (auto simp: log)
  moreover have "EndStep A ops cfg e1 = Returns ?e2" using e1(2) e2(1) by (simp add: EndStep_def)
  ultimately show ?thesis
    using init e1(1) e3(1) unfolding log by (simp add: writer_session_def DoClose_def)
qed

end

section \<open>What a reader finds\<close>

lemma declare_all:
  assumes A: "adios_laws A"
  shows "\<forall>v \<in> set vs. var_ok A v \<Longrightarrow> distinct (map va_name vs) \<Longrightarrow>
    va_name ` set vs \<inter> va_name ` set (ad_variables A io) = {} \<Longrightarrow>
    \<exists>io'. declare_variables A (map (\<lambda>v. (meta_prefix @ va_name v, WriteVariableInfo A v)) vs) io = Returns io'
      \<and> set (ad_variables A io') = set (ad_variables A io) \<union> set vs"
proof (induction vs arbitrary: io)
  case (Cons v vs)
  have v: "ad_std A (va_type v)" "parseVariableInfo A (WriteVariableInfo A v) = Returns v"
    using Cons.prems(1) parse_info [OF A] by (auto simp: var_ok_def)
  have new: "va_name v \<notin> va_name ` set (ad_variables A io)" using Cons.prems(3) by auto
  then have "find (\<lambda>w. va_type w = va_type v \<and> va_name w = va_name v) (ad_variables A io) = None"
    by (simp add: find_None_iff) (metis imageI)
  then have "addVariable A v io = ad_define A v io" using A by (simp add: addVariable_def adios_laws_def)
  moreover from A new obtain io1 where io1: "ad_define A v io = Returns io1"
    "set (ad_variables A io1) = insert v (set (ad_variables A io))"
    unfolding adios_laws_def by blast
  moreover have "va_name ` set vs \<inter> va_name ` set (ad_variables A io1) = {}" using Cons.prems(2,3) io1(2) by auto
  with Cons.IH [of io1] Cons.prems(1,2) obtain io' where
    "declare_variables A (map (\<lambda>v. (meta_prefix @ va_name v, WriteVariableInfo A v)) vs) io1 = Returns io'"
    "set (ad_variables A io') = set (ad_variables A io1) \<union> set vs" by auto
  ultimately show ?case using v io1(2) by simp
qed simp

text \<open>The names under which values are put, and the variables that are declared.\<close>

definition session_ok :: "('io, 'dt) adios \<Rightarrow> ('a \<Rightarrow> string) \<Rightarrow> (string \<times> 'a list) list \<Rightarrow> 'io \<Rightarrow> bool" where
  "session_ok A shw xs io \<longleftrightarrow> distinct (map fst xs)
     \<and> (\<forall>(name, vs) \<in> set xs. name \<noteq> [] \<and> \<not> prefix meta_prefix name \<and> value_text shw vs \<noteq> MEMTABLE_TOMBSTONE)
     \<and> (\<forall>v \<in> set (ad_variables A io). ad_std A (va_type v) \<longrightarrow> var_ok A v)"

definition std_vars :: "('io, 'dt) adios \<Rightarrow> 'io \<Rightarrow> 'dt adios_var list" where
  "std_vars A io = filter (\<lambda>v. ad_std A (va_type v)) (ad_variables A io)"

lemma entries_map_distinct: "distinct (map fst es) \<Longrightarrow> entries_map es k = Some v \<longleftrightarrow> (k, v) \<in> set es"
proof -
  assume "distinct (map fst es)"
  then have "distinct (map fst (rev es))" by (simp only: rev_map [symmetric] distinct_rev)
  then show ?thesis by (simp add: entries_map_def)
qed

lemma session_lookup:
  assumes ok: "session_ok A shw xs io" and x: "(name, vs) \<in> set xs"
  shows "entries_map (session_log A shw xs io) name = Some (value_text shw vs)"
proof -
  let ?xs = "map (\<lambda>(name, vs). (name, value_text shw vs)) xs"
    and ?ms = "map (\<lambda>v. (meta_prefix @ va_name v, WriteVariableInfo A v)) (std_vars A io)"
  have "distinct (map fst ?xs)" using ok by (simp add: session_ok_def comp_def split_beta)
  moreover have "(name, value_text shw vs) \<in> set ?xs" using x by force
  ultimately have "entries_map ?xs name = Some (value_text shw vs)" by (simp only: entries_map_distinct)
  moreover have "name \<notin> fst ` set ?ms" using ok x by (auto simp: session_ok_def)
  then have "entries_map ?ms name = None" by (simp add: entries_map_def map_of_eq_None_iff)
  ultimately show ?thesis
    by (simp add: session_log_def std_vars_def Let_def entries_map_append map_add_def)
qed

lemma list_as_image: "\<forall>x \<in> set xs. \<exists>a \<in> B. x = g a \<Longrightarrow> \<exists>ys. xs = map g ys \<and> set ys \<subseteq> B"
proof (induction xs)
  case (Cons x xs)
  then obtain a ys where "a \<in> B" "x = g a" "xs = map g ys" "set ys \<subseteq> B" by auto
  then show ?case by (intro exI [of _ "a # ys"]) simp
qed simp

lemma session_metas:
  assumes A: "adios_laws A" and ok: "session_ok A shw xs io" and "omap_ok es"
    and es: "map_of es = live (entries_map (session_log A shw xs io)) |` with_prefix meta_prefix"
  obtains vs where "es = map (\<lambda>v. (meta_prefix @ va_name v, WriteVariableInfo A v)) vs"
    and "set vs = set (std_vars A io)" and "distinct (map va_name vs)"
proof -
  let ?g = "\<lambda>v. (meta_prefix @ va_name v, WriteVariableInfo A v)"
  let ?xs = "map (\<lambda>(name, vs). (name, value_text shw vs)) xs" and ?ms = "map ?g (std_vars A io)"
  have d: "distinct (map va_name (std_vars A io))"
    using A by (auto simp: adios_laws_def std_vars_def intro: distinct_map_filter)
  then have dm: "distinct (map fst ?ms)" by (simp add: comp_def distinct_map inj_on_def)
  have des: "distinct (map fst es)" using assms(3) by (rule omap_ok_distinct)
  have m: "map_of es k = Some x \<longleftrightarrow> (k, x) \<in> set ?ms" for k x
  proof (cases "prefix meta_prefix k")
    case True
    then have "k \<notin> fst ` set ?xs" using ok by (auto simp: session_ok_def)
    then have "entries_map ?xs k = None" by (simp add: entries_map_def map_of_eq_None_iff)
    then have "entries_map (session_log A shw xs io) k = entries_map ?ms k"
      by (simp add: session_log_def std_vars_def Let_def entries_map_append map_add_def split: option.split)
    moreover have "(k, MEMTABLE_TOMBSTONE) \<notin> set ?ms" using info_not_tombstone [of A] by (auto dest: sym)
    then have "entries_map ?ms k \<noteq> Some MEMTABLE_TOMBSTONE" by (simp only: entries_map_distinct [OF dm] not_False_eq_True)
    ultimately show ?thesis
      using True entries_map_distinct [OF dm, of k x] by (simp add: es live_def restrict_map_def with_prefix_def)
  next
    case False
    then have "(k, x) \<notin> set ?ms" by auto
    with False show ?thesis by (simp add: es restrict_map_def with_prefix_def)
  qed
  have "set es = set ?ms"
  proof (rule set_eqI)
    fix e :: "key \<times> val"
    show "e \<in> set es \<longleftrightarrow> e \<in> set ?ms"
      using m [of "fst e" "snd e"] by (simp only: map_of_eq_Some_iff [OF des] prod.collapse)
  qed
  then have set_es: "set es = ?g ` set (std_vars A io)" by simp
  then have "\<forall>e \<in> set es. \<exists>v \<in> set (std_vars A io). e = ?g v" by auto
  then obtain vs where vs: "es = map ?g vs" "set vs \<subseteq> set (std_vars A io)"
     using list_as_image [of es "set (std_vars A io)" ?g] by blast
  moreover have "inj_on ?g (set (std_vars A io))" using d by (auto simp: inj_on_def distinct_map)
  then have "set vs = set (std_vars A io)" using vs set_es by (auto simp: inj_on_image_eq_iff)
  moreover have "distinct (map va_name vs)" using des by (auto simp: vs(1) comp_def distinct_map inj_on_def)
  ultimately show ?thesis using that by blast
qed

context durable_store
begin

lemma reader_session:
  assumes A: "adios_laws A" and env: "\<not> me_mpi env" "me_adios env = None"
    and par: "ad_parameter A io0 ''DirName'' False = Returns dir" "ad_parameter A io0 ''FileName'' True = Returns file" "file \<noteq> []"
    and mk: "make_store (cfg_storageType cfg) (if dir = [] then file else dir @ ''/'' @ file) False = Returns s"
    and s: "reopened (session_log A shw xs io) s" and ok: "session_ok A shw xs io" and io0: "ad_variables A io0 = []"
  shows "\<exists>e. plugin_init A make_store ops cfg env Read agg io0 = Returns (e, cfg)
    \<and> set (ad_variables A (pl_io e)) = set (std_vars A io)
    \<and> (\<forall>(name, vs) \<in> set xs. \<forall>conv buf. (\<forall>x \<in> set vs. printable shw conv x) \<and> length vs \<le> length buf \<longrightarrow>
        (\<exists>e'. ReadVariable ops cfg (\<lambda>vals. read_special conv vals (length vs)) name buf e
          = Returns (vs @ drop (length vs) buf, e')))"
proof -
  let ?h = "session_log A shw xs io" and ?g = "\<lambda>v. (meta_prefix @ va_name v, WriteVariableInfo A v)"
  from manager_init_alone [OF env, of make_store, OF mk] obtain m where
    m: "manager_init make_store cfg env file dir False = Returns m" "alone m" "mg_store m = Some s" by blast
  have ne: "meta_prefix \<noteq> []" by (simp add: meta_prefix_def)
  from scan [OF s ne] obtain b es where es: "op_getPrefix ops meta_prefix s = Returns (b, es)" "omap_ok es"
    "map_of es = live (entries_map ?h) |` with_prefix meta_prefix" by blast
  obtain vs where vs: "es = map ?g vs" "set vs = set (std_vars A io)" "distinct (map va_name vs)"
    by (rule session_metas [OF A ok es(2,3)])
  have "\<forall>v \<in> set vs. var_ok A v" using ok by (auto simp: vs(2) session_ok_def std_vars_def)
  from declare_all [OF A this vs(3), of io0] obtain io1 where
    io1: "declare_variables A es io0 = Returns io1" "set (ad_variables A io1) = set (std_vars A io)"
    by (auto simp: io0 vs(1,2))
  let ?e = "\<lparr>pl_mode = Read, pl_io = io1, pl_currentStep = 0, pl_peers = (count_read (length es) m, agg)\<rparr>"
  have "isOpenLocal m" using m(2) by (simp add: alone_def)
  with par env m es(1) io1(1) have init: "plugin_init A make_store ops cfg env Read agg io0 = Returns (?e, cfg)"
    by (simp add: plugin_init_def mg_metaGetAll_def store_metaGetAll_def)
  have found: "finds ?h (pl_peers ?e)" using s m(2,3) by (simp add: finds_def)
  have "\<exists>e'. ReadVariable ops cfg (\<lambda>vals. read_special conv vals (length ws)) name buf ?e
      = Returns (ws @ drop (length ws) buf, e')"
    if x: "(name, ws) \<in> set xs" and w: "\<forall>x \<in> set ws. printable shw conv x" "length ws \<le> length buf" for name ws conv buf
  proof -
    have "name \<noteq> []" "value_text shw ws \<noteq> MEMTABLE_TOMBSTONE" using ok x by (auto simp: session_ok_def)
    from manager_finds [OF found this(1) session_lookup [OF ok x] this(2), of cfg "[]"] obtain p where
      "mg_get ops cfg name [] (pl_peers ?e) = Returns ((True, value_text shw ws), p)" by blast
    with read_special_values [OF w] show ?thesis by (simp add: ReadVariable_def)
  qed
  with init io1(2) show ?thesis by auto
qed

end

section \<open>Properties\<close>

text \<open>An \<open>IO\<close> as the list of its definitions, with two types; it satisfies the laws.\<close>

definition list_vars :: "bool adios_var list \<Rightarrow> bool adios_var list" where
  "list_vars io = foldl (\<lambda>vs v. if va_name v \<in> va_name ` set vs then vs else vs @ [v]) [] io"

definition list_adios :: "(bool adios_var list, bool) adios" where
  "list_adios = \<lparr>ad_parameter = (\<lambda>io n mandatory. Returns (if n = ''FileName'' then ''out.bp'' else [])),
     ad_option = (\<lambda>io n. []), ad_variables = list_vars,
     ad_inquire = (\<lambda>t n io. find (\<lambda>v. va_type v = t \<and> va_name v = n) (list_vars io)),
     ad_define = (\<lambda>v io. Returns (io @ [v])),
     ad_type_name = (\<lambda>t. if t then ''int16_t'' else ''char''), ad_type_of = (\<lambda>s. s = ''int16_t''),
     ad_std = (\<lambda>t. True), ad_dims = dims_text '' ''\<rparr>"

lemma list_vars_distinct: "distinct (map va_name (list_vars io))"
proof -
  have "distinct (map va_name vs) \<Longrightarrow>
      distinct (map va_name (foldl (\<lambda>vs v. if va_name v \<in> va_name ` set vs then vs else vs @ [v]) vs io))" for vs
    by (induction io arbitrary: vs) auto
  then show ?thesis by (simp add: list_vars_def)
qed

lemma list_adios_laws: "adios_laws list_adios"
  unfolding adios_laws_def list_adios_def using list_vars_distinct
  by (auto simp: list_vars_def)


definition sample_io :: "bool adios_var list" where
  "sample_io = [\<lparr>va_name = ''T'', va_type = True, va_shape = [4, 2], va_start = [0, 0], va_count = [4, 2]\<rparr>]"

lemma sample_session: "session_ok list_adios (\<lambda>w :: 16 word. to_string_int (sint w)) [(''T'', [5, - 1])] sample_io"
proof -
  have "value_text (\<lambda>w :: 16 word. to_string_int (sint w)) [5, - 1] \<noteq> MEMTABLE_TOMBSTONE" "\<not> prefix meta_prefix ''T''"
    "ad_variables list_adios sample_io = sample_io" by code_simp+
  then show ?thesis by (simp add: session_ok_def var_ok_def sample_io_def dim_ok_def)
qed


end
