(* ===== verification/Transport.thy ===== *)
theory Transport
  imports Manager_Laws Store_Ldb
begin

text \<open>
  The transport below the commands of a rank without a store of its own: \<open>sendCommand\<close> and
  \<open>recvCommand\<close> of \<open>lib/manager/client/client_mpi.cpp\<close> on the message queues of the serving rank, and
  a group of two ranks, as the aggregation \<open>Split\<close> makes them, as a step relation that interleaves the
  client with the loop of the server. Its runs end, and give the client the replies that it would get
  if every command took effect at once, which is how \<open>Manager\<close> models a command.
\<close>

section \<open>Messages\<close>

text \<open>
  \<open>MPI_Send\<close> puts the message behind those of the same sender; \<open>MPI_Recv\<close> takes the first one that the
  server has sent to the rank.
\<close>

definition sendCommand :: "nat \<Rightarrow> string \<Rightarrow> string \<Rightarrow> string \<Rightarrow> 's server \<Rightarrow> 's server" where
  "sendCommand r cmd k v sv =
     sv\<lparr>sv_inbox := (sv_inbox sv)[r := sv_inbox sv ! r @ [serializeCmd [] cmd k v]]\<rparr>"

fun take_message :: "nat \<Rightarrow> (nat \<times> string) list \<Rightarrow> (string \<times> (nat \<times> string) list) option" where
  "take_message r [] = None"
| "take_message r ((q, b) # ms) =
     (if q = r then Some (b, ms) else map_option (\<lambda>(b', ms'). (b', (q, b) # ms')) (take_message r ms))"

definition recvCommand :: "nat \<Rightarrow> 's server \<Rightarrow> ((string \<times> string \<times> string) \<times> 's server) outcome" where
  "recvCommand r sv = (case take_message r (sv_outbox sv) of
       None \<Rightarrow> Blocks
     | Some (buf, ms) \<Rightarrow> bind_outcome (deSerializeCmd buf) (\<lambda>x. Returns (x, sv\<lparr>sv_outbox := ms\<rparr>)))"

section \<open>A group of two ranks\<close>

text \<open>
  The client of rank 1 sends the commands of its program in order, waits for the reply of those that
  have one, and ends with \<open>stopCollectiveIOClient\<close>.
\<close>

type_synonym command = "string \<times> string \<times> string"

record 's group =
  gr_server :: "'s server"
  gr_todo :: "command list"
  gr_waiting :: bool
  gr_stopped :: bool
  gr_replies :: "command list"

definition group_new :: "command list \<Rightarrow> 's \<Rightarrow> 's group" where
  "group_new cs s = \<lparr>gr_server = server_new 0 2 [[], []] s, gr_todo = cs, gr_waiting = False,
     gr_stopped = False, gr_replies = []\<rparr>"

definition stopCollectiveIOClient :: "'s group \<Rightarrow> 's group" where
  "stopCollectiveIOClient g =
     g\<lparr>gr_server := sendCommand 1 EOL_COMMAND KV_DUMMY [] (gr_server g), gr_stopped := True\<rparr>"

inductive gr_step :: "'s callback \<Rightarrow> 's group \<Rightarrow> 's group \<Rightarrow> bool" for func where
  g_send: "gr_todo g = (cmd, k, v) # cs \<Longrightarrow> \<not> gr_waiting g \<Longrightarrow>
    gr_step func g (g\<lparr>gr_server := sendCommand 1 cmd k v (gr_server g), gr_todo := cs,
      gr_waiting := (reply_command cmd \<noteq> None)\<rparr>)"
| g_recv: "gr_waiting g \<Longrightarrow> recvCommand 1 (gr_server g) = Returns (x, sv) \<Longrightarrow>
    gr_step func g (g\<lparr>gr_server := sv, gr_waiting := False, gr_replies := gr_replies g @ [x]\<rparr>)"
| g_stop: "gr_todo g = [] \<Longrightarrow> \<not> gr_waiting g \<Longrightarrow> \<not> gr_stopped g \<Longrightarrow> gr_step func g (stopCollectiveIOClient g)"
| g_serve: "server_turn func (gr_server g) = Returns (Some sv) \<Longrightarrow> gr_step func g (g\<lparr>gr_server := sv\<rparr>)"

section \<open>What the runs refine\<close>

text \<open>The commands of a program, each taking effect at once.\<close>

fun do_calls :: "'s callback \<Rightarrow> nat \<Rightarrow> command list \<Rightarrow> 's \<Rightarrow> (command list \<times> 's) outcome" where
  "do_calls func r [] s = Returns ([], s)"
| "do_calls func r ((cmd, k, v) # cs) s =
     bind_outcome (func r cmd k v s) (\<lambda>(ret, s').
       bind_outcome (do_calls func r cs s') (\<lambda>(rs, s'').
         Returns ((case reply_command cmd of None \<Rightarrow> rs | Some c \<Rightarrow> (c, k, ret) # rs), s'')))"

fun manager_calls ::
  "'s store_ops \<Rightarrow> lsmio_config \<Rightarrow> nat \<Rightarrow> command list \<Rightarrow> 's manager \<Rightarrow> (command list \<times> 's manager) outcome" where
  "manager_calls ops cfg r [] agg = Returns ([], agg)"
| "manager_calls ops cfg r ((cmd, k, v) # cs) agg = (case reply_command cmd of
       None \<Rightarrow> bind_outcome (send_command ops cfg r cmd k v agg) (manager_calls ops cfg r cs)
     | Some c \<Rightarrow> bind_outcome (rpc ops cfg r cmd k v agg) (\<lambda>(x, agg').
         bind_outcome (manager_calls ops cfg r cs agg') (\<lambda>(xs, agg''). Returns (x # xs, agg''))))"

definition call_ok :: "command \<Rightarrow> bool" where
  "call_ok c \<longleftrightarrow> plain (fst c) \<and> plain (fst (snd c)) \<and> fst c \<noteq> EOL_COMMAND"

lemma plain_reply: "reply_command cmd = Some c \<Longrightarrow> plain c"
  by (auto simp: reply_command_def split: if_splits)

lemma bind_outcome_Returns [simp]: "bind_outcome x Returns = x"
  by (cases x) auto

lemma manager_calls_do:
  "\<forall>c \<in> set cs. call_ok c \<Longrightarrow> manager_calls ops cfg r cs agg = do_calls (callbackForCollectiveIO ops cfg) r cs agg"
proof (induction cs arbitrary: agg)
  case (Cons x cs)
  obtain cmd k v where x: "x = (cmd, k, v)" by (cases x)
  have p: "plain cmd" "plain k" using Cons.prems by (simp_all add: x call_ok_def)
  have IH: "manager_calls ops cfg r cs s = do_calls (callbackForCollectiveIO ops cfg) r cs s" for s
    using Cons by simp
  show ?case
  proof (cases "reply_command cmd")
    case None
    then show ?thesis using IH
      by (cases "callbackForCollectiveIO ops cfg r cmd k v agg")
        (auto simp: x send_command_plain [OF p])
  next
    case (Some c)
    then show ?thesis using IH
      by (cases "callbackForCollectiveIO ops cfg r cmd k v agg")
        (auto simp: x rpc_plain [OF p Some plain_reply [OF Some]] split: prod.split)
  qed
qed simp

lemma do_calls_snoc:
  "do_calls func r (cs @ [(cmd, k, v)]) s =
    bind_outcome (do_calls func r cs s) (\<lambda>(rs, s').
      bind_outcome (func r cmd k v s') (\<lambda>(ret, s'').
        Returns (rs @ (case reply_command cmd of None \<Rightarrow> [] | Some c \<Rightarrow> [(c, k, ret)]), s'')))"
proof (induction cs arbitrary: s)
  case Nil
  show ?case by (cases "func r cmd k v s") (auto split: option.split)
next
  case (Cons x cs)
  obtain cmd' k' v' where x: "x = (cmd', k', v')" by (cases x)
  show ?case
  proof (cases "func r cmd' k' v' s")
    case (Returns y)
    obtain ret s' where y: "y = (ret, s')" by (cases y)
    show ?thesis
    proof (cases "do_calls func r cs s'")
      case (Returns z)
      then show ?thesis
        using \<open>func r cmd' k' v' s = Returns y\<close> Cons.IH [of s']
        by (cases z; cases "func r cmd k v (snd z)") (auto simp: x y split: option.split)
    qed (use \<open>func r cmd' k' v' s = Returns y\<close> Cons.IH [of s'] in \<open>simp_all add: x y\<close>)
  qed (simp_all add: x)
qed

section \<open>The invariant of a run\<close>

definition request :: "command \<Rightarrow> string" where
  "request c = (case c of (cmd, k, v) \<Rightarrow> serializeCmd [] cmd k v)"

definition waits :: "command \<Rightarrow> bool" where
  "waits c \<longleftrightarrow> reply_command (fst c) \<noteq> None"

text \<open>
  \<open>ds\<close> are the commands the server has processed, \<open>qs\<close> those in its queue, \<open>rs\<close> the replies on their way;
  the client waits exactly when the last command in the queue or a reply on its way is the one it needs.
\<close>

definition group_inv :: "'s callback \<Rightarrow> command list \<Rightarrow> 's \<Rightarrow> command list \<Rightarrow> command list \<Rightarrow> command list \<Rightarrow> 's group \<Rightarrow> bool" where
  "group_inv func cs s0 ds qs rs g \<longleftrightarrow> (let sv = gr_server g in
     sv_rank sv = 0 \<and> sv_size sv = 2 \<and> length (sv_inbox sv) = 2 \<and> length (sv_eol sv) = 2
     \<and> cs = ds @ qs @ gr_todo g
     \<and> do_calls func 1 ds s0 = Returns (gr_replies g @ rs, sv_lm sv)
     \<and> sv_outbox sv = map (\<lambda>x. (1, request x)) rs \<and> (\<forall>x \<in> set rs. call_ok x)
     \<and> sv_inbox sv ! 1 = map request qs @ (if gr_stopped g \<and> \<not> sv_eol sv ! 1 then [eol_message] else [])
     \<and> (sv_eol sv ! 1 \<longrightarrow> gr_stopped g \<and> qs = [])
     \<and> (gr_stopped g \<longrightarrow> gr_todo g = [] \<and> \<not> gr_waiting g)
     \<and> (\<not> gr_waiting g \<longrightarrow> rs = [] \<and> list_all (\<lambda>c. \<not> waits c) qs)
     \<and> (gr_waiting g \<longrightarrow> (rs = [] \<and> qs \<noteq> [] \<and> waits (last qs) \<and> list_all (\<lambda>c. \<not> waits c) (butlast qs))
          \<or> (length rs = 1 \<and> qs = [])))"

lemma group_inv_two:
  "group_inv func cs s0 ds qs rs g \<Longrightarrow> sv_rank (gr_server g) = 0 \<and> sv_size (gr_server g) = 2
    \<and> length (sv_inbox (gr_server g)) = 2 \<and> length (sv_eol (gr_server g)) = 2"
  unfolding group_inv_def Let_def by (elim conjE) (intro conjI; assumption)

lemma two_clients: "sv_rank sv = 0 \<Longrightarrow> sv_size sv = 2 \<Longrightarrow> clients sv = [1]"
  by (simp add: clients_def upt_rec)

lemma process_round_done [simp]: "process_round func [] [] = Returns"
  by (rule ext) simp

lemma server_turn_two:
  assumes "sv_rank sv = 0" and "sv_size sv = 2" and "length (sv_inbox sv) = 2"
  shows "server_turn func sv = (if sv_eol sv ! 1 then Returns None
    else case sv_inbox sv ! 1 of [] \<Rightarrow> Blocks
      | b # bs \<Rightarrow> bind_outcome (process_message func 1 b (sv\<lparr>sv_inbox := (sv_inbox sv)[1 := bs]\<rparr>)) (\<lambda>sv'. Returns (Some sv')))"
proof -
  have i: "map (\<lambda>r. if r \<noteq> 0 then tl (sv_inbox sv ! r) else sv_inbox sv ! r) [0..<2] = (sv_inbox sv)[1 := tl (sv_inbox sv ! 1)]"
    using assms(3) by (intro nth_equalityI) (auto simp: nth_list_update less_Suc_eq numeral_2_eq_2)
  show ?thesis
    using assms i
    by (auto simp: server_turn_def all_shut_down_def two_clients recvToBuffer_def split: list.split)
qed

lemma request_decodes: "call_ok c \<Longrightarrow> deSerializeCmd (request c) = Returns c"
  by (cases c) (simp add: request_def call_ok_def deSerialize_serialize)

lemma reply_ok: "reply_command cmd = Some c \<Longrightarrow> plain k \<Longrightarrow> call_ok (c, k, ret)"
  by (auto simp: call_ok_def plain_reply) (auto simp: reply_command_def EOL_COMMAND_def RET_GET_def RET_META_GET_def
      RET_META_GET_ALL_def RET_READ_BARRIER_def RET_WRITE_BARRIER_def split: if_splits)

lemma group_inv_start: "group_inv func cs s0 [] [] [] (group_new cs s0)"
  by (auto simp: group_inv_def group_new_def server_new_def Let_def)

lemma inv_send:
  assumes inv: "group_inv func cs s0 ds qs rs g" and t: "gr_todo g = c # cs'" "\<not> gr_waiting g"
  shows "group_inv func cs s0 ds (qs @ [c]) rs (g\<lparr>gr_server := sendCommand 1 (fst c) (fst (snd c)) (snd (snd c)) (gr_server g),
    gr_todo := cs', gr_waiting := waits c\<rparr>)"
proof -
  have "\<not> gr_stopped g" using inv t(1) by (auto simp: group_inv_def Let_def)
  moreover have "request c = serializeCmd [] (fst c) (fst (snd c)) (snd (snd c))" by (cases c) (simp add: request_def)
  ultimately show ?thesis using inv t by (auto simp: group_inv_def Let_def sendCommand_def)
qed

lemma inv_recv:
  assumes inv: "group_inv func cs s0 ds qs rs g" and w: "gr_waiting g" and r: "recvCommand 1 (gr_server g) = Returns (x, sv)"
  shows "group_inv func cs s0 ds qs [] (g\<lparr>gr_server := sv, gr_waiting := False, gr_replies := gr_replies g @ [x]\<rparr>)"
proof -
  have out: "sv_outbox (gr_server g) = map (\<lambda>x. (1, request x)) rs" "\<forall>x \<in> set rs. call_ok x"
    using inv by (auto simp: group_inv_def Let_def)
  have ne: "rs \<noteq> []" using r by (auto simp: recvCommand_def out)
  then have "length rs = 1" "qs = []" using inv w by (auto simp: group_inv_def Let_def)
  then obtain y where y: "rs = [y]" by (cases rs) auto
  then have "x = y" "sv = (gr_server g)\<lparr>sv_outbox := []\<rparr>" using r out(2) by (auto simp: recvCommand_def out(1) request_decodes)
  with inv w y \<open>qs = []\<close> show ?thesis by (auto simp: group_inv_def Let_def)
qed

lemma inv_stop:
  assumes inv: "group_inv func cs s0 ds qs rs g" and t: "gr_todo g = []" "\<not> gr_waiting g" "\<not> gr_stopped g"
  shows "group_inv func cs s0 ds qs rs (stopCollectiveIOClient g)"
  using inv t by (auto simp: group_inv_def Let_def stopCollectiveIOClient_def sendCommand_def eol_message_def)

text \<open>The server processes the first message of its queue.\<close>

lemma process_request:
  assumes "process_message func r (request (cmd, k, v)) sv = Returns sv'" and "call_ok (cmd, k, v)"
  obtains ret lm where "func r cmd k v (sv_lm sv) = Returns (ret, lm)"
    and "sv' = sv\<lparr>sv_lm := lm, sv_outbox := sv_outbox sv @
      map (\<lambda>x. (r, request x)) (case reply_command cmd of None \<Rightarrow> [] | Some c \<Rightarrow> [(c, k, ret)])\<rparr>"
  using assms request_decodes [OF assms(2)]
  by (fastforce simp: process_message_def bind_outcome_Returns_iff call_ok_def request_def split: option.splits)

lemma inv_serve_request:
  assumes inv: "group_inv func cs s0 ds (c # qs) rs g" and "\<forall>x \<in> set cs. call_ok x"
    and t: "server_turn func (gr_server g) = Returns (Some sv)"
  shows "\<exists>rs'. group_inv func cs s0 (ds @ [c]) qs rs' (g\<lparr>gr_server := sv\<rparr>)"
proof -
  obtain cmd k v where c: "c = (cmd, k, v)" by (cases c)
  let ?sv = "gr_server g"
  have cok: "call_ok (cmd, k, v)" using assms(2) inv by (auto simp: group_inv_def Let_def c)
  have two: "sv_rank ?sv = 0" "sv_size ?sv = 2" "length (sv_inbox ?sv) = 2" "\<not> sv_eol ?sv ! 1"
    and calls: "do_calls func 1 ds s0 = Returns (gr_replies g @ rs, sv_lm ?sv)"
    using inv by (auto simp: group_inv_def Let_def)
  have rs: "rs = []" and last: "waits c \<longrightarrow> qs = [] \<and> gr_waiting g" "\<not> waits c \<and> gr_waiting g \<longrightarrow> qs \<noteq> []"
    using inv by (auto simp: group_inv_def Let_def split: if_splits)
  let ?bs = "map request qs @ (if gr_stopped g then [eol_message] else [])"
  have inbox: "sv_inbox ?sv ! 1 = request c # ?bs" using inv two(4) by (auto simp: group_inv_def Let_def)
  have "process_message func 1 (request (cmd, k, v)) (?sv\<lparr>sv_inbox := (sv_inbox ?sv)[1 := ?bs]\<rparr>) = Returns sv"
    using t server_turn_two [OF two(1-3), of func] two(4) inbox by (auto simp: bind_outcome_Returns_iff c)
  then obtain ret lm where f: "func 1 cmd k v (sv_lm ?sv) = Returns (ret, lm)"
    and sv: "sv = ?sv\<lparr>sv_inbox := (sv_inbox ?sv)[1 := ?bs], sv_lm := lm, sv_outbox := sv_outbox ?sv @
      map (\<lambda>x. (1, request x)) (case reply_command cmd of None \<Rightarrow> [] | Some c \<Rightarrow> [(c, k, ret)])\<rparr>"
    by (rule process_request [OF _ cok]) simp
  let ?r = "case reply_command cmd of None \<Rightarrow> [] | Some c \<Rightarrow> [(c, k, ret)]"
  have "do_calls func 1 (ds @ [c]) s0 = Returns (gr_replies g @ ?r, lm)" using calls f by (simp add: c do_calls_snoc rs)
  moreover have "\<forall>x \<in> set ?r. call_ok x" 
    by (cases "reply_command cmd") (use cok reply_ok [of cmd] in \<open>auto simp: call_ok_def\<close>)
  moreover have "?r = [] \<longleftrightarrow> \<not> waits c" "length ?r \<le> 1" by (auto simp: waits_def c split: option.split)
  moreover have "length (sv_eol ?sv) = 2" "cs = (ds @ [c]) @ qs @ gr_todo g" "sv_outbox ?sv = []"
    "gr_stopped g \<longrightarrow> gr_todo g = [] \<and> \<not> gr_waiting g" using inv by (auto simp: group_inv_def Let_def rs)
  moreover have "\<not> gr_waiting g \<longrightarrow> list_all (\<lambda>c. \<not> waits c) (c # qs)"
    "gr_waiting g \<longrightarrow> waits (last (c # qs)) \<and> list_all (\<lambda>c. \<not> waits c) (butlast (c # qs))"
    using inv by (auto simp: group_inv_def Let_def rs)
  ultimately have "group_inv func cs s0 (ds @ [c]) qs ?r (g\<lparr>gr_server := sv\<rparr>)"
    using two last unfolding group_inv_def Let_def
    by (cases "waits c"; cases "gr_waiting g"; cases qs) (simp_all add: sv length_Suc_conv le_Suc_eq split: if_splits)
  then show ?thesis by blast
qed

lemma inv_serve_eol:
  assumes inv: "group_inv func cs s0 ds [] rs g" and t: "server_turn func (gr_server g) = Returns (Some sv)"
  shows "group_inv func cs s0 ds [] rs (g\<lparr>gr_server := sv\<rparr>)"
proof -
  let ?sv = "gr_server g"
  have two: "sv_rank ?sv = 0" "sv_size ?sv = 2" "length (sv_inbox ?sv) = 2" "length (sv_eol ?sv) = 2"
    using inv by (auto simp: group_inv_def Let_def)
  have eol: "\<not> sv_eol ?sv ! 1" using t server_turn_two [OF two(1-3), of func] by (auto split: if_splits)
  then have inbox: "gr_stopped g" "sv_inbox ?sv ! 1 = [eol_message]"
    using inv t server_turn_two [OF two(1-3), of func] by (auto simp: group_inv_def Let_def split: if_splits)
  then have "sv = ?sv\<lparr>sv_inbox := (sv_inbox ?sv)[1 := []], sv_eol := (sv_eol ?sv)[1 := True]\<rparr>"
    using t server_turn_two [OF two(1-3), of func] eol
    by (auto simp: bind_outcome_Returns_iff process_message_def eol_message_def deSerialize_serialize)
  with inv two inbox(1) eol show ?thesis by (auto simp: group_inv_def Let_def)
qed

lemma group_inv_step:
  assumes st: "gr_step func g g'" and inv: "group_inv func cs s0 ds qs rs g" and ok: "\<forall>x \<in> set cs. call_ok x"
  shows "\<exists>ds' qs' rs'. group_inv func cs s0 ds' qs' rs' g'"
  using st
proof (cases rule: gr_step.cases)
  case (g_send cmd k v cs')
  then show ?thesis using inv_send [OF inv, of "(cmd, k, v)" cs'] by (auto simp: waits_def)
next
  case (g_recv x sv)
  then show ?thesis using inv_recv [OF inv] by blast
next
  case g_stop
  then show ?thesis using inv_stop [OF inv] by blast
next
  case (g_serve sv)
  show ?thesis
  proof (cases qs)
    case Nil
    then show ?thesis using inv_serve_eol [of func cs s0 ds rs g sv] inv g_serve by auto
  next
    case (Cons c qs')
    then show ?thesis using inv_serve_request [of func cs s0 ds c qs' rs g sv] inv ok g_serve by auto
  qed
qed

lemma group_inv_run:
  assumes "(gr_step func)\<^sup>*\<^sup>* (group_new cs s0) g" and ok: "\<forall>x \<in> set cs. call_ok x"
  shows "\<exists>ds qs rs. group_inv func cs s0 ds qs rs g"
  using assms(1)
proof (induction rule: rtranclp_induct)
  case base
  have "group_inv func cs s0 [] [] [] (group_new cs s0)" by (rule group_inv_start)
  then show ?case by blast
next
  case (step g g')
  then obtain ds qs rs where "group_inv func cs s0 ds qs rs g" by blast
  from group_inv_step [OF step.hyps(2) this ok] show ?case .
qed

section \<open>Runs end\<close>

definition group_left :: "'s group \<Rightarrow> nat" where
  "group_left g = 3 * length (gr_todo g) + 2 * length (sv_inbox (gr_server g) ! 1) + length (sv_outbox (gr_server g))
     + (if gr_stopped g then 0 else 3)"

lemma group_left_decreases:
  assumes st: "gr_step func g g'" and inv: "group_inv func cs s0 ds qs rs g"
  shows "group_left g' < group_left g"
proof -
  let ?sv = "gr_server g"
  have two: "sv_rank ?sv = 0" "sv_size ?sv = 2" "length (sv_inbox ?sv) = 2"
    using group_inv_two [OF inv] by simp_all
  from st show ?thesis
  proof (cases rule: gr_step.cases)
    case (g_send cmd k v cs')
    then show ?thesis using two(3) by (simp add: group_left_def sendCommand_def)
  next
    case (g_recv x sv)
    have "take_message r ms = Some (b, ms') \<Longrightarrow> length ms' < length ms" for r ms b ms'
      by (induction ms arbitrary: ms') (auto split: if_splits)
    with g_recv show ?thesis
      by (fastforce simp: group_left_def recvCommand_def bind_outcome_Returns_iff split: option.splits)
  next
    case g_stop
    then show ?thesis using two(3) by (simp add: group_left_def stopCollectiveIOClient_def sendCommand_def)
  next
    case (g_serve sv)
    from g_serve(2) server_turn_two [OF two, of func] obtain b bs where b: "sv_inbox ?sv ! 1 = b # bs"
      and p: "process_message func 1 b (?sv\<lparr>sv_inbox := (sv_inbox ?sv)[1 := bs]\<rparr>) = Returns sv"
      by (auto simp: bind_outcome_Returns_iff split: if_splits list.splits)
    have "sv_inbox sv ! 1 = bs" using process_message_fields [OF p] two(3) by simp
    moreover have "length (sv_outbox sv) \<le> Suc (length (sv_outbox ?sv))"
      using p by (auto simp: process_message_def bind_outcome_Returns_iff split: if_splits option.splits)
    ultimately show ?thesis using g_serve(1) b by (simp add: group_left_def)
  qed
qed

lemma group_run_bound:
  assumes "(gr_step func ^^ n) (group_new cs s0) g" and ok: "\<forall>x \<in> set cs. call_ok x"
  shows "n + group_left g \<le> 3 * length cs + 3"
  using assms(1)
proof (induction n arbitrary: g)
  case 0
  then show ?case by (auto simp: group_left_def group_new_def server_new_def)
next
  case (Suc n)
  then obtain g1 where g1: "(gr_step func ^^ n) (group_new cs s0) g1" "gr_step func g1 g" by auto
  from g1(1) have "(gr_step func)\<^sup>*\<^sup>* (group_new cs s0) g1" by (rule relpowp_imp_rtranclp)
  from group_inv_run [OF this ok] obtain ds qs rs where "group_inv func cs s0 ds qs rs g1" by blast
  from group_left_decreases [OF g1(2) this] Suc.IH [OF g1(1)] show ?case by simp
qed

text \<open>A run that cannot go on has served and answered everything.\<close>

lemma group_stuck:
  assumes stuck: "\<And>g'. \<not> gr_step func g g'" and inv: "group_inv func cs s0 ds qs rs g"
    and func: "total_callback func" and ok: "\<forall>x \<in> set cs. call_ok x"
  shows "gr_todo g = [] \<and> \<not> gr_waiting g \<and> gr_stopped g \<and> server_turn func (gr_server g) = Returns None \<and> qs = [] \<and> rs = []"
proof -
  let ?sv = "gr_server g"
  have two: "sv_rank ?sv = 0" "sv_size ?sv = 2" "length (sv_inbox ?sv) = 2" using group_inv_two [OF inv] by simp_all
  have turn: "\<exists>sv. server_turn func ?sv = Returns (Some sv)" if "\<not> sv_eol ?sv ! 1" "sv_inbox ?sv ! 1 = b # bs" "decodes b" for b bs
  proof -
    from process_message_total [OF that(3) func] obtain sv' where
      "process_message func 1 b (?sv\<lparr>sv_inbox := (sv_inbox ?sv)[1 := bs]\<rparr>) = Returns sv'" by blast
    then show ?thesis using that(1,2) server_turn_two [OF two, of func] by simp
  qed
  have qs: "qs = []"
  proof (rule ccontr)
    assume "qs \<noteq> []"
    then obtain c qs' where c: "qs = c # qs'" by (cases qs) auto
    then have c': "call_ok c" "\<not> sv_eol ?sv ! 1" using inv ok by (auto simp: group_inv_def Let_def)
    then have d: "decodes (request c)" using request_decodes [of c] by (cases c) (auto simp: decodes_def)
    obtain bs where "sv_inbox ?sv ! 1 = request c # bs" using inv c by (auto simp: group_inv_def Let_def)
    from turn [OF c'(2) this d] g_serve [of func g] stuck show False by blast
  qed
  have wait: "\<not> gr_waiting g"
  proof
    assume w: "gr_waiting g"
    then obtain x where x: "rs = [x]" using inv qs by (cases rs) (auto simp: group_inv_def Let_def)
    then have "sv_outbox ?sv = [(1, request x)]" "call_ok x" using inv by (auto simp: group_inv_def Let_def)
    then have "recvCommand 1 ?sv = Returns (x, ?sv\<lparr>sv_outbox := []\<rparr>)" by (simp add: recvCommand_def request_decodes)
    with g_recv [OF w] stuck show False by blast
  qed
  have todo: "gr_todo g = []"
  proof (rule ccontr)
    assume "gr_todo g \<noteq> []"
    then obtain cmd k v cs' where "gr_todo g = (cmd, k, v) # cs'" by (cases "gr_todo g") auto
    from g_send [OF this wait] stuck show False by blast
  qed
  have stopped: "gr_stopped g" using g_stop [OF todo wait] stuck by blast
  have "sv_eol ?sv ! 1"
  proof (rule ccontr)
    assume e: "\<not> sv_eol ?sv ! 1"
    then have "sv_inbox ?sv ! 1 = [eol_message]" using inv qs stopped by (auto simp: group_inv_def Let_def)
    then have "sv_inbox ?sv ! 1 = eol_message # []" by simp
    from turn [OF e this] g_serve [of func g] stuck show False by (metis eol_message_simps(1))
  qed
  then have "server_turn func ?sv = Returns None" using server_turn_two [OF two, of func] by simp
  with qs wait todo stopped inv show ?thesis by (auto simp: group_inv_def Let_def)
qed

section \<open>Properties\<close>


lemma group_run_exists:
  assumes ok: "\<forall>x \<in> set cs. call_ok x"
  shows "\<exists>n g. (gr_step func ^^ n) (group_new cs s0) g \<and> (\<forall>g'. \<not> gr_step func g g')"
  by (rule bounded_run_stops [where N = "3 * length cs + 3"]) (use group_run_bound [OF _ ok] in fastforce)


text \<open>
  C12. What a rank sends through the transport of a group of two has the effect that the operations of the
  manager have: whatever the interleaving, when the client is done and the queue of the server is empty,
  replies and store are those of \<open>send_command\<close> and \<open>rpc\<close> in the order of the program.
\<close>

theorem group_refines_calls:
  assumes "\<forall>x \<in> set cs. call_ok x"
    and "(gr_step (callbackForCollectiveIO ops cfg))\<^sup>*\<^sup>* (group_new cs agg) g"
    and "gr_todo g = []" and "\<not> gr_waiting g" and "sv_inbox (gr_server g) ! 1 = []"
  shows "manager_calls ops cfg 1 cs agg = Returns (gr_replies g, sv_lm (gr_server g))"
proof -
  from group_inv_run [OF assms(2,1)] obtain ds qs rs where
    "group_inv (callbackForCollectiveIO ops cfg) cs agg ds qs rs g" by blast
  with assms(3-5) have "do_calls (callbackForCollectiveIO ops cfg) 1 cs agg = Returns (gr_replies g, sv_lm (gr_server g))"
    by (auto simp: group_inv_def Let_def)
  then show ?thesis by (simp add: manager_calls_do [OF assms(1)])
qed

theorem group_refines_calls_witness:
  "\<exists>agg'. manager_calls (ldb_ops mem_db) default_config 1 [(CMD_PUT, ''k'', ''v'')] (sample_member 0 (Some sample_ldb))
    = Returns ([], agg')"
proof -
  let ?func = "callbackForCollectiveIO (ldb_ops mem_db) default_config"
  let ?g0 = "group_new [(CMD_PUT, ''k'', ''v'')] (sample_member 0 (Some sample_ldb))"
  let ?g1 = "?g0\<lparr>gr_server := sendCommand 1 CMD_PUT ''k'' ''v'' (gr_server ?g0), gr_todo := [], gr_waiting := False\<rparr>"
  have ok: "\<forall>x \<in> set [(CMD_PUT, ''k'', ''v'')]. call_ok x"
    by (simp add: call_ok_def) (simp add: CMD_PUT_def EOL_COMMAND_def)
  have "gr_step ?func ?g0 ?g1" using g_send [of ?g0 CMD_PUT "''k''" "''v''" "[]" ?func] by (simp add: group_new_def)
  moreover have "case server_turn ?func (gr_server ?g1) of Returns (Some sv) \<Rightarrow> sv_inbox sv ! 1 = [] | _ \<Rightarrow> False" by code_simp
  then obtain sv where sv: "server_turn ?func (gr_server ?g1) = Returns (Some sv)" "sv_inbox sv ! 1 = []"
    by (auto split: outcome.splits option.splits)
  from g_serve [OF sv(1)] have "gr_step ?func ?g1 (?g1\<lparr>gr_server := sv\<rparr>)" .
  ultimately have "(gr_step ?func)\<^sup>*\<^sup>* ?g0 (?g1\<lparr>gr_server := sv\<rparr>)"
    by (rule converse_rtranclp_into_rtranclp [OF _ r_into_rtranclp])
  from group_refines_calls [OF ok this] sv(2) show ?thesis by (simp add: group_new_def)
qed

end
