(* ===== verification/Durable_Db.thy ===== *)
theory Durable_Db
  imports Bm_Programs Store_Ldb Store_Rdb
begin

text \<open>
  The stores over LevelDB and RocksDB on a disk: constructor, close and destructor move the database
  between the handle and the disk. The locale \<open>disk_store\<close> is what an open store (\<open>lsmio_store\<close>) needs in
  addition to survive its close (\<open>durable_store\<close>); both stores have it when the library behind them keeps
  what its documentation promises, so that the layers over a durable store run over them as over the
  native store: here, the programs \<open>benchmark/bm_leveldb.cpp\<close> and \<open>bm_rocksdb.cpp\<close>.
\<close>

section \<open>An open store and the disk\<close>

text \<open>The operations on the pair of a store and the disk; only \<open>close\<close> reaches the disk.\<close>

definition on_disk :: "'l store_ops \<Rightarrow> ('l \<times> 'f \<Rightarrow> ('l \<times> 'f) outcome) \<Rightarrow> ('l \<times> 'f) store_ops" where
  "on_disk ops close = \<lparr>
     op_batchMutation = (\<lambda>t k v flush (l, f). bind_outcome (op_batchMutation ops t k v flush l) (\<lambda>(b, l'). Returns (b, l', f))),
     op_get = (\<lambda>k (l, f). op_get ops k l),
     op_getPrefix = (\<lambda>p (l, f). op_getPrefix ops p l),
     op_readBarrier = (\<lambda>(l, f). bind_outcome (op_readBarrier ops l) (\<lambda>(b, l'). Returns (b, l', f))),
     op_writeBarrier = (\<lambda>(l, f). bind_outcome (op_writeBarrier ops l) (\<lambda>(b, l'). Returns (b, l', f))),
     op_close = close\<rparr>"

lemma on_disk_simps [simp]:
  "store_put (on_disk ops close) k v flush (l, f)
    = bind_outcome (op_batchMutation ops Put k v flush l) (\<lambda>(b, l'). Returns (b, l', f))"
  "op_get (on_disk ops close) k (l, f) = op_get ops k l"
  "op_getPrefix (on_disk ops close) k (l, f) = op_getPrefix ops k l"
  "op_writeBarrier (on_disk ops close) (l, f) = bind_outcome (op_writeBarrier ops l) (\<lambda>(b, l'). Returns (b, l', f))"
  "op_close (on_disk ops close) s = close s"
  by (simp_all add: on_disk_def store_put_def)

definition plain_values :: "(key \<times> val) list \<Rightarrow> bool" where
  "plain_values h \<longleftrightarrow> (\<forall>e \<in> set h. snd e \<noteq> MEMTABLE_TOMBSTONE)"

lemma plain_values_live: "plain_values h \<Longrightarrow> live (entries_map h) = entries_map h"
  by (fastforce simp: plain_values_def live_def entries_map_def fun_eq_iff dest!: map_of_SomeD)

text \<open>
  \<open>mine s\<close>: the handle of \<open>s\<close> is one of the database in question; \<open>gone s\<close>: it has been deleted;
  \<open>keeps m f\<close>: the disk \<open>f\<close> has that database with the content \<open>m\<close>.
\<close>

locale disk_store = lsmio_store ops ok content readable scannable "\<lambda>_ _ _ _. True"
  for ops :: "'l store_ops"
    and ok :: "'l \<Rightarrow> bool"
    and content :: "'l \<Rightarrow> key \<rightharpoonup> val"
    and readable scannable :: "'l \<Rightarrow> bool" +
  fixes create :: "bool \<Rightarrow> 'f \<Rightarrow> ('l \<times> 'f) outcome"
    and close :: "'l \<times> 'f \<Rightarrow> ('l \<times> 'f) outcome"
    and mine gone :: "'l \<Rightarrow> bool"
    and keeps :: "(key \<rightharpoonup> val) \<Rightarrow> 'f \<Rightarrow> bool"
  assumes mine_mutation: "mine s \<Longrightarrow> op_batchMutation ops t k v flush s = Returns (b, s') \<Longrightarrow> mine s'"
    and mine_barrier: "mine s \<Longrightarrow> op_writeBarrier ops s = Returns (b, s') \<Longrightarrow> mine s'"
    and create_new: "\<exists>s f'. create True f = Returns (s, f') \<and> ok s \<and> mine s \<and> content s = Map.empty"
    and create_old: "keeps m f \<Longrightarrow> \<exists>s f'. create False f = Returns (s, f') \<and> ok s \<and> mine s
      \<and> readable s \<and> scannable s \<and> content s = m"
    and close_open: "ok s \<Longrightarrow> mine s \<Longrightarrow> \<exists>s' f'. close (s, f) = Returns (s', f') \<and> gone s' \<and> keeps (content s) f'"
    and close_gone: "gone s \<Longrightarrow> close (s, f) = Returns (s, f)"
begin

definition disk_at :: "(key \<times> val) list \<Rightarrow> 'l \<times> 'f \<Rightarrow> bool" where
  "disk_at h s \<longleftrightarrow> ok (fst s) \<and> mine (fst s) \<and> plain_values h \<and> content (fst s) = entries_map h"

definition disk_closed :: "(key \<times> val) list \<Rightarrow> 'l \<times> 'f \<Rightarrow> bool" where
  "disk_closed h s \<longleftrightarrow> gone (fst s) \<and> plain_values h \<and> keeps (entries_map h) (snd s)"

definition disk_reopened :: "(key \<times> val) list \<Rightarrow> 'l \<times> 'f \<Rightarrow> bool" where
  "disk_reopened h s \<longleftrightarrow> disk_at h s \<and> readable (fst s) \<and> scannable (fst s)"

end

sublocale disk_store \<subseteq> durable: durable_store "on_disk ops close" create "\<lambda>_. True" plain_values
  disk_at disk_closed disk_reopened
proof
  show "\<exists>s. create True f = Returns s \<and> disk_at [] s" for f
    using create_new [of f] by (force simp: disk_at_def plain_values_def)
  show "plain_values h" if "plain_values (h @ h')" for h h'
    using that by (simp add: plain_values_def)
  show "\<exists>s'. store_put (on_disk ops close) k v flush s = Returns (True, s') \<and> disk_at (h @ [(k, v)]) s'"
    if "disk_at h s" "plain_values (h @ [(k, v)])" for h s k v flush
  proof -
    obtain l f where s: "s = (l, f)" by (cases s)
    from that(1) have l: "ok l" "mine l" "content l = entries_map h" by (simp_all add: s disk_at_def)
    from mutation [OF l(1), of Put k v flush] obtain l' where
      l': "op_batchMutation ops Put k v flush l = Returns (True, l')" "ok l'" "content l' = (content l)(k \<mapsto> v)"
      by (auto simp: apply_mutation_def)
    with mine_mutation [OF l(2) l'(1)] that(2) l(3) show ?thesis by (simp add: s disk_at_def)
  qed
  show "\<exists>s'. op_writeBarrier (on_disk ops close) s = Returns (True, s') \<and> disk_at h s'" if "disk_at h s" for h s
  proof -
    obtain l f where s: "s = (l, f)" by (cases s)
    from that have l: "ok l" "mine l" "plain_values h" "content l = entries_map h" by (simp_all add: s disk_at_def)
    from write_barrier [OF l(1)] obtain l' where l': "op_writeBarrier ops l = Returns (True, l')" "ok l'" "content l' = content l"
      by blast
    with mine_barrier [OF l(2) l'(1)] l(3,4) show ?thesis by (simp add: s disk_at_def)
  qed
  have closes: "\<exists>s'. close s = Returns s' \<and> disk_closed h s'" if "disk_at h s" for h s
    using that close_open [of "fst s" "snd s"] by (cases s) (fastforce simp: disk_at_def disk_closed_def)
  then show "\<exists>s'. op_close (on_disk ops close) s = Returns s' \<and> disk_closed h s'" if "disk_at h s" for h s
    using that by simp
  show "\<exists>s'. op_close (on_disk ops close) s = Returns s' \<and> disk_closed h s'" if "disk_closed h s" for h s
    using that close_gone [of "fst s" "snd s"] by (simp add: disk_closed_def)
  show "\<exists>s. create False f = Returns s \<and> disk_reopened h s" if "disk_closed h (l, f)" for h l f
    using that create_old [of "entries_map h" f] by (force simp: disk_closed_def disk_reopened_def disk_at_def)
  show "op_get (on_disk ops close) k s = Returns (Some v)"
    if "disk_reopened h s" "entries_map h k = Some v" for h s k v
    using that get [of "fst s" k] by (cases s) (simp add: disk_reopened_def disk_at_def)
  show "\<exists>b xs. op_getPrefix (on_disk ops close) p s = Returns (b, xs) \<and> omap_ok xs
      \<and> map_of xs = live (entries_map h) |` with_prefix p" if "disk_reopened h s" for h s p
    using that scan [of "fst s" p] plain_values_live [of h] by (cases s) (simp add: disk_reopened_def disk_at_def)
  show "\<exists>s'. op_close (on_disk ops close) s = Returns s' \<and> True" if "disk_reopened h s" for h s
    using that closes [of h s] by (auto simp: disk_reopened_def)
qed

section \<open>The libraries on a disk\<close>

text \<open>
  \<open>DestroyDB\<close>, \<open>DB::Open\<close> with the options \<open>'o\<close>, and the deletion of a handle, of a library that is
  not part of the repository. \<open>path\<close> is the path of a handle and \<open>safe\<close> says that everything in the
  database survives the deletion of the handle: what LevelDB promises of every database, as all writes
  are logged, and RocksDB, whose log the settings switch off, of a database that has been flushed.
\<close>

record ('o, 'd, 'f) db_lib =
  dl_destroy :: "string \<Rightarrow> 'f \<Rightarrow> bool \<times> 'f"
  dl_open :: "'o \<Rightarrow> string \<Rightarrow> 'f \<Rightarrow> 'd option \<times> 'f"
  dl_delete :: "'d \<Rightarrow> 'f \<Rightarrow> 'f"

definition db_lib_laws ::
  "('o, 'd, 'f) db_lib \<Rightarrow> 'd kv_db \<Rightarrow> ('d \<Rightarrow> key \<rightharpoonup> val) \<Rightarrow> ('d \<Rightarrow> string) \<Rightarrow> ('d \<Rightarrow> bool) \<Rightarrow> bool" where
  "db_lib_laws L db repr path safe \<longleftrightarrow> kv_db_laws db repr
     \<and> (\<forall>d k v. path (snd (kd_put db k v d)) = path d) \<and> (\<forall>d k. path (snd (kd_delete db k d)) = path d)
     \<and> (\<forall>d ws. path (snd (kd_write db ws d)) = path d) \<and> (\<forall>d. path (snd (kd_flush db d)) = path d)
     \<and> (\<forall>d. safe (snd (kd_flush db d)))
     \<and> (\<forall>p f. fst (dl_destroy L p f))
     \<and> (\<forall>opt p f. \<exists>d f'. dl_open L opt p (snd (dl_destroy L p f)) = (Some d, f') \<and> path d = p \<and> repr d = Map.empty)
     \<and> (\<forall>opt d f. safe d \<longrightarrow> (\<exists>d' f'. dl_open L opt (path d) (dl_delete L d f) = (Some d', f') \<and> path d' = path d \<and> repr d' = repr d))"

lemma db_lib_laws_D:
  assumes "db_lib_laws L db repr path safe"
  shows "kv_db_laws db repr" and "path (snd (kd_put db k v d)) = path d" and "path (snd (kd_delete db k d)) = path d"
    and "path (snd (kd_write db ws d)) = path d" and "path (snd (kd_flush db d)) = path d"
    and "safe (snd (kd_flush db d))" and "fst (dl_destroy L p f)"
    and "\<exists>d f'. dl_open L opt p (snd (dl_destroy L p f)) = (Some d, f') \<and> path d = p \<and> repr d = Map.empty"
    and "safe d \<Longrightarrow> \<exists>d' f'. dl_open L opt (path d) (dl_delete L d f) = (Some d', f') \<and> path d' = path d \<and> repr d' = repr d"
  using assms by (simp_all add: db_lib_laws_def)

text \<open>The constructor \<open>new\<close> of a store, which destroys and opens, on a disk.\<close>

definition db_create ::
  "((string \<Rightarrow> bool) \<Rightarrow> ('o \<Rightarrow> string \<Rightarrow> 'd option) \<Rightarrow> 's outcome) \<Rightarrow> ('o, 'd, 'f) db_lib \<Rightarrow> 'o \<Rightarrow> string
    \<Rightarrow> bool \<Rightarrow> 'f \<Rightarrow> ('s \<times> 'f) outcome" where
  "db_create new L opt p overWrite f = (let f1 = (if overWrite then snd (dl_destroy L p f) else f) in
     bind_outcome (new (\<lambda>q. fst (dl_destroy L q f)) (\<lambda>opt q. fst (dl_open L opt q f1)))
       (\<lambda>s. Returns (s, snd (dl_open L opt p f1))))"

definition db_keeps ::
  "('o, 'd, 'f) db_lib \<Rightarrow> ('d \<Rightarrow> key \<rightharpoonup> val) \<Rightarrow> ('d \<Rightarrow> string) \<Rightarrow> ('d \<Rightarrow> bool) \<Rightarrow> string \<Rightarrow> (key \<rightharpoonup> val) \<Rightarrow> 'f \<Rightarrow> bool" where
  "db_keeps L repr path safe p m f \<longleftrightarrow> (\<exists>d f0. safe d \<and> path d = p \<and> repr d = m \<and> f = dl_delete L d f0)"

lemma db_keepsI:
  "safe d \<Longrightarrow> path d = p \<Longrightarrow> repr d = m \<Longrightarrow> db_keeps L repr path safe p m (dl_delete L d f)"
  by (auto simp: db_keeps_def)

section \<open>The LevelDB store\<close>

definition ldb_create ::
  "(leveldb_options, 'd, 'f) db_lib \<Rightarrow> lsmio_config \<Rightarrow> string \<Rightarrow> bool \<Rightarrow> 'f \<Rightarrow> ('d ldb_store \<times> 'f) outcome" where
  "ldb_create L cfg p overWrite f = db_create (\<lambda>destroy open_db. ldb_new destroy open_db cfg p overWrite) L (ldb_options cfg) p overWrite f"

definition ldb_close_disk ::
  "'d kv_db \<Rightarrow> (leveldb_options, 'd, 'f) db_lib \<Rightarrow> 'd ldb_store \<times> 'f \<Rightarrow> ('d ldb_store \<times> 'f) outcome" where
  "ldb_close_disk db L s = (case ldb_db (fst s) of None \<Rightarrow> Returns s
     | Some d \<Rightarrow> bind_outcome (ldb_writeBarrier db (fst s)) (\<lambda>(b, l).
         Returns (l\<lparr>ldb_db := None\<rparr>, case ldb_db l of None \<Rightarrow> snd s | Some d' \<Rightarrow> dl_delete L d' (snd s))))"

definition ldb_disk_ops ::
  "'d kv_db \<Rightarrow> (leveldb_options, 'd, 'f) db_lib \<Rightarrow> ('d ldb_store \<times> 'f) store_ops" where
  "ldb_disk_ops db L = on_disk (ldb_ops db) (ldb_close_disk db L)"

text \<open>To the store, the close on the disk is \<open>ldb_close\<close>.\<close>

lemma ldb_close_disk_store:
  "bind_outcome (ldb_close_disk db L (l, f)) (\<lambda>s. Returns (fst s)) = ldb_close db l"
  by (cases "ldb_writeBarrier db l") (auto simp: ldb_close_disk_def ldb_close_def split: option.split prod.split)

definition ldb_mine :: "('d \<Rightarrow> string) \<Rightarrow> string \<Rightarrow> 'd ldb_store \<Rightarrow> bool" where
  "ldb_mine path p s \<longleftrightarrow> map_option path (ldb_db s) = Some p"

lemma ldb_stopBatch_path:
  assumes "db_lib_laws L db repr path safe" and "ldb_mine path p s" and "ldb_stopBatch db s = Returns (b, s')"
  shows "ldb_mine path p s'"
proof -
  from assms(2) obtain d where d: "ldb_db s = Some d" "path d = p" by (auto simp: ldb_mine_def)
  show ?thesis
  proof (cases "ldb_batch s")
    case (Some ops)
    with assms(3) d db_lib_laws_D(4) [OF assms(1), of ops d] show ?thesis
      by (cases "kd_write db ops d") (auto simp: ldb_stopBatch_def ldb_mine_def)
  qed (use assms(2,3) in \<open>simp add: ldb_stopBatch_def\<close>)
qed

lemma ldb_append_path: "ldb_mine path p s \<Longrightarrow> ldb_mine path p (ldb_append x v s)"
  by (simp add: ldb_mine_def ldb_append_def)

lemma ldb_mutation_path:
  assumes L: "db_lib_laws L db repr path safe" and m: "ldb_mine path p s"
    and r: "ldb_batchMutation db t k v flush s = Returns (b, s')"
  shows "ldb_mine path p s'"
proof -
  have stop: "ldb_mine path p s1" if "(if P then ldb_stopBatch db s else Returns (True, s)) = Returns (b1, s1)" for P b1 s1
    using that m ldb_stopBatch_path [OF L m] by (auto split: if_splits)
  show ?thesis
  proof (cases "ldb_direct t k v flush s")
    case True
    then obtain b1 s1 d where s1: "(if ldb_batch s \<noteq> None then ldb_stopBatch db s else Returns (True, s)) = Returns (b1, s1)"
      and d: "ldb_db s1 = Some d" and s': "s' = s1\<lparr>ldb_db := Some (snd (case t of Put \<Rightarrow> kd_put db k v d | Del \<Rightarrow> kd_delete db k d))\<rparr>"
      using r by (fastforce simp: ldb_batchMutation_def bind_outcome_Returns_iff split_beta split: option.splits)
    have "ldb_mine path p s1" by (rule stop [OF s1])
    with d db_lib_laws_D(2,3) [OF L] show ?thesis by (cases t) (simp_all add: s' ldb_mine_def)
  next
    case False
    then obtain b1 s1 where s1: "(if ldb_batch s \<noteq> None \<and> ldb_batch_full v s then ldb_stopBatch db s else Returns (True, s)) = Returns (b1, s1)"
      and s': "s' = ldb_append (ldb_op t k v) v s1"
      using r by (auto simp: ldb_batchMutation_def bind_outcome_Returns_iff)
    show ?thesis unfolding s' by (rule ldb_append_path [OF stop [OF s1]])
  qed
qed

lemma ldb_create_ok:
  assumes "fst (dl_destroy L p f)" and "dl_open L (ldb_options cfg) p (if ow then snd (dl_destroy L p f) else f) = (Some d, f')"
  shows "\<exists>s. ldb_create L cfg p ow f = Returns (s, f') \<and> ldb_db s = Some d \<and> ldb_batch s = None"
  using assms by (simp add: ldb_create_def db_create_def ldb_new_def ldb_dbCleanup_def Let_def)

lemma ldb_disk_store:
  assumes L: "db_lib_laws L db repr path (\<lambda>_. True)"
  shows "disk_store (ldb_ops db) ldb_ok (ldb_content repr) ldb_readable ldb_readable (ldb_create L cfg p)
    (ldb_close_disk db L) (ldb_mine path p) (\<lambda>s. ldb_db s = None) (db_keeps L repr path (\<lambda>_. True) p)"
proof (intro disk_store.intro disk_store_axioms.intro ldb_store_contract db_lib_laws_D(1) [OF L])
  note laws = db_lib_laws_D [OF L]
  show "ldb_mine path p s'" if "ldb_mine path p s" "op_batchMutation (ldb_ops db) t k v flush s = Returns (b, s')" for s t k v flush b s'
    using that by (auto simp: ldb_ops_def intro: ldb_mutation_path [OF L])
  show "ldb_mine path p s'" if "ldb_mine path p s" "op_writeBarrier (ldb_ops db) s = Returns (b, s')" for s b s'
    using that by (auto simp: ldb_ops_def ldb_writeBarrier_def bind_outcome_Returns_iff intro: ldb_stopBatch_path [OF L])
  show "\<exists>s f'. ldb_create L cfg p True f = Returns (s, f') \<and> ldb_ok s \<and> ldb_mine path p s \<and> ldb_content repr s = Map.empty" for f
  proof -
    from laws(8) [of "ldb_options cfg" p f] obtain d f' where
      "dl_open L (ldb_options cfg) p (snd (dl_destroy L p f)) = (Some d, f')" "path d = p" "repr d = Map.empty" by blast
    with ldb_create_ok [where L = L and p = p and f = f and cfg = cfg and ow = True] laws(7) [of p f] show ?thesis
      by (fastforce simp: ldb_ok_def ldb_mine_def ldb_content_def pending_ops_def)
  qed
  show "\<exists>s f'. ldb_create L cfg p False f = Returns (s, f') \<and> ldb_ok s \<and> ldb_mine path p s \<and> ldb_readable s
      \<and> ldb_readable s \<and> ldb_content repr s = m" if "db_keeps L repr path (\<lambda>_. True) p m f" for m f
  proof -
    from that obtain d f0 where d: "path d = p" "repr d = m" "f = dl_delete L d f0" by (auto simp: db_keeps_def)
    from laws(9) [OF TrueI, of "ldb_options cfg" d f0] d obtain d' f' where
      "dl_open L (ldb_options cfg) p f = (Some d', f')" "path d' = p" "repr d' = m" by blast
    with ldb_create_ok [where L = L and p = p and f = f and cfg = cfg and ow = False] laws(7) [of p f] show ?thesis
      by (fastforce simp: ldb_ok_def ldb_mine_def ldb_content_def ldb_readable_def pending_ops_def)
  qed
  show "\<exists>s' f'. ldb_close_disk db L (s, f) = Returns (s', f') \<and> ldb_db s' = None
      \<and> db_keeps L repr path (\<lambda>_. True) p (ldb_content repr s) f'" if s: "ldb_ok s" "ldb_mine path p s" for s f
  proof -
    from ldb_close_spec [OF laws(1) s(1)] obtain s1 d where s1: "ldb_writeBarrier db s = Returns (True, s1)"
      "ldb_db s1 = Some d" "repr d = ldb_content repr s" by blast
    then have "ldb_mine path p s1"
      using s(2) by (auto simp: ldb_writeBarrier_def bind_outcome_Returns_iff intro: ldb_stopBatch_path [OF L])
    with s1 s(1) show ?thesis by (auto simp: ldb_close_disk_def ldb_ok_def ldb_mine_def intro: db_keepsI)
  qed
  show "ldb_close_disk db L (s, f) = Returns (s, f)" if "ldb_db s = None" for s f
    using that by (simp add: ldb_close_disk_def)
qed

section \<open>The RocksDB store\<close>

definition rdb_create ::
  "(rocksdb_options, 'd, 'f) db_lib \<Rightarrow> lsmio_config \<Rightarrow> string \<Rightarrow> bool \<Rightarrow> 'f \<Rightarrow> ('d rdb_store \<times> 'f) outcome" where
  "rdb_create L cfg p overWrite f = db_create (\<lambda>destroy open_db. rdb_new destroy open_db cfg p overWrite) L (rdb_options cfg) p overWrite f"

definition rdb_close_disk ::
  "'d kv_db \<Rightarrow> (rocksdb_options, 'd, 'f) db_lib \<Rightarrow> 'd rdb_store \<times> 'f \<Rightarrow> ('d rdb_store \<times> 'f) outcome" where
  "rdb_close_disk db L s = (case rdb_db (fst s) of None \<Rightarrow> Returns s
     | Some d \<Rightarrow> bind_outcome (rdb_writeBarrier db (fst s)) (\<lambda>(b, l).
         Returns (l\<lparr>rdb_db := None\<rparr>, case rdb_db l of None \<Rightarrow> snd s | Some d' \<Rightarrow> dl_delete L d' (snd s))))"

definition rdb_disk_ops ::
  "'d kv_db \<Rightarrow> (rocksdb_options, 'd, 'f) db_lib \<Rightarrow> ('d rdb_store \<times> 'f) store_ops" where
  "rdb_disk_ops db L = on_disk (rdb_ops db) (rdb_close_disk db L)"

lemma rdb_close_disk_store:
  "bind_outcome (rdb_close_disk db L (l, f)) (\<lambda>s. Returns (fst s)) = rdb_close db l"
  by (cases "rdb_writeBarrier db l") (auto simp: rdb_close_disk_def rdb_close_def split: option.split prod.split)

definition rdb_mine :: "('d \<Rightarrow> string) \<Rightarrow> string \<Rightarrow> 'd rdb_store \<Rightarrow> bool" where
  "rdb_mine path p s \<longleftrightarrow> map_option path (rdb_db s) = Some p"

lemma rdb_barrier_open:
  assumes L: "db_lib_laws L db repr path safe" and s: "rdb_ok s" "rdb_mine path p s"
  shows "\<exists>s1 d. rdb_writeBarrier db s = Returns (True, s1) \<and> rdb_db s1 = Some d \<and> rdb_mine path p s1
    \<and> path d = p \<and> safe d \<and> repr d = rdb_content repr s"
proof -
  note laws = db_lib_laws_D [OF L]
  from s obtain d where d: "rdb_db s = Some d" "path d = p" by (auto simp: rdb_mine_def)
  then show ?thesis
    using kv_db_laws_D(11,12) [OF laws(1), of d] laws(5,6) [of d]
    by (simp add: rdb_writeBarrier_def rdb_mine_def rdb_content_def split_beta)
qed

lemma rdb_create_ok:
  assumes "fst (dl_destroy L p f)" and "dl_open L (rdb_options cfg) p (if ow then snd (dl_destroy L p f) else f) = (Some d, f')"
  shows "\<exists>s. rdb_create L cfg p ow f = Returns (s, f') \<and> rdb_db s = Some d"
  using assms by (simp add: rdb_create_def db_create_def rdb_new_def rdb_dbCleanup_def Let_def)

lemma rdb_disk_store:
  assumes L: "db_lib_laws L db repr path safe"
  shows "disk_store (rdb_ops db) rdb_ok (rdb_content repr) (\<lambda>_. True) (\<lambda>_. True) (rdb_create L cfg p)
    (rdb_close_disk db L) (rdb_mine path p) (\<lambda>s. rdb_db s = None) (db_keeps L repr path safe p)"
proof (intro disk_store.intro disk_store_axioms.intro rdb_store_contract db_lib_laws_D(1) [OF L])
  note laws = db_lib_laws_D [OF L]
  show "rdb_mine path p s'" if "rdb_mine path p s" "op_batchMutation (rdb_ops db) t k v flush s = Returns (b, s')" for s t k v flush b s'
    using that laws(2,3) by (cases t) (auto simp: rdb_ops_def rdb_batchMutation_def rdb_mine_def split_beta)
  show "rdb_mine path p s'" if "rdb_mine path p s" "op_writeBarrier (rdb_ops db) s = Returns (b, s')" for s b s'
    using that laws(5) by (auto simp: rdb_ops_def rdb_writeBarrier_def rdb_mine_def split_beta)
  show "\<exists>s f'. rdb_create L cfg p True f = Returns (s, f') \<and> rdb_ok s \<and> rdb_mine path p s \<and> rdb_content repr s = Map.empty" for f
  proof -
    from laws(8) [of "rdb_options cfg" p f] obtain d f' where
      "dl_open L (rdb_options cfg) p (snd (dl_destroy L p f)) = (Some d, f')" "path d = p" "repr d = Map.empty" by blast
    with rdb_create_ok [where L = L and p = p and f = f and cfg = cfg and ow = True] laws(7) [of p f] show ?thesis
      by (fastforce simp: rdb_ok_def rdb_mine_def rdb_content_def)
  qed
  show "\<exists>s f'. rdb_create L cfg p False f = Returns (s, f') \<and> rdb_ok s \<and> rdb_mine path p s \<and> True
      \<and> True \<and> rdb_content repr s = m" if "db_keeps L repr path safe p m f" for m f
  proof -
    from that obtain d f0 where d: "safe d" "path d = p" "repr d = m" "f = dl_delete L d f0" by (auto simp: db_keeps_def)
    from laws(9) [OF d(1), of "rdb_options cfg" f0] d obtain d' f' where
      "dl_open L (rdb_options cfg) p f = (Some d', f')" "path d' = p" "repr d' = m" by blast
    with rdb_create_ok [where L = L and p = p and f = f and cfg = cfg and ow = False] laws(7) [of p f] show ?thesis
      by (fastforce simp: rdb_ok_def rdb_mine_def rdb_content_def)
  qed
  show "\<exists>s' f'. rdb_close_disk db L (s, f) = Returns (s', f') \<and> rdb_db s' = None
      \<and> db_keeps L repr path safe p (rdb_content repr s) f'" if s: "rdb_ok s" "rdb_mine path p s" for s f
    using rdb_barrier_open [OF L s] s(1) by (auto simp: rdb_close_disk_def rdb_ok_def intro: db_keepsI)
  show "rdb_close_disk db L (s, f) = Returns (s, f)" if "rdb_db s = None" for s f
    using that by (simp add: rdb_close_disk_def)
qed

section \<open>Databases on a disk in memory\<close>

text \<open>A disk maps paths to operations; a handle is a path with the operations.\<close>

type_synonym mem_handle = "string \<times> write_op list"

definition path_db :: "mem_handle kv_db" where
  "path_db = \<lparr>kd_get = (\<lambda>k d. kd_get mem_db k (snd d)),
     kd_put = (\<lambda>k v d. (True, fst d, snd d @ [WPut k v])), kd_delete = (\<lambda>k d. (True, fst d, snd d @ [WDelete k])),
     kd_write = (\<lambda>ws d. (True, fst d, snd d @ ws)), kd_seek = (\<lambda>k d. kd_seek mem_db k (snd d)),
     kd_iter_ok = (\<lambda>d. True), kd_flush = (\<lambda>d. (True, d))\<rparr>"

definition mem_lib :: "('o, mem_handle, string \<rightharpoonup> write_op list) db_lib" where
  "mem_lib = \<lparr>dl_destroy = (\<lambda>p f. (True, f(p := None))),
     dl_open = (\<lambda>opt p f. (Some (p, case f p of None \<Rightarrow> [] | Some d \<Rightarrow> d), f)),
     dl_delete = (\<lambda>d f. f(fst d \<mapsto> snd d))\<rparr>"

lemma path_db_laws: "kv_db_laws path_db (\<lambda>d. mem_repr (snd d))"
  using mem_db_laws by (simp add: kv_db_laws_def path_db_def mem_db_def)

lemma mem_lib_laws: "db_lib_laws mem_lib path_db (\<lambda>d. mem_repr (snd d)) fst (\<lambda>_. True)"
  using path_db_laws
  by (simp add: db_lib_laws_def) (simp add: path_db_def mem_lib_def mem_repr_def)

text \<open>The same without a log: a handle also has what was flushed, and its deletion keeps no more.\<close>

type_synonym lazy_handle = "string \<times> write_op list \<times> write_op list"

definition lazy_db :: "lazy_handle kv_db" where
  "lazy_db = \<lparr>kd_get = (\<lambda>k (p, fl, d). kd_get mem_db k d),
     kd_put = (\<lambda>k v (p, fl, d). (True, p, fl, d @ [WPut k v])), kd_delete = (\<lambda>k (p, fl, d). (True, p, fl, d @ [WDelete k])),
     kd_write = (\<lambda>ws (p, fl, d). (True, p, fl, d @ ws)), kd_seek = (\<lambda>k (p, fl, d). kd_seek mem_db k d),
     kd_iter_ok = (\<lambda>d. True), kd_flush = (\<lambda>(p, fl, d). (True, p, d, d))\<rparr>"

definition lazy_lib :: "('o, lazy_handle, string \<rightharpoonup> write_op list) db_lib" where
  "lazy_lib = \<lparr>dl_destroy = (\<lambda>p f. (True, f(p := None))),
     dl_open = (\<lambda>opt p f. let d = (case f p of None \<Rightarrow> [] | Some d \<Rightarrow> d) in (Some (p, d, d), f)),
     dl_delete = (\<lambda>(p, fl, d) f. f(p \<mapsto> fl))\<rparr>"

lemma lazy_lib_laws:
  "db_lib_laws lazy_lib lazy_db (\<lambda>(p, fl, d). mem_repr d) fst (\<lambda>(p, fl, d). fl = d)"
proof -
  have "kv_db_laws lazy_db (\<lambda>(p, fl, d). mem_repr d)"
    using mem_db_laws by (simp add: kv_db_laws_def lazy_db_def mem_db_def split_beta)
  then show ?thesis
    by (simp add: db_lib_laws_def) (simp add: lazy_db_def lazy_lib_def mem_repr_def split_beta)
qed

interpretation ldb_disk: disk_store "ldb_ops path_db" ldb_ok "ldb_content (\<lambda>d. mem_repr (snd d))" ldb_readable ldb_readable
  "ldb_create mem_lib cfg p" "ldb_close_disk path_db mem_lib" "ldb_mine fst p" "\<lambda>s. ldb_db s = None"
  "db_keeps (mem_lib :: (leveldb_options, mem_handle, _) db_lib) (\<lambda>d. mem_repr (snd d)) fst (\<lambda>_. True) p" for cfg p
  by (rule ldb_disk_store [OF mem_lib_laws])

interpretation rdb_disk: disk_store "rdb_ops lazy_db" rdb_ok "rdb_content (\<lambda>(p, fl, d). mem_repr d)" "\<lambda>_. True" "\<lambda>_. True"
  "rdb_create lazy_lib cfg p" "rdb_close_disk lazy_db lazy_lib" "rdb_mine fst p" "\<lambda>s. rdb_db s = None"
  "db_keeps (lazy_lib :: (rocksdb_options, lazy_handle, _) db_lib) (\<lambda>(p, fl, d). mem_repr d) fst (\<lambda>(p, fl, d). fl = d) p" for cfg p
  by (rule rdb_disk_store [OF lazy_lib_laws])

section \<open>The benchmark programs\<close>

definition leveldb_bench ::
  "'d kv_db \<Rightarrow> (leveldb_options, 'd, 'f) db_lib \<Rightarrow> bm_config \<Rightarrow> lsmio_config \<Rightarrow> ('d ldb_store, 'f) lc_state bm_ops" where
  "leveldb_bench db L bc cfg = lc_bench (ldb_disk_ops db L)
     (ldb_create L cfg (genDBPath bc (cfg_alwaysFlush cfg) (cfg_useBloomFilter cfg))) (cfg_alwaysFlush cfg)"

definition rocksdb_bench ::
  "'d kv_db \<Rightarrow> (rocksdb_options, 'd, 'f) db_lib \<Rightarrow> bm_config \<Rightarrow> lsmio_config \<Rightarrow> ('d rdb_store, 'f) lc_state bm_ops" where
  "rocksdb_bench db L bc cfg = lc_bench (rdb_disk_ops db L)
     (rdb_create L cfg (genDBPath bc (cfg_alwaysFlush cfg) (cfg_useBloomFilter cfg))) (cfg_alwaysFlush cfg)"

lemma bench_log_plain [simp]: "plain_values (bench_log vs c is)"
proof -
  have "snd e \<noteq> MEMTABLE_TOMBSTONE" if "e \<in> set (bench_log vs c is)" for e
  proof -
    from that obtain j where "e = (bench_key (is ! j), bench_value vs (c + j))" by (auto simp: bench_log_set)
    then show ?thesis by simp
  qed
  then show ?thesis by (simp add: plain_values_def)
qed

context disk_store
begin

lemma bench_ok:
  assumes "\<not> bt_isStarted (be_timer be)" and "be_iterations be = []" and "\<forall>r \<in> set rs. round_ok bc r"
    and "8 \<le> bc_valueSize bc"
  shows "\<exists>be'. bench_rounds (lc_bench (on_disk ops close) create flush) bc bytes nops rs be = Returns be'
    \<and> named ''iwrite'' (be_iterations be') = map (\<lambda>(perm, tw, tr). ((snd tw - fst tw) div 1000, bytes, nops)) rs
    \<and> named ''iread'' (be_iterations be') = map (\<lambda>(perm, tw, tr). ((snd tr - fst tr) div 1000, bytes, nops)) rs"
  using durable.lc_rounds_ok [OF TrueI assms(1), of rs bc flush bytes nops] assms(2-4) by auto

lemmas bench_contract = durable.lc_program

end

text \<open>
  Every round of the benchmark of the LevelDB store succeeds, whatever its batches hold when the write
  pass ends, for every library that keeps what is written when its handle is deleted.
\<close>

theorem leveldb_benchmark_succeeds:
  assumes L: "db_lib_laws L db repr path (\<lambda>_. True)"
    and be: "\<not> bt_isStarted (be_timer be)" "be_iterations be = []" and rs: "\<forall>r \<in> set rs. round_ok bc r"
    and vs: "8 \<le> bc_valueSize bc"
  shows "\<exists>be'. bench_rounds (leveldb_bench db L bc cfg) bc bytes nops rs be = Returns be'
    \<and> named ''iwrite'' (be_iterations be') = map (\<lambda>(perm, tw, tr). ((snd tw - fst tw) div 1000, bytes, nops)) rs
    \<and> named ''iread'' (be_iterations be') = map (\<lambda>(perm, tw, tr). ((snd tr - fst tr) div 1000, bytes, nops)) rs"
  unfolding leveldb_bench_def ldb_disk_ops_def
  by (rule disk_store.bench_ok [OF ldb_disk_store [OF L] be rs vs])

theorem leveldb_benchmark_succeeds_witness:
  "\<exists>be'. bench_rounds (leveldb_bench path_db mem_lib sample_bc default_config) sample_bc 24 3
      [([2, 0, 1], (0, 5000), (0, 3000))]
      (\<lparr>be_timer = bt_new, be_iterations = [], be_world = (None, Map.empty)\<rparr> :: (int, _) bench) = Returns be'
    \<and> named ''iread'' (be_iterations be') = [(3, 24, 3)]"
proof -
  have "\<forall>r \<in> set [([2, 0, 1], (0, 5000), (0, 3000))]. round_ok sample_bc r"
    by (auto simp: round_ok_def sample_bc_def atLeastLessThan_nat_numeral)
  from leveldb_benchmark_succeeds [OF mem_lib_laws _ _ this, of "\<lparr>be_timer = bt_new, be_iterations = [], be_world = (None, Map.empty)\<rparr>"
      default_config "24 :: int" 3] show ?thesis
    by (auto simp: bt_new_def sample_bc_def bm_default_def)
qed



end
