(* ===== verification/Bm_Adios.thy ===== *)
theory Bm_Adios
  imports Plugin_Laws Bm_Programs
begin

text \<open>
  The program \<open>benchmark/bm_adios.cpp\<close>, which writes its keys as variables of an engine of ADIOS2, and
  its run over the engine of this repository: the passes open, write, close, open again and read through
  the plug-in, the manager and a store. The locale \<open>plugin_program\<close> has what that needs, a store which
  goes on where it was closed: also the engine that reads writes metadata when it is closed.
\<close>

section \<open>What the program uses of an engine\<close>

text \<open>
  \<open>DeclareIO\<close> with \<open>SetParameters\<close> and \<open>Open\<close>, \<open>DefineVariable\<close>, \<open>InquireVariable\<close> and the calls of the
  engine; the variables are strings. The first component of \<open>en_open\<close> is the name of the \<open>IO\<close>;
  \<open>en_destroy\<close> is what \<open>RemoveIO\<close> does to the engine.
\<close>

record ('e, 'f) engine =
  en_open :: "string \<Rightarrow> (string \<times> string) list \<Rightarrow> open_mode \<Rightarrow> lsmio_config \<Rightarrow> 'f \<Rightarrow> ('e \<times> lsmio_config) outcome"
  en_beginStep :: "'e \<Rightarrow> 'e outcome"
  en_define :: "string \<Rightarrow> 'e \<Rightarrow> 'e outcome"
  en_put :: "lsmio_config \<Rightarrow> string \<Rightarrow> string \<Rightarrow> launch \<Rightarrow> 'e \<Rightarrow> 'e outcome"
  en_get :: "lsmio_config \<Rightarrow> string \<Rightarrow> 'e \<Rightarrow> (string \<times> 'e) outcome"
  en_performPuts :: "lsmio_config \<Rightarrow> 'e \<Rightarrow> 'e outcome"
  en_endStep :: "lsmio_config \<Rightarrow> 'e \<Rightarrow> 'e outcome"
  en_close :: "lsmio_config \<Rightarrow> 'e \<times> 'f \<Rightarrow> ('e \<times> 'f) outcome"
  en_destroy :: "'e \<times> 'f \<Rightarrow> 'f outcome"

record ('e, 'f) ab_state =
  ab_ioName :: string
  ab_writer :: "'e option"
  ab_reader :: "'e option"
  ab_cfg :: lsmio_config
  ab_disk :: 'f

section \<open>The program\<close>

definition ab_ioPrefix :: "bm_config \<Rightarrow> string" where
  "ab_ioPrefix bc = ''bm:plugin:'' @ show_bool (bc_useLSMIOPlugin bc)"

definition ab_path :: "bm_config \<Rightarrow> lsmio_config \<Rightarrow> string" where
  "ab_path bc cfg = genDBPath bc (bc_useLSMIOPlugin bc) (cfg_alwaysFlush cfg)"

definition ab_aggregation :: "lsmio_config \<Rightarrow> string" where
  "ab_aggregation cfg = (if cfg_mpiAggType cfg \<noteq> Shared then ''TwoLevelShm'' else ''EveryoneWrites'')"

definition ab_params :: "bm_config \<Rightarrow> lsmio_config \<Rightarrow> (string \<times> string) list" where
  "ab_params bc cfg =
     (if bc_enableCollectiveIO bc then [(''AggregationType'', ab_aggregation cfg)] else [])
     @ [(''Threads'', ''0''), (''BufferChunkSize'', to_string_int (cfg_writeBufferSize cfg)),
        (''StripeSize'', to_string_int (cfg_transferSize cfg)), (''MinDeferredSize'', to_string_int (cfg_transferSize cfg))]
     @ (if bc_useLSMIOPlugin bc
        then [(''PluginName'', ''LSMIOPlugin''), (''PluginLibrary'', ''liblsmio_adios''), (''FileName'', ab_path bc cfg)]
        else [])"

definition ab_open ::
  "('e, 'f) engine \<Rightarrow> bm_config \<Rightarrow> string \<Rightarrow> open_mode \<Rightarrow> ('e, 'f) ab_state \<Rightarrow> ('e \<times> ('e, 'f) ab_state) outcome" where
  "ab_open E bc role mode w = (let name = ab_ioPrefix bc @ role in
     bind_outcome (en_open E name (ab_params bc (ab_cfg w)) mode (ab_cfg w) (ab_disk w)) (\<lambda>(e, cfg').
       bind_outcome (en_beginStep E e) (\<lambda>e'. Returns (e', w\<lparr>ab_ioName := name, ab_cfg := cfg'\<rparr>))))"

definition ab_writePrepare :: "('e, 'f) engine \<Rightarrow> bm_config \<Rightarrow> ('e, 'f) ab_state \<Rightarrow> ('e, 'f) ab_state outcome" where
  "ab_writePrepare E bc w = bind_outcome (ab_open E bc ''-writer'' Write w) (\<lambda>(e, w'). Returns (w'\<lparr>ab_writer := Some e\<rparr>))"

definition ab_readPrepare :: "('e, 'f) engine \<Rightarrow> bm_config \<Rightarrow> ('e, 'f) ab_state \<Rightarrow> ('e, 'f) ab_state outcome" where
  "ab_readPrepare E bc w = bind_outcome (ab_open E bc ''-reader'' Read w) (\<lambda>(e, w'). Returns (w'\<lparr>ab_reader := Some e\<rparr>))"

definition ab_doWrite ::
  "('e, 'f) engine \<Rightarrow> key \<Rightarrow> val \<Rightarrow> ('e, 'f) ab_state \<Rightarrow> (bool \<times> ('e, 'f) ab_state) outcome" where
  "ab_doWrite E k v w = (case ab_writer w of None \<Rightarrow> Undefined | Some e \<Rightarrow>
     bind_outcome (en_define E k e) (\<lambda>e1.
       bind_outcome (en_put E (ab_cfg w) k v (if cfg_alwaysFlush (ab_cfg w) then Sync else Deferred) e1) (\<lambda>e2.
         Returns (True, w\<lparr>ab_writer := Some e2\<rparr>))))"

definition ab_doRead ::
  "('e, 'f) engine \<Rightarrow> key \<Rightarrow> ('e, 'f) ab_state \<Rightarrow> ((bool \<times> val) \<times> ('e, 'f) ab_state) outcome" where
  "ab_doRead E k w = (case ab_reader w of None \<Rightarrow> Undefined | Some e \<Rightarrow>
     bind_outcome (en_get E (ab_cfg w) k e) (\<lambda>(v, e'). Returns ((True, v), w\<lparr>ab_reader := Some e'\<rparr>)))"

definition ab_doWriteFinalize :: "('e, 'f) engine \<Rightarrow> ('e, 'f) ab_state \<Rightarrow> ('e, 'f) ab_state outcome" where
  "ab_doWriteFinalize E w = (case ab_writer w of None \<Rightarrow> Undefined | Some e \<Rightarrow>
     bind_outcome (en_performPuts E (ab_cfg w) e) (\<lambda>e1.
       bind_outcome (en_endStep E (ab_cfg w) e1) (\<lambda>e2.
         bind_outcome (en_close E (ab_cfg w) (e2, ab_disk w)) (\<lambda>(e3, f).
           Returns (w\<lparr>ab_writer := Some e3, ab_disk := f\<rparr>)))))"

definition ab_doReadFinalize :: "('e, 'f) engine \<Rightarrow> ('e, 'f) ab_state \<Rightarrow> ('e, 'f) ab_state outcome" where
  "ab_doReadFinalize E w = (case ab_reader w of None \<Rightarrow> Undefined | Some e \<Rightarrow>
     bind_outcome (en_endStep E (ab_cfg w) e) (\<lambda>e1.
       bind_outcome (en_close E (ab_cfg w) (e1, ab_disk w)) (\<lambda>(e2, f).
         Returns (w\<lparr>ab_reader := Some e2, ab_disk := f\<rparr>))))"

text \<open>\<open>RemoveIO\<close> with \<open>delete _adios\<close>: the engines of the \<open>IO\<close> are gone.\<close>

definition ab_remove :: "('e, 'f) engine \<Rightarrow> 'e option \<Rightarrow> ('e, 'f) ab_state \<Rightarrow> ('e, 'f) ab_state outcome" where
  "ab_remove E e w = (case e of None \<Rightarrow> Undefined | Some e \<Rightarrow>
     bind_outcome (en_destroy E (e, ab_disk w)) (\<lambda>f. Returns (w\<lparr>ab_ioName := [], ab_disk := f\<rparr>)))"

definition ab_writeCleanup :: "('e, 'f) engine \<Rightarrow> ('e, 'f) ab_state \<Rightarrow> ('e, 'f) ab_state outcome" where
  "ab_writeCleanup E w = bind_outcome (ab_remove E (ab_writer w) w) (\<lambda>w'. Returns (w'\<lparr>ab_writer := None\<rparr>))"

definition ab_readCleanup :: "('e, 'f) engine \<Rightarrow> ('e, 'f) ab_state \<Rightarrow> ('e, 'f) ab_state outcome" where
  "ab_readCleanup E w = bind_outcome (ab_remove E (ab_reader w) w) (\<lambda>w'. Returns (w'\<lparr>ab_reader := None\<rparr>))"

definition adios_bench :: "('e, 'f) engine \<Rightarrow> bm_config \<Rightarrow> ('e, 'f) ab_state bm_ops" where
  "adios_bench E bc = \<lparr>bo_doRead = ab_doRead E, bo_doWrite = ab_doWrite E, bo_writePrepare = ab_writePrepare E bc,
     bo_doWriteFinalize = ab_doWriteFinalize E, bo_writeCleanup = ab_writeCleanup E,
     bo_readPrepare = ab_readPrepare E bc, bo_doReadFinalize = ab_doReadFinalize E, bo_readCleanup = ab_readCleanup E\<rparr>"

lemmas ab_ops_defs = ab_doRead_def ab_doWrite_def ab_writePrepare_def ab_doWriteFinalize_def ab_writeCleanup_def
  ab_readPrepare_def ab_doReadFinalize_def ab_readCleanup_def ab_open_def ab_remove_def

section \<open>The plug-in as an engine\<close>

text \<open>
  What an application uses of ADIOS2 to declare an \<open>IO\<close>: its name and parameters, and the type of a
  string. A new \<open>IO\<close> has no variables and the parameters it was given.
\<close>

record ('io, 'dt) adios_app =
  aa_declare :: "string \<Rightarrow> (string \<times> string) list \<Rightarrow> 'io"
  aa_string :: 'dt

definition adios_app_laws :: "('io, 'dt) adios \<Rightarrow> ('io, 'dt) adios_app \<Rightarrow> bool" where
  "adios_app_laws A L \<longleftrightarrow> adios_laws A \<and> ad_std A (aa_string L)
     \<and> (\<forall>n ps. ad_variables A (aa_declare L n ps) = []
          \<and> (map_of ps ''DirName'' = None \<longrightarrow> ad_parameter A (aa_declare L n ps) ''DirName'' False = Returns [])
          \<and> (\<forall>v. map_of ps ''FileName'' = Some v \<longrightarrow> ad_parameter A (aa_declare L n ps) ''FileName'' True = Returns v))"

definition string_var :: "('io, 'dt) adios_app \<Rightarrow> string \<Rightarrow> 'dt adios_var" where
  "string_var L k = \<lparr>va_name = k, va_type = aa_string L, va_shape = [], va_start = [], va_count = []\<rparr>"

text \<open>\<open>EngineCreate\<close> and \<open>EngineDestroy\<close>; the communicator is that of the program with collective IO.\<close>

definition app_env :: "bm_config \<Rightarrow> mpi_env \<Rightarrow> mpi_env" where
  "app_env bc env = env\<lparr>me_adios := (if bc_enableCollectiveIO bc then Some True else None), me_mpi := False\<rparr>"

definition engineDestroy :: "('l \<times> 'f) store_ops \<Rightarrow> ('l \<times> 'f, 'io) plugin \<times> 'f \<Rightarrow> 'f outcome" where
  "engineDestroy ops s = bind_outcome (plugin_delete ops (fst s)) (\<lambda>left.
     Returns (case left of None \<Rightarrow> snd s | Some s' \<Rightarrow> snd s'))"

definition plugin_close ::
  "('io, 'dt) adios \<Rightarrow> ('l \<times> 'f) store_ops \<Rightarrow> lsmio_config \<Rightarrow> ('l \<times> 'f, 'io) plugin \<times> 'f
    \<Rightarrow> (('l \<times> 'f, 'io) plugin \<times> 'f) outcome" where
  "plugin_close A ops cfg s = bind_outcome (DoClose A ops cfg (fst s)) (\<lambda>(e, left).
     Returns (e, case left of None \<Rightarrow> snd s | Some s' \<Rightarrow> snd s'))"

definition plugin_engine ::
  "('io, 'dt) adios \<Rightarrow> ('io, 'dt) adios_app \<Rightarrow> ('f \<Rightarrow> storage_type \<Rightarrow> string \<Rightarrow> bool \<Rightarrow> ('l \<times> 'f) outcome)
    \<Rightarrow> ('l \<times> 'f) store_ops \<Rightarrow> mpi_env \<Rightarrow> ('l \<times> 'f) manager \<Rightarrow> (('l \<times> 'f, 'io) plugin, 'f) engine" where
  "plugin_engine A L make_store ops env agg = \<lparr>
     en_open = (\<lambda>name ps mode cfg f. plugin_new A (make_store f) ops cfg env mode agg (aa_declare L name ps)),
     en_beginStep = (\<lambda>e. Returns (snd (BeginStep e))),
     en_define = (\<lambda>k e. bind_outcome (ad_define A (string_var L k) (pl_io e)) (\<lambda>io. Returns (e\<lparr>pl_io := io\<rparr>))),
     en_put = (\<lambda>cfg k v mode e. WriteVariable_string ops cfg k [v] mode e),
     en_get = (\<lambda>cfg k e. case ad_inquire A (aa_string L) k (pl_io e) of None \<Rightarrow> Throws ''std::invalid_argument''
        | Some x \<Rightarrow> bind_outcome (ReadVariable_string ops cfg (va_name x) [[]] e) (\<lambda>(bs, e'). Returns (hd bs, e'))),
     en_performPuts = PerformPuts A ops, en_endStep = EndStep A ops, en_close = plugin_close A ops,
     en_destroy = engineDestroy ops\<rparr>"

lemmas plugin_engine_simps = plugin_engine_def plugin_new_def BeginStep_def

section \<open>The passes over the plug-in\<close>

lemma string_var_simps [simp]:
  "va_name (string_var L k) = k" "va_type (string_var L k) = aa_string L"
  "string_var L k = string_var L k' \<longleftrightarrow> k = k'"
  by (simp_all add: string_var_def)

lemma adios_app_laws_D:
  assumes "adios_app_laws A L"
  shows "adios_laws A" and "ad_std A (aa_string L)" and "ad_variables A (aa_declare L n ps) = []"
    and "map_of ps ''DirName'' = None \<Longrightarrow> ad_parameter A (aa_declare L n ps) ''DirName'' False = Returns []"
    and "map_of ps ''FileName'' = Some v \<Longrightarrow> ad_parameter A (aa_declare L n ps) ''FileName'' True = Returns v"
  using assms by (simp_all add: adios_app_laws_def)

lemma adios_laws_distinct: "adios_laws A \<Longrightarrow> distinct (ad_variables A io)"
  unfolding adios_laws_def by (simp add: distinct_map)

lemma adios_laws_inquire:
  "adios_laws A \<Longrightarrow> ad_inquire A t n io = find (\<lambda>v. va_type v = t \<and> va_name v = n) (ad_variables A io)"
  by (simp add: adios_laws_def)

lemma adios_laws_define:
  "adios_laws A \<Longrightarrow> va_name v \<notin> va_name ` set (ad_variables A io) \<Longrightarrow>
    \<exists>io'. ad_define A v io = Returns io' \<and> set (ad_variables A io') = insert v (set (ad_variables A io))"
  by (simp add: adios_laws_def)

text \<open>The variables of an \<open>IO\<close> into which the keys of a log have been written, and their metadata.\<close>

definition app_vars :: "('io, 'dt) adios \<Rightarrow> ('io, 'dt) adios_app \<Rightarrow> (key \<times> val) list \<Rightarrow> 'io \<Rightarrow> bool" where
  "app_vars A L h io \<longleftrightarrow> set (ad_variables A io) = string_var L ` fst ` set h"

definition app_metas :: "('io, 'dt) adios \<Rightarrow> 'dt adios_var list \<Rightarrow> (key \<times> val) list" where
  "app_metas A vs = map (\<lambda>v. (meta_prefix @ va_name v, WriteVariableInfo A v)) vs"

definition app_listing :: "('io, 'dt) adios_app \<Rightarrow> (key \<times> val) list \<Rightarrow> 'dt adios_var list \<Rightarrow> bool" where
  "app_listing L h vs \<longleftrightarrow> distinct vs \<and> set vs = string_var L ` fst ` set h"

definition app_log :: "('io, 'dt) adios \<Rightarrow> (key \<times> val) list \<Rightarrow> 'dt adios_var list \<Rightarrow> (key \<times> val) list" where
  "app_log A h vs = h @ app_metas A vs @ app_metas A vs @ app_metas A vs"

lemma app_listing_io: "adios_laws A \<Longrightarrow> app_vars A L h io \<Longrightarrow> app_listing L h (ad_variables A io)"
  by (simp add: app_listing_def app_vars_def adios_laws_distinct)

text \<open>The limits: those of the store, for the log with the metadata in any order.\<close>

definition app_key :: "key \<Rightarrow> bool" where
  "app_key k \<longleftrightarrow> k \<noteq> [] \<and> \<not> prefix meta_prefix k \<and> CHR '';'' \<notin> set k"

definition app_fits ::
  "('io, 'dt) adios \<Rightarrow> ('io, 'dt) adios_app \<Rightarrow> ((key \<times> val) list \<Rightarrow> bool) \<Rightarrow> (key \<times> val) list \<Rightarrow> bool" where
  "app_fits A L fits h \<longleftrightarrow> distinct (map fst h) \<and> (\<forall>(k, v) \<in> set h. app_key k \<and> v \<noteq> MEMTABLE_TOMBSTONE)
     \<and> (\<forall>vs vs'. app_listing L h vs \<and> app_listing L h vs' \<longrightarrow> fits (app_log A h vs @ app_metas A vs'))"

lemma app_listing_exists:
  "distinct (map fst h) \<Longrightarrow> app_listing L h (map (\<lambda>e. string_var L (fst e)) h)"
  by (auto simp: app_listing_def distinct_map inj_on_def image_image)

lemma app_listing_append:
  assumes "app_listing L h vs" and "distinct (map fst (h @ h'))"
  shows "app_listing L (h @ h') (vs @ map (\<lambda>e. string_var L (fst e)) h')"
proof -
  have "distinct (map (\<lambda>e. string_var L (fst e)) h')" using assms(2) by (auto simp: distinct_map inj_on_def)
  moreover have "K \<inter> K' = {} \<Longrightarrow> string_var L ` K \<inter> string_var L ` K' = {}" for K K' by auto
  then have "string_var L ` fst ` set h \<inter> string_var L ` fst ` set h' = {}" using assms(2) by simp
  ultimately show ?thesis using assms(1) by (simp add: app_listing_def image_image image_Un)
qed

lemma app_log_subseq:
  "subseq (app_log A h vs @ app_metas A vs') (app_log A (h @ h') (vs @ ws) @ app_metas A (vs' @ ws))"
proof -
  have h: "subseq h (h @ h')" by (rule subseq_rev_drop_many) simp
  have m: "subseq (app_metas A us) (app_metas A (us @ ws))" for us
    unfolding app_metas_def map_append by (rule subseq_rev_drop_many) simp
  show ?thesis unfolding app_log_def by (intro list_emb_append_mono h m)
qed

lemma app_fits_log:
  assumes "app_fits A L fits h" and "app_listing L h vs" and "app_listing L h vs'"
  shows "fits (app_log A h vs @ app_metas A vs')"
  using assms by (simp add: app_fits_def)

lemma app_fits_keys:
  assumes "app_fits A L fits h" and "(k, v) \<in> set h"
  shows "app_key k" and "v \<noteq> MEMTABLE_TOMBSTONE"
  using assms by (auto simp: app_fits_def)

lemma app_metas_lookup: "entries_map (app_metas A vs) k \<noteq> None \<Longrightarrow> prefix meta_prefix k"
  by (auto simp: app_metas_def entries_map_def dest!: map_of_SomeD)

lemma app_log_map: "entries_map (app_log A h vs) = entries_map (h @ app_metas A vs @ app_metas A vs)"
  by (auto simp: app_log_def entries_map_append map_add_def fun_eq_iff split: option.split)

lemma app_log_lookup:
  assumes "app_key k"
  shows "entries_map (app_log A h vs) k = entries_map h k"
  using assms app_metas_lookup [of A vs k]
  by (auto simp: app_log_map entries_map_append app_key_def map_add_def split: option.split)

text \<open>The log of the program is that of a session which puts single strings.\<close>

lemma app_session:
  assumes "ad_std A (aa_string L)" and "app_vars A L h io"
  shows "std_vars A io = ad_variables A io"
    and "entries_map (app_log A h (ad_variables A io)) = entries_map (session_log A (\<lambda>s. s) (map (\<lambda>(k, v). (k, [v])) h) io)"
    and "app_fits A L fits h \<Longrightarrow> session_ok A (\<lambda>s. s) (map (\<lambda>(k, v). (k, [v])) h) io"
proof -
  show std: "std_vars A io = ad_variables A io"
    using assms by (auto simp: std_vars_def app_vars_def intro!: filter_True)
  have "map (\<lambda>(name, vs). (name, value_text (\<lambda>s. s) vs)) (map (\<lambda>(k, v). (k, [v])) h) = h"
    by (induction h) auto
  then show "entries_map (app_log A h (ad_variables A io)) = entries_map (session_log A (\<lambda>s. s) (map (\<lambda>(k, v). (k, [v])) h) io)"
    using std by (simp add: app_log_map session_log_def Let_def app_metas_def std_vars_def)
  show "session_ok A (\<lambda>s. s) (map (\<lambda>(k, v). (k, [v])) h) io" if "app_fits A L fits h"
  proof -
    have "distinct (map fst (map (\<lambda>(k, v). (k, [v])) h))" using that by (simp add: app_fits_def comp_def split_beta)
    moreover have "var_ok A v" if "v \<in> set (ad_variables A io)" for v
      using that assms \<open>app_fits A L fits h\<close>
      by (auto simp: app_vars_def var_ok_def app_fits_def app_key_def string_var_def)
    ultimately show ?thesis using that by (fastforce simp: session_ok_def app_fits_def app_key_def)
  qed
qed

locale plugin_program = resumable_store ops create disk fits at closed reopened
  for ops :: "('l \<times> 'f) store_ops"
    and create :: "bool \<Rightarrow> 'f \<Rightarrow> ('l \<times> 'f) outcome"
    and disk :: "'f \<Rightarrow> bool"
    and fits :: "(key \<times> val) list \<Rightarrow> bool"
    and at closed reopened :: "(key \<times> val) list \<Rightarrow> 'l \<times> 'f \<Rightarrow> bool" +
  fixes A :: "('io, 'dt) adios"
    and L :: "('io, 'dt) adios_app"
    and make_store :: "'f \<Rightarrow> storage_type \<Rightarrow> string \<Rightarrow> bool \<Rightarrow> ('l \<times> 'f) outcome"
    and bc :: bm_config
    and cfg :: lsmio_config
    and env :: mpi_env
    and agg :: "('l \<times> 'f) manager"
  assumes app: "adios_app_laws A L"
    and builds: "make_store f (cfg_storageType cfg) (ab_path bc cfg) ow = create ow f"
    and plug: "bc_useLSMIOPlugin bc"
    and own: "\<not> bc_enableCollectiveIO bc"
begin

abbreviation E :: "(('l \<times> 'f, 'io) plugin, 'f) engine" where
  "E \<equiv> plugin_engine A L make_store ops (app_env bc env) agg"

lemmas app_laws = adios_app_laws_D [OF app]

definition writing :: "(key \<times> val) list \<Rightarrow> (('l \<times> 'f, 'io) plugin, 'f) ab_state \<Rightarrow> bool" where
  "writing h w \<longleftrightarrow> ab_cfg w = cfg \<and> (\<exists>e. ab_writer w = Some e \<and> pl_mode e = Write \<and> holds h (pl_peers e) \<and> app_vars A L h (pl_io e))"

definition written :: "(key \<times> val) list \<Rightarrow> (('l \<times> 'f, 'io) plugin, 'f) ab_state \<Rightarrow> bool" where
  "written h w \<longleftrightarrow> ab_cfg w = cfg \<and> app_fits A L fits h \<and> (\<exists>e io l. ab_writer w = Some e \<and> mg_store (fst (pl_peers e)) = None
     \<and> app_vars A L h io \<and> closed (app_log A h (ad_variables A io)) (l, ab_disk w))"

definition cleaned :: "(key \<times> val) list \<Rightarrow> (('l \<times> 'f, 'io) plugin, 'f) ab_state \<Rightarrow> bool" where
  "cleaned h w \<longleftrightarrow> ab_cfg w = cfg \<and> app_fits A L fits h \<and> (\<exists>io l. app_vars A L h io \<and> closed (app_log A h (ad_variables A io)) (l, ab_disk w))"

definition reading :: "(key \<times> val) list \<Rightarrow> (('l \<times> 'f, 'io) plugin, 'f) ab_state \<Rightarrow> bool" where
  "reading h w \<longleftrightarrow> ab_cfg w = cfg \<and> app_fits A L fits h \<and> (\<exists>e vs. ab_reader w = Some e \<and> pl_mode e = Read
     \<and> app_vars A L h (pl_io e) \<and> app_listing L h vs \<and> finds (app_log A h vs) (pl_peers e))"

definition finished :: "(('l \<times> 'f, 'io) plugin, 'f) ab_state \<Rightarrow> bool" where
  "finished w \<longleftrightarrow> ab_cfg w = cfg \<and> disk (ab_disk w) \<and> (\<exists>e. ab_reader w = Some e \<and> mg_store (fst (pl_peers e)) = None)"

lemma opens:
  assumes "create ow f = Returns s" and "ow = (mode = Write)"
  shows "\<exists>m. alone m \<and> mg_store m = Some s \<and> plugin_init A (make_store f) ops cfg (app_env bc env) mode agg (aa_declare L name (ab_params bc cfg))
    = (let e = \<lparr>pl_mode = mode, pl_io = aa_declare L name (ab_params bc cfg), pl_currentStep = 0, pl_peers = (m, agg)\<rparr> in
       if mode = Read then bind_outcome (mg_metaGetAll ops cfg [] [] (m, agg)) (\<lambda>((success, values), p).
                 bind_outcome (declare_variables A values (aa_declare L name (ab_params bc cfg))) (\<lambda>io'.
                   Returns (e\<lparr>pl_io := io', pl_peers := p\<rparr>, cfg)))
             else Returns (e, cfg))"
proof -
  let ?io = "aa_declare L name (ab_params bc cfg)"
  have env: "\<not> me_mpi (app_env bc env)" "me_adios (app_env bc env) = None" using own by (simp_all add: app_env_def)
  have par: "ad_parameter A ?io ''DirName'' False = Returns []" "ad_parameter A ?io ''FileName'' True = Returns (ab_path bc cfg)"
    using plug own by (auto intro!: app_laws(4,5) simp: ab_params_def)
  have ne: "ab_path bc cfg \<noteq> []" by (simp add: ab_path_def genDBPath_def)
  from builds [of f ow] assms(1) have "make_store f (cfg_storageType cfg) (if [] = ([] :: string) then ab_path bc cfg else [] @ ''/'' @ ab_path bc cfg) ow = Returns s"
    by simp
  from manager_init_alone [OF env, of "make_store f", OF this] obtain m where
    "manager_init (make_store f) cfg (app_env bc env) (ab_path bc cfg) [] ow = Returns m" "alone m" "mg_store m = Some s" by blast
  then show ?thesis using par ne env assms(2) by (auto simp: plugin_init_def Let_def)
qed

lemma app_fits_prefix:
  assumes "app_fits A L fits (h @ h')"
  shows "app_fits A L fits h"
proof -
  have d: "distinct (map fst (h @ h'))" using assms by (simp only: app_fits_def)
  have "fits (app_log A h vs @ app_metas A vs')" if "app_listing L h vs" "app_listing L h vs'" for vs vs'
    using app_fits_log [OF assms app_listing_append [OF that(1) d] app_listing_append [OF that(2) d]]
    by (rule fits_subseq [OF app_log_subseq])
  then show ?thesis using assms by (auto simp: app_fits_def)
qed

lemma app_fits_fits:
  assumes "app_fits A L fits h"
  shows "fits h"
proof -
  have "app_listing L h (map (\<lambda>e. string_var L (fst e)) h)"
    by (rule app_listing_exists) (use assms in \<open>simp add: app_fits_def\<close>)
  from app_fits_log [OF assms this this] show ?thesis unfolding app_log_def append_assoc by (rule fits_prefix)
qed

lemma write_opens:
  assumes "ab_cfg w = cfg" and "disk (ab_disk w)"
  shows "\<exists>w'. ab_writePrepare E bc w = Returns w' \<and> writing [] w'"
proof -
  from fresh [OF assms(2)] obtain s where s: "create True (ab_disk w) = Returns s" "at [] s" by blast
  from opens [OF s(1), of Write] obtain m where m: "alone m" "mg_store m = Some s"
    "plugin_init A (make_store (ab_disk w)) ops cfg (app_env bc env) Write agg (aa_declare L (ab_ioPrefix bc @ ''-writer'') (ab_params bc cfg))
      = Returns (\<lparr>pl_mode = Write, pl_io = aa_declare L (ab_ioPrefix bc @ ''-writer'') (ab_params bc cfg), pl_currentStep = 0,
          pl_peers = (m, agg)\<rparr>, cfg)" by (auto simp: Let_def)
  with s(2) assms(1) app_laws(3) show ?thesis
    by (cases s) (simp add: ab_ops_defs plugin_engine_simps writing_def holds_def app_vars_def Let_def)
qed

lemma write_one:
  assumes w: "writing h w" and fit: "app_fits A L fits (h @ [(k, v)])"
  shows "\<exists>w'. ab_doWrite E k v w = Returns (True, w') \<and> writing (h @ [(k, v)]) w'"
proof -
  from w obtain e where e: "ab_cfg w = cfg" "ab_writer w = Some e" "pl_mode e = Write" "holds h (pl_peers e)"
    "set (ad_variables A (pl_io e)) = string_var L ` fst ` set h" by (auto simp: writing_def app_vars_def)
  have new: "k \<notin> fst ` set h" using fit by (simp add: app_fits_def)
  then have "va_name (string_var L k) \<notin> va_name ` set (ad_variables A (pl_io e))"
    by (simp add: e(5) image_image)
  from adios_laws_define [OF app_laws(1) this] obtain io where
    io: "ad_define A (string_var L k) (pl_io e) = Returns io" "app_vars A L (h @ [(k, v)]) io"
    by (auto simp: app_vars_def e(5))
  from manager_put [OF e(4) app_fits_fits [OF fit], of cfg "cfg_alwaysFlush cfg"] obtain p where
    "mg_put ops cfg k v (cfg_alwaysFlush cfg) (pl_peers e) = Returns (True, p)" "holds (h @ [(k, v)]) p" by blast
  with e(1-3) io show ?thesis
    by (cases "cfg_alwaysFlush cfg") (simp_all add: ab_ops_defs plugin_engine_simps WriteVariable_string_def writing_def)
qed

lemma puts:
  assumes e: "holds h (pl_peers e)" and vs: "filter (\<lambda>v. ad_std A (va_type v)) (ad_variables A (pl_io e)) = vs"
    and fit: "fits (h @ app_metas A vs)"
  shows "\<exists>e'. PerformPuts A ops cfg e = Returns e' \<and> pl_mode e' = pl_mode e \<and> pl_io e' = pl_io e
    \<and> holds (h @ app_metas A vs) (pl_peers e')"
proof -
  have m: "map (meta_entry A) vs = app_metas A vs" by (simp add: app_metas_def meta_entry_def [abs_def])
  have "plugin_at h (pl_io e) e" using e by (simp add: plugin_at_def)
  from PerformPuts_all [OF this app_laws(1), of cfg] fit vs m show ?thesis by (auto simp: plugin_at_def)
qed

lemma app_vars_std: "app_vars A L h io \<Longrightarrow> filter (\<lambda>v. ad_std A (va_type v)) (ad_variables A io) = ad_variables A io"
  using app_session(1) [OF app_laws(2)] by (simp add: std_vars_def)

lemma write_ends:
  assumes w: "writing h w" and fit: "app_fits A L fits h"
  shows "\<exists>w'. ab_doWriteFinalize E w = Returns w' \<and> written h w'"
proof -
  from w obtain e where e: "ab_cfg w = cfg" "ab_writer w = Some e" "pl_mode e = Write" "holds h (pl_peers e)"
    "app_vars A L h (pl_io e)" by (auto simp: writing_def)
  let ?vs = "ad_variables A (pl_io e)"
  let ?ms = "app_metas A ?vs"
  note listing = app_listing_io [OF app_laws(1) e(5)] and std = app_vars_std [OF e(5)]
  from app_fits_log [OF fit listing listing] have fits: "fits (h @ ?ms)" "fits ((h @ ?ms) @ ?ms)" "fits (((h @ ?ms) @ ?ms) @ ?ms)"
    unfolding app_log_def by (auto dest: fits_prefix [of _ ?ms] simp flip: append_assoc)
  from puts [OF e(4) std fits(1)] obtain e1 where e1: "PerformPuts A ops cfg e = Returns e1" "pl_mode e1 = Write"
    "pl_io e1 = pl_io e" "holds (h @ ?ms) (pl_peers e1)" using e(3) by auto
  from puts [OF e1(4), of ?vs] std fits(2) e1(2,3) obtain e2 where e2: "PerformPuts A ops cfg e1 = Returns e2"
    "pl_io e2 = pl_io e" "holds ((h @ ?ms) @ ?ms) (pl_peers e2)" by auto
  let ?e2 = "e2\<lparr>pl_currentStep := pl_currentStep e2 + 1\<rparr>"
  have "holds ((h @ ?ms) @ ?ms) (pl_peers ?e2)" using e2(3) by simp
  from puts [OF this, of ?vs] std fits(3) e2(2) obtain e3 where e3: "PerformPuts A ops cfg ?e2 = Returns e3"
    "holds (((h @ ?ms) @ ?ms) @ ?ms) (pl_peers e3)" by auto
  from manager_closes [OF e3(2) fits(3)] obtain m l f where m: "manager_close ops (fst (pl_peers e3)) = Returns (m, Some (l, f))"
    "mg_store m = None" "closed (((h @ ?ms) @ ?ms) @ ?ms) (l, f)" by (metis prod.collapse)
  have "EndStep A ops cfg e1 = Returns ?e2" using e1(2) e2(1) by (simp add: EndStep_def)
  with e e1(1) e3(1) m fit show ?thesis
    by (auto simp: ab_ops_defs plugin_engine_simps plugin_close_def DoClose_def written_def app_log_def)
qed

lemma write_cleans:
  assumes "written h w"
  shows "\<exists>w'. ab_writeCleanup E w = Returns w' \<and> cleaned h w'"
  using assms
  by (fastforce simp: written_def cleaned_def ab_ops_defs plugin_engine_simps engineDestroy_def plugin_delete_def manager_close_def)

lemma read_opens:
  assumes "cleaned h w"
  shows "\<exists>w'. ab_readPrepare E bc w = Returns w' \<and> reading h w'"
proof -
  from assms obtain io l where w: "ab_cfg w = cfg" "app_fits A L fits h" "app_vars A L h io"
    "closed (app_log A h (ad_variables A io)) (l, ab_disk w)" by (auto simp: cleaned_def)
  let ?h = "app_log A h (ad_variables A io)" and ?g = "\<lambda>v. (meta_prefix @ va_name v, WriteVariableInfo A v)"
  let ?io0 = "aa_declare L (ab_ioPrefix bc @ ''-reader'') (ab_params bc cfg)"
  note session = app_session [OF app_laws(2) w(3)]
  from open_again [OF w(4)] obtain s where s: "create False (ab_disk w) = Returns s" "reopened ?h s" by blast
  from opens [OF s(1), of Read "ab_ioPrefix bc @ ''-reader''"] obtain m where m: "alone m" "mg_store m = Some s"
    "plugin_init A (make_store (ab_disk w)) ops cfg (app_env bc env) Read agg ?io0
      = bind_outcome (mg_metaGetAll ops cfg [] [] (m, agg)) (\<lambda>((success, values), p).
          bind_outcome (declare_variables A values ?io0) (\<lambda>io'.
            Returns (\<lparr>pl_mode = Read, pl_io = io', pl_currentStep = 0, pl_peers = p\<rparr>, cfg)))"
    by (auto simp: Let_def)
  have "meta_prefix \<noteq> []" by (simp add: meta_prefix_def)
  from scan [OF s(2) this] obtain b es where es: "op_getPrefix ops meta_prefix s = Returns (b, es)" "omap_ok es"
    "map_of es = live (entries_map ?h) |` with_prefix meta_prefix" by blast
  obtain vs where vs: "es = map ?g vs" "set vs = set (std_vars A io)" "distinct (map va_name vs)"
    by (rule session_metas [OF app_laws(1) session(3) [OF w(2)] es(2) es(3) [unfolded session(2)]])
  have "\<forall>v \<in> set vs. var_ok A v"
    using session(3) [OF w(2)] by (auto simp: vs(2) session_ok_def std_vars_def)
  from declare_all [OF app_laws(1) this vs(3), of ?io0] obtain io1 where
    io1: "declare_variables A es ?io0 = Returns io1" "set (ad_variables A io1) = set vs" by (auto simp: app_laws(3) vs(1))
  have "isOpenLocal m" using m(1) by (simp add: alone_def)
  with m es(1) io1(1) have init: "plugin_init A (make_store (ab_disk w)) ops cfg (app_env bc env) Read agg ?io0
      = Returns (\<lparr>pl_mode = Read, pl_io = io1, pl_currentStep = 0, pl_peers = (count_read (length es) m, agg)\<rparr>, cfg)"
    by (simp add: mg_metaGetAll_def store_metaGetAll_def)
  have "app_vars A L h io1" using io1(2) vs(2) session(1) w(3) by (simp add: app_vars_def)
  moreover have "finds ?h (count_read (length es) m, agg)" using s(2) m(1,2) by (simp add: finds_def)
  ultimately show ?thesis
    using init w(1,2) app_listing_io [OF app_laws(1) w(3)]
    by (auto simp: ab_ops_defs plugin_engine_simps reading_def Let_def)
qed

lemma read_one:
  assumes w: "reading h w" and k: "entries_map h k = Some v" and v: "v \<noteq> MEMTABLE_TOMBSTONE"
  shows "\<exists>w'. ab_doRead E k w = Returns ((True, v), w') \<and> reading h w'"
proof -
  from w obtain e vs where e: "ab_cfg w = cfg" "app_fits A L fits h" "ab_reader w = Some e" "pl_mode e = Read"
    "app_vars A L h (pl_io e)" "app_listing L h vs" "finds (app_log A h vs) (pl_peers e)" by (auto simp: reading_def)
  have kv: "(k, v) \<in> set h" using k by (auto simp: entries_map_def dest: map_of_SomeD)
  have key: "app_key k" by (rule app_fits_keys [OF e(2) kv])
  have var: "string_var L k \<in> set (ad_variables A (pl_io e))" using e(5) kv by (force simp: app_vars_def)
  have "ad_inquire A (aa_string L) k (pl_io e) \<noteq> None"
    using var by (auto simp: adios_laws_inquire [OF app_laws(1)] find_None_iff intro!: exI [of _ "string_var L k"])
  then obtain x where x: "ad_inquire A (aa_string L) k (pl_io e) = Some x" by blast
  then have "va_name x = k" by (auto simp: adios_laws_inquire [OF app_laws(1)] find_Some_iff)
  moreover from manager_finds [OF e(7) _ _ v, of k cfg "[]"] key k obtain p where
    "mg_get ops cfg k [] (pl_peers e) = Returns ((True, v), p)" "finds (app_log A h vs) p"
    by (auto simp: app_log_lookup app_key_def)
  ultimately show ?thesis
    using e x by (auto simp: ab_ops_defs plugin_engine_simps ReadVariable_string_def reading_def)
qed

lemma read_ends:
  assumes "reading h w"
  shows "\<exists>w'. ab_doReadFinalize E w = Returns w' \<and> finished w'"
proof -
  from assms obtain e vs where e: "ab_cfg w = cfg" "app_fits A L fits h" "ab_reader w = Some e" "pl_mode e = Read"
    "app_vars A L h (pl_io e)" "app_listing L h vs" "finds (app_log A h vs) (pl_peers e)" by (auto simp: reading_def)
  let ?e = "e\<lparr>pl_currentStep := pl_currentStep e + 1\<rparr>"
  have "holds (app_log A h vs) (pl_peers ?e)" using finds_holds [OF e(7)] by simp
  from puts [OF this _ app_fits_log [OF e(2,6) app_listing_io [OF app_laws(1) e(5)]]] app_vars_std [OF e(5)] obtain e1 where
    e1: "PerformPuts A ops cfg ?e = Returns e1"
      "holds (app_log A h vs @ app_metas A (ad_variables A (pl_io e))) (pl_peers e1)" by auto
  from manager_closes [OF e1(2) app_fits_log [OF e(2,6) app_listing_io [OF app_laws(1) e(5)]]] obtain m s where
    m: "manager_close ops (fst (pl_peers e1)) = Returns (m, Some s)" "mg_store m = None"
      "closed (app_log A h vs @ app_metas A (ad_variables A (pl_io e))) s" by blast
  have "EndStep A ops cfg e = Returns ?e" using e(4) by (simp add: EndStep_def)
  with e(1,3) e1(1) m(1,2) closed_disk [OF m(3)] show ?thesis
    by (auto simp: ab_ops_defs plugin_engine_simps plugin_close_def DoClose_def finished_def)
qed

lemma read_cleans:
  assumes "finished w"
  shows "\<exists>w'. ab_readCleanup E w = Returns w' \<and> ab_cfg w' = cfg \<and> disk (ab_disk w')"
  using assms by (auto simp: finished_def ab_ops_defs plugin_engine_simps engineDestroy_def plugin_delete_def manager_close_def)

end

sublocale plugin_program \<subseteq> ab: bench_program "adios_bench E bc" "app_fits A L fits"
  "\<lambda>w. ab_cfg w = cfg \<and> disk (ab_disk w)" writing written cleaned reading finished
proof
  show "app_fits A L fits h" if "app_fits A L fits (h @ h')" for h h' by (rule app_fits_prefix [OF that])
qed (auto simp: adios_bench_def write_opens write_one write_ends write_cleans read_opens read_one read_ends read_cleans)

context plugin_program
begin

lemmas ab_rounds_ok = ab.rounds_ok

end

section \<open>Over the native store\<close>

lemma bench_key_app [simp]: "app_key (bench_key i)"
proof -
  have "CHR '';'' \<notin> set (dec i)" by (rule dec_no_char) (simp add: is_digit_def)
  moreover have "\<not> prefix meta_prefix (bench_key i)" by (simp add: meta_prefix_def bench_key_def)
  ultimately show ?thesis by (simp add: app_key_def) (simp add: bench_key_def padded_index_def Let_def)
qed

lemma info_length:
  assumes "adios_laws A" and "length k \<le> 20" and "length (ad_type_name A (aa_string L)) \<le> 100"
  shows "length (WriteVariableInfo A (string_var L k)) \<le> 130"
proof -
  from assms(1) obtain pad where "\<And>ds. ad_dims A ds = dims_text pad ds" by (auto simp: adios_laws_def)
  then have "length (ad_dims A []) = 2" by (simp add: dims_text_def)
  with assms(2,3) show ?thesis by (simp add: WriteVariableInfo_def string_var_def)
qed

lemma app_listing_length:
  assumes "app_listing L h vs" and "distinct (map fst h)"
  shows "length vs = length h"
proof -
  have "inj (string_var L)" by (simp add: inj_on_def)
  then have "card (string_var L ` fst ` set h) = card (fst ` set h)" by (intro card_image) (simp add: inj_on_def)
  then show ?thesis using assms distinct_card [of vs] distinct_card [of "map fst h"] by (simp add: app_listing_def)
qed

lemma app_metas_small:
  assumes A: "adios_laws A" and name: "length (ad_type_name A (aa_string L)) \<le> 100"
    and keys: "\<forall>e \<in> set h. length (fst e) \<le> 20" and d: "distinct (map fst h)" and us: "app_listing L h us"
  shows "\<forall>e \<in> set (app_metas A us). wf_entry e" and "length (app_metas A us) = length h"
    and "length (file_bytes (app_metas A us)) \<le> length h * 170"
proof -
  have "length (va_name v) \<le> 20 \<and> v = string_var L (va_name v)" if "v \<in> set us" for v
    using that keys us by (auto simp: app_listing_def)
  then have v: "length (va_name v) \<le> 20" "length (WriteVariableInfo A v) \<le> 130" if "v \<in> set us" for v
    using info_length [OF A _ name] that by metis+
  have wf: "\<forall>e \<in> set (app_metas A us). wf_entry e \<and> length (fst e) + length (snd e) \<le> 162"
  proof
    fix e assume "e \<in> set (app_metas A us)"
    then obtain v where "v \<in> set us" "e = (meta_prefix @ va_name v, WriteVariableInfo A v)" by (auto simp: app_metas_def)
    with v [of v] show "wf_entry e \<and> length (fst e) + length (snd e) \<le> 162" by (simp add: wf_entry_def meta_prefix_def)
  qed
  then show "\<forall>e \<in> set (app_metas A us). wf_entry e" by blast
  show "length (app_metas A us) = length h" using app_listing_length [OF us d] by (simp add: app_metas_def)
  then show "length (file_bytes (app_metas A us)) \<le> length h * 170" using length_file_bytes_le [OF wf] by simp
qed

lemma app_bench_log_fits:
  assumes A: "adios_laws A" and name: "length (ad_type_name A (aa_string L)) \<le> 100"
    and r: "round_ok bc (perm, tw, tr)" and k: "bc_keyCount bc < 2 ^ 31" and vs: "8 \<le> bc_valueSize bc" "bc_valueSize bc < 2 ^ 31"
  shows "app_fits A L native_fits (bench_log (bc_valueSize bc) 0 perm)"
proof -
  let ?h = "bench_log (bc_valueSize bc) 0 perm" and ?n = "length perm"
  have n: "?n < 2 ^ 31" using round_ok_length [OF r] k by simp
  have d: "distinct (map fst ?h)" using r by (simp add: round_ok_def distinct_map inj_on_def)
  have i: "perm ! j < 2 ^ 31" if "j < ?n" for j
  proof -
    have "perm ! j < nat (bc_keyCount bc)" using r nth_mem [OF that] by (auto simp: round_ok_def)
    then show ?thesis using k by simp
  qed
  have keys: "\<forall>e \<in> set ?h. length (fst e) \<le> 20"
    using bench_entry_length(1) [OF i _ vs(1), of _ 0] by (auto simp: bench_log_set)
  note m = app_metas_small [OF A name keys d]
  have log: "log_ok ?h" "length (file_bytes ?h) \<le> 2 ^ 31 * (2 ^ 31 + 31)"
    using bench_log_fits [OF r k vs] bench_log_bytes [OF r k vs] by (simp_all add: native_fits_def)
  have "native_fits (app_log A ?h us @ app_metas A us')" if "app_listing L ?h us" "app_listing L ?h us'" for us us'
    using m [OF that(1)] m [OF that(2)] log n by (auto simp: native_fits_def log_ok_def app_log_def)
  then show ?thesis using d by (auto simp: app_fits_def bench_log_set dest!: sym [of MEMTABLE_TOMBSTONE])
qed

lemma native_plugin_program:
  assumes "adios_app_laws A L" and cfg: "int_settings cfg" "\<not> cfg_preAllocate cfg" "cfg_storageType cfg = NativeDB"
    and "bc_useLSMIOPlugin bc" and "\<not> bc_enableCollectiveIO bc" and db: "db = ab_path bc cfg"
  shows "plugin_program (native_ops good_io) (\<lambda>ow f. Returns (native_new cfg db ow mg f)) native_disk native_fits
    (\<lambda>h. native_at db 0 h (1 + 2 * length h)) (native_closed db 0) (native_reopened db 0) A L (make_native cfg mg) bc cfg"
proof -
  have set: "0 < cfg_filePoolSize cfg" "cfg_filePoolSize cfg < 2 ^ 31" "cfg_writeBufferNumber cfg < 2 ^ 31"
    using cfg(1) by (simp_all add: int_settings_def)
  show ?thesis
    by (intro plugin_program.intro plugin_program_axioms.intro native_resumable [OF cfg(2) set])
      (simp_all add: make_native_def assms)
qed

text \<open>An \<open>IO\<close> as its parameters and the list of its definitions.\<close>

definition par_adios :: "((string \<times> string) list \<times> bool adios_var list, bool) adios" where
  "par_adios = \<lparr>ad_parameter = (\<lambda>io n mandatory. Returns (case map_of (fst io) n of None \<Rightarrow> [] | Some v \<Rightarrow> v)),
     ad_option = (\<lambda>io n. case map_of (fst io) n of None \<Rightarrow> [] | Some v \<Rightarrow> v), ad_variables = (\<lambda>io. list_vars (snd io)),
     ad_inquire = (\<lambda>t n io. find (\<lambda>v. va_type v = t \<and> va_name v = n) (list_vars (snd io))),
     ad_define = (\<lambda>v io. Returns (fst io, snd io @ [v])),
     ad_type_name = (\<lambda>t. if t then ''string'' else ''char''), ad_type_of = (\<lambda>s. s = ''string''),
     ad_std = (\<lambda>t. True), ad_dims = dims_text '' ''\<rparr>"

definition par_app :: "((string \<times> string) list \<times> bool adios_var list, bool) adios_app" where
  "par_app = \<lparr>aa_declare = (\<lambda>n ps. (ps, [])), aa_string = True\<rparr>"

lemma par_app_laws: "adios_app_laws par_adios par_app"
  unfolding adios_app_laws_def adios_laws_def par_adios_def par_app_def using list_vars_distinct
  by (auto simp: list_vars_def)

definition plugin_bc :: bm_config where
  "plugin_bc = sample_bc\<lparr>bc_useLSMIOPlugin := True\<rparr>"

interpretation sample_program: plugin_program "native_ops good_io"
  "\<lambda>ow f. Returns (native_new default_config (ab_path plugin_bc default_config) ow mg f)" native_disk native_fits
  "\<lambda>h. native_at (ab_path plugin_bc default_config) 0 h (1 + 2 * length h)" "native_closed (ab_path plugin_bc default_config) 0"
  "native_reopened (ab_path plugin_bc default_config) 0" par_adios par_app "make_native default_config mg" plugin_bc default_config env agg for mg env agg
  by (rule native_plugin_program)
    (simp_all add: par_app_laws int_settings_def default_config_def plugin_bc_def sample_bc_def bm_default_def)

section \<open>Properties\<close>



text \<open>\<open>std::tolower\<close> of the C locale.\<close>

definition to_lower :: "string \<Rightarrow> string" where
  "to_lower s = map (\<lambda>c. if 65 \<le> (of_char c :: nat) \<and> (of_char c :: nat) \<le> 90 then char_of ((of_char c :: nat) + 32) else c) s"

text \<open>
  With collective IO the engine does not get the aggregation that the program was asked for: it refuses
  the name as the program spells it, and if the library passes names in lower case, a program for one
  group per host (\<open>Shared\<close>) gets one group of all ranks, and a program for all ranks gets one per host; as
  the engine stores what it took in the settings, the read pass gets the other aggregation than the write pass.
\<close>

theorem adios_aggregation_swapped:
  "(\<exists>e. aggregation_type (ab_aggregation cfg) ratio = Throws e)
   \<and> (let taken = (if cfg_mpiAggType cfg = Shared then Entire else Shared); cfg' = cfg\<lparr>cfg_mpiAggType := taken\<rparr> in
       aggregation_type (to_lower (ab_aggregation cfg)) [] = Returns taken
       \<and> aggregation_type (to_lower (ab_aggregation cfg')) [] = Returns (if taken = Shared then Entire else Shared))"
proof -
  have "to_lower ''TwoLevelShm'' = ''twolevelshm''" "to_lower ''EveryoneWrites'' = ''everyonewrites''" by code_simp+
  then show ?thesis by (simp add: ab_aggregation_def aggregation_type_def)
qed

end
