(* ===== verification/Bm_Main.thy ===== *)
theory Bm_Main
  imports Bm_Adios Durable_Db
begin

text \<open>
  The benchmark programs from their command line to their exit code: the options that
  \<open>benchmark/bm_base.cpp\<close> binds to settings, \<open>beginMain\<close>, the loop of \<open>main\<close> over the settings in
  \<open>bm_native.cpp\<close>, \<open>bm_leveldb.cpp\<close>, \<open>bm_rocksdb.cpp\<close>, \<open>bm_manager.cpp\<close> and \<open>bm_adios.cpp\<close>,
  \<open>writeBenchmarkResults\<close> and \<open>endMain\<close>. CLI11, which splits the command line, is a parameter.
\<close>

section \<open>The command line\<close>

record cli_vars =
  cv_bc :: bm_config
  cv_cfg :: lsmio_config
  cv_mpi_io_world :: bool
  cv_use_leveldb :: bool
  cv_use_rocksdb :: bool

definition cli_start :: cli_vars where
  "cli_start = \<lparr>cv_bc = bm_default, cv_cfg = default_config, cv_mpi_io_world = False,
     cv_use_leveldb = False, cv_use_rocksdb = False\<rparr>"

definition on_bc :: "(bm_config \<Rightarrow> bm_config) \<Rightarrow> cli_vars \<Rightarrow> cli_vars" where
  "on_bc f v = v\<lparr>cv_bc := f (cv_bc v)\<rparr>"

definition on_cfg :: "(lsmio_config \<Rightarrow> lsmio_config) \<Rightarrow> cli_vars \<Rightarrow> cli_vars" where
  "on_cfg f v = v\<lparr>cv_cfg := f (cv_cfg v)\<rparr>"

text \<open>The variable to which each name is bound, by the kind of its value.\<close>

definition text_options :: "(string list \<times> (string \<Rightarrow> cli_vars \<Rightarrow> cli_vars)) list" where
  "text_options = [
     ([''-o'', ''--output-file''], \<lambda>s. on_bc (bc_fileName_update (\<lambda>_. s))),
     ([''-d'', ''--output-dir''], \<lambda>s. on_bc (bc_dirName_update (\<lambda>_. s)))]"

definition flag_options :: "(string list \<times> (bool \<Rightarrow> cli_vars \<Rightarrow> cli_vars)) list" where
  "flag_options = [
     ([''-v'', ''--verbose''], \<lambda>b. on_bc (bc_verbose_update (\<lambda>_. b))),
     ([''-g'', ''--debug''], \<lambda>b. on_bc (bc_debug_update (\<lambda>_. b))),
     ([''-m'', ''--mpi-barrier''], \<lambda>b. on_bc (bc_useMPIBarrier_update (\<lambda>_. b))),
     ([''-c'', ''--collective-io''], \<lambda>b. on_bc (bc_enableCollectiveIO_update (\<lambda>_. b))),
     ([''-w'', ''--mpi-io-world''], \<lambda>b. cv_mpi_io_world_update (\<lambda>_. b)),
     ([''-l'', ''--loop-all''], \<lambda>b. on_bc (bc_loopAll_update (\<lambda>_. b))),
     ([''-e'', ''--sync''], \<lambda>b. on_cfg (cfg_useSync_update (\<lambda>_. b))),
     ([''--lsmio-plugin''], \<lambda>b. on_bc (bc_useLSMIOPlugin_update (\<lambda>_. b))),
     ([''--lsmio-bfilter''], \<lambda>b. on_cfg (cfg_useBloomFilter_update (\<lambda>_. b))),
     ([''--lsmio-wal''], \<lambda>b. on_cfg (cfg_enableWAL_update (\<lambda>_. b))),
     ([''--lsmio-mmap''], \<lambda>b. on_cfg (cfg_enableMMAP_update (\<lambda>_. b))),
     ([''--lsmio-use-leveldb''], \<lambda>b. cv_use_leveldb_update (\<lambda>_. b)),
     ([''--lsmio-use-rocksdb''], \<lambda>b. cv_use_rocksdb_update (\<lambda>_. b)),
     ([''--lsmio-compress''], \<lambda>b. on_cfg (cfg_compression_update (\<lambda>_. b))),
     ([''--lsmo-always-flush''], \<lambda>b. on_cfg (cfg_alwaysFlush_update (\<lambda>_. b))),
     ([''--lsmio-prealloc''], \<lambda>b. on_cfg (cfg_preAllocate_update (\<lambda>_. b))),
     ([''--lsmio-disable-agg-dir-structure''], \<lambda>b. on_cfg (cfg_disableAggDirStructure_update (\<lambda>_. b)))]"

definition number_options :: "(string list \<times> (int \<Rightarrow> cli_vars \<Rightarrow> cli_vars)) list" where
  "number_options = [
     ([''-i'', ''--iterations''], \<lambda>n. on_bc (bc_iterations_update (\<lambda>_. n))),
     ([''-k'', ''--key-count''], \<lambda>n. on_bc (bc_keyCount_update (\<lambda>_. n))),
     ([''-z'', ''--value-size''], \<lambda>n. on_bc (bc_valueSize_update (\<lambda>_. n))),
     ([''-s'', ''--segment-count''], \<lambda>n. on_bc (bc_segmentCount_update (\<lambda>_. n))),
     ([''--lsmio-bs''], \<lambda>n. on_cfg (cfg_blockSize_update (\<lambda>_. n))),
     ([''--lsmio-ts''], \<lambda>n. on_cfg (cfg_transferSize_update (\<lambda>_. n))),
     ([''--lsmio-batch-size''], \<lambda>n. on_cfg (cfg_asyncBatchSize_update (\<lambda>_. n))),
     ([''--lsmio-batch-bytes''], \<lambda>n. on_cfg (cfg_asyncBatchBytes_update (\<lambda>_. n))),
     ([''--lsmio-cache''], \<lambda>n. on_cfg (cfg_cacheSize_update (\<lambda>_. n))),
     ([''--lsmio-wbuffer''], \<lambda>n. on_cfg (cfg_writeBufferSize_update (\<lambda>_. n))),
     ([''--lsmio-fsize''], \<lambda>n. on_cfg (cfg_writeFileSize_update (\<lambda>_. n))),
     ([''--lsmio-pool''], \<lambda>n. on_cfg (cfg_filePoolSize_update (\<lambda>_. n)))]"

definition bound :: "(string list \<times> ('v \<Rightarrow> cli_vars \<Rightarrow> cli_vars)) list \<Rightarrow> string \<Rightarrow> ('v \<Rightarrow> cli_vars \<Rightarrow> cli_vars) option" where
  "bound options n = map_option snd (find (\<lambda>x. n \<in> set (fst x)) options)"

text \<open>
  What CLI11 makes of the arguments: a list of values for names that are bound, a request for help with
  the exit code of it, or a complaint, which is an exception of the class \<open>runtime_error\<close>.
\<close>

datatype cli_arg = Text_Arg string string | Flag_Arg string bool | Number_Arg string int

datatype cli_result = Parsed "cli_arg list" | Help int | Complaint

fun apply_arg :: "cli_arg \<Rightarrow> cli_vars \<Rightarrow> cli_vars" where
  "apply_arg (Text_Arg n s) v = (case bound text_options n of None \<Rightarrow> v | Some f \<Rightarrow> f s v)"
| "apply_arg (Flag_Arg n b) v = (case bound flag_options n of None \<Rightarrow> v | Some f \<Rightarrow> f b v)"
| "apply_arg (Number_Arg n i) v = (case bound number_options n of None \<Rightarrow> v | Some f \<Rightarrow> f i v)"

definition apply_args :: "cli_arg list \<Rightarrow> cli_vars" where
  "apply_args args = foldl (\<lambda>v a. apply_arg a v) cli_start args"

section \<open>Start and end\<close>

record bm_run =
  br_bc :: bm_config
  br_cfg :: lsmio_config
  br_log :: log_state
  br_handler :: bool
  br_useMPI :: bool
  br_mpiOpen :: bool
  br_worldSize :: nat
  br_worldRank :: nat
  br_size :: nat
  br_rank :: nat

text \<open>\<open>MPI_Init_thread\<close> with the ranks that the process gets; those of a host when it groups by host.\<close>

definition begin_mpi :: "mpi_env \<Rightarrow> bm_run \<Rightarrow> bm_run" where
  "begin_mpi env run = run\<lparr>br_mpiOpen := True, br_worldSize := me_size env, br_worldRank := me_rank env,
     br_size := (if cfg_mpiAggType (br_cfg run) = Shared then split_size (me_node env) (me_size env) (me_rank env) else me_size env),
     br_rank := (if cfg_mpiAggType (br_cfg run) = Shared then split_rank (me_node env) (me_rank env) else me_rank env)\<rparr>"

text \<open>The result has the options that are logged, except on the ranks other than the first.\<close>

definition beginMain ::
  "(string list \<Rightarrow> cli_result) \<Rightarrow> mpi_env \<Rightarrow> string \<Rightarrow> string list \<Rightarrow> (int \<times> bm_run \<times> string option) outcome" where
  "beginMain cli env name argv = (case cli argv of
       Help c \<Rightarrow> Exits c
     | Complaint \<Rightarrow> Exits 1
     | Parsed args \<Rightarrow> let v = apply_args args; bc = cv_bc v in
         (case resolve_options (cv_mpi_io_world v) (cv_use_leveldb v) (cv_use_rocksdb v) bc (cv_cfg v) of
            Throws e \<Rightarrow> Exits 1
          | Returns cfg \<Rightarrow>
              let useMPI = (bc_useMPIBarrier bc \<or> bc_enableCollectiveIO bc);
                  run0 = \<lparr>br_bc = bc, br_cfg = cfg,
                    br_log = (if bc_verbose bc then initLSMIODebug name log_start else initLSMIORelease name log_start),
                    br_handler = bc_debug bc, br_useMPI = useMPI, br_mpiOpen = False,
                    br_worldSize = 0, br_worldRank = 0, br_size = 0, br_rank = 0\<rparr>;
                  run = (if useMPI then begin_mpi env run0 else run0)
              in Returns (0, run, if useMPI \<and> br_rank run \<noteq> 0 then None else Some (genOptionsToString bc cfg))
          | Blocks \<Rightarrow> Blocks | Undefined \<Rightarrow> Undefined | Exits c \<Rightarrow> Exits c))"

definition endMain :: "bm_run \<Rightarrow> int \<times> bm_run" where
  "endMain run = (0, if br_useMPI run then run\<lparr>br_mpiOpen := False\<rparr> else run)"

definition results_text :: "bm_run \<Rightarrow> string \<Rightarrow> string \<Rightarrow> string" where
  "results_text run out_w out_r =
     ''BENCHMARK PARAMETERS: '' @ nl @ nl @ (if br_useMPI run then '' MPI: Enabled'' @ nl else ''MPI: Disabled'' @ nl)
     @ (if br_useMPI run then '' MPI Rank: '' @ to_string_int (int (br_rank run)) @ nl else [])
     @ genOptionsToString (br_bc run) (br_cfg run) @ nl @ ''BENCHMARK RESULTS: '' @ nl
     @ out_w @ nl @ out_r @ nl @ nl"

definition writeBenchmarkResults :: "bm_run \<Rightarrow> string \<Rightarrow> string \<Rightarrow> string option" where
  "writeBenchmarkResults run out_w out_r = (if br_rank run \<noteq> 0 then None else Some (results_text run out_w out_r))"

section \<open>The programs\<close>

text \<open>
  What differs between the five programs: the label of a suite, the settings that the two nested loops
  assign, and the virtual operations. \<open>bp_enter\<close> and \<open>bp_leave\<close> carry the global settings into the state of
  a program that changes them.
\<close>

type_synonym settings = "bm_config \<times> lsmio_config"

record 'w bm_program =
  bp_prefix :: "settings \<Rightarrow> string"
  bp_vary :: "bool \<Rightarrow> bool \<Rightarrow> settings \<Rightarrow> settings"
  bp_ops :: "settings \<Rightarrow> 'w bm_ops"
  bp_enter :: "lsmio_config \<Rightarrow> 'w \<Rightarrow> 'w"
  bp_leave :: "'w \<Rightarrow> lsmio_config \<Rightarrow> lsmio_config"

definition flush_label :: "lsmio_config \<Rightarrow> string" where
  "flush_label cfg = (if cfg_alwaysFlush cfg then ''true '' else ''false'')"

definition bloom_prefix :: "string \<Rightarrow> settings \<Rightarrow> string" where
  "bloom_prefix name st = name @ flush_label (snd st) @ '' BLF: '' @ (if cfg_useBloomFilter (snd st) then ''true '' else ''false'')"

definition bloom_vary :: "bool \<Rightarrow> bool \<Rightarrow> settings \<Rightarrow> settings" where
  "bloom_vary j k st = (fst st, (snd st)\<lparr>cfg_alwaysFlush := j, cfg_useBloomFilter := k\<rparr>)"

definition store_program :: "string \<Rightarrow> (settings \<Rightarrow> 'w bm_ops) \<Rightarrow> 'w bm_program" where
  "store_program name ops = \<lparr>bp_prefix = bloom_prefix name, bp_vary = bloom_vary, bp_ops = ops,
     bp_enter = (\<lambda>c w. w), bp_leave = (\<lambda>w c. c)\<rparr>"

definition native_program :: "io_env \<Rightarrow> u64 \<Rightarrow> (native_store, fs) lc_state bm_program" where
  "native_program env mg = store_program ''Native Flush: '' (\<lambda>st. native_bench env mg (fst st) (snd st))"

definition leveldb_program ::
  "'d kv_db \<Rightarrow> (leveldb_options, 'd, 'f) db_lib \<Rightarrow> ('d ldb_store, 'f) lc_state bm_program" where
  "leveldb_program db L = store_program ''LevelDB Flush: '' (\<lambda>st. leveldb_bench db L (fst st) (snd st))"

definition rocksdb_program ::
  "'d kv_db \<Rightarrow> (rocksdb_options, 'd, 'f) db_lib \<Rightarrow> ('d rdb_store, 'f) lc_state bm_program" where
  "rocksdb_program db L = store_program ''RocksDB Flush: '' (\<lambda>st. rocksdb_bench db L (fst st) (snd st))"

definition manager_program ::
  "('l \<times> 'f) store_ops \<Rightarrow> (lsmio_config \<Rightarrow> 'f \<Rightarrow> storage_type \<Rightarrow> string \<Rightarrow> bool \<Rightarrow> ('l \<times> 'f) outcome) \<Rightarrow> mpi_env
    \<Rightarrow> ('l \<times> 'f) manager \<Rightarrow> ('l \<times> 'f, 'f) lm_state bm_program" where
  "manager_program ops make_store env agg =
     store_program ''LsmioMr Flush: '' (\<lambda>st. lm_bench ops (make_store (snd st)) (fst st) (snd st) env agg)"

definition adios_program :: "(bm_config \<Rightarrow> ('e, 'f) engine) \<Rightarrow> ('e, 'f) ab_state bm_program" where
  "adios_program E = \<lparr>
     bp_prefix = (\<lambda>st. ''AdiosDB Flush: '' @ flush_label (snd st) @ '' Plg: ''
        @ (if bc_useLSMIOPlugin (fst st) then ''true '' else ''false'')),
     bp_vary = (\<lambda>j k st. ((fst st)\<lparr>bc_useLSMIOPlugin := k\<rparr>, (snd st)\<lparr>cfg_alwaysFlush := j\<rparr>)),
     bp_ops = (\<lambda>st. adios_bench (E (fst st)) (fst st)),
     bp_enter = (\<lambda>c w. w\<lparr>ab_cfg := c\<rparr>), bp_leave = (\<lambda>w c. ab_cfg w)\<rparr>"

text \<open>The two loops: four settings, or what the command line says. A suite gets its rounds.\<close>

definition loop_steps :: "'w bm_program \<Rightarrow> bool \<Rightarrow> (settings \<Rightarrow> settings) list" where
  "loop_steps P loopAll = (if loopAll then [bp_vary P j k. j \<leftarrow> [False, True], k \<leftarrow> [False, True]] else [\<lambda>st. st])"

definition run_bytes :: "'d fp \<Rightarrow> bm_run \<Rightarrow> bm_config \<Rightarrow> 'd" where
  "run_bytes A run bc = (let bytes = fp_mul A (fp_of_int A (bc_keyCount bc)) (fp_of_int A (bc_valueSize bc))
     in if br_useMPI run then fp_mul A bytes (fp_of_int A (int (br_size run))) else bytes)"

fun run_suites ::
  "'d fp \<Rightarrow> 'w bm_program \<Rightarrow> ((settings \<Rightarrow> settings) \<times> round list) list \<Rightarrow> bm_run \<Rightarrow> int \<times> string \<times> string
    \<Rightarrow> ('d, 'w) bench \<Rightarrow> (bm_run \<times> (int \<times> string \<times> string) \<times> ('d, 'w) bench) outcome" where
  "run_suites A P [] run res be = Returns (run, res, be)"
| "run_suites A P ((f, rs) # steps) run res be =
     (case f (br_bc run, br_cfg run) of (bc, cfg) \<Rightarrow>
       bind_outcome (benchSuite A (bp_ops P (bc, cfg)) bc (run_bytes A run bc) (fp_of_int A (bc_keyCount bc))
           (bp_prefix P (bc, cfg)) rs (be\<lparr>be_world := bp_enter P cfg (be_world be)\<rparr>)) (\<lambda>((c, ws, rds), be').
         run_suites A P steps (run\<lparr>br_bc := bc, br_cfg := bp_leave P (be_world be') cfg\<rparr>)
           (fst res + c, fst (snd res) @ ws, snd (snd res) @ rds) be'))"

definition bm_main ::
  "'d fp \<Rightarrow> 'w bm_program \<Rightarrow> (string list \<Rightarrow> cli_result) \<Rightarrow> mpi_env \<Rightarrow> string \<Rightarrow> string list \<Rightarrow> round list list \<Rightarrow> 'w
    \<Rightarrow> (int \<times> string option) outcome" where
  "bm_main A P cli env name argv rounds w =
     bind_outcome (beginMain cli env name argv) (\<lambda>(c0, run, report).
       bind_outcome (run_suites A P (zip (loop_steps P (bc_loopAll (br_bc run))) rounds) run (c0, [], [])
           \<lparr>be_timer = bt_new, be_iterations = [], be_world = w\<rparr>) (\<lambda>(run', (c1, ws, rds), be).
         Returns (c1 + fst (endMain run'), writeBenchmarkResults run' ws rds)))"

section \<open>What the command line leaves\<close>

lemma bound_in: "bound t n = Some f \<Longrightarrow> \<exists>ns. n \<in> set ns \<and> (ns, f) \<in> set t"
  by (induction t) (fastforce simp: bound_def split: if_splits)+

lemmas option_defs = text_options_def flag_options_def number_options_def on_bc_def on_cfg_def

text \<open>Every number of the settings is an \<open>int\<close> of C++, if those of the command line are.\<close>

definition c_int :: "int \<Rightarrow> bool" where
  "c_int i \<longleftrightarrow> - (2 ^ 31) \<le> i \<and> i < 2 ^ 31"

definition settings_wf :: "settings \<Rightarrow> bool" where
  "settings_wf st \<longleftrightarrow> list_all c_int [bc_iterations (fst st), bc_segmentCount (fst st), bc_keyCount (fst st), bc_valueSize (fst st)]
     \<and> list_all c_int [cfg_blockSize (snd st), cfg_transferSize (snd st), cfg_writeBufferNumber (snd st), cfg_asyncBatchSize (snd st),
          cfg_asyncBatchBytes (snd st), cfg_cacheSize (snd st), cfg_writeBufferSize (snd st), cfg_writeFileSize (snd st), cfg_filePoolSize (snd st)]"

fun arg_wf :: "cli_arg \<Rightarrow> bool" where
  "arg_wf (Number_Arg n i) = c_int i"
| "arg_wf a = True"

definition vars_wf :: "cli_vars \<Rightarrow> bool" where
  "vars_wf v \<longleftrightarrow> settings_wf (cv_bc v, cv_cfg v)"

lemma vars_wf_text: "bound text_options n = Some f \<Longrightarrow> vars_wf v \<Longrightarrow> vars_wf (f s v)"
  by (drule bound_in) (auto simp: option_defs vars_wf_def settings_wf_def)

lemma vars_wf_flag: "bound flag_options n = Some f \<Longrightarrow> vars_wf v \<Longrightarrow> vars_wf (f b v)"
  by (drule bound_in) (auto simp: option_defs vars_wf_def settings_wf_def)

lemma vars_wf_number: "bound number_options n = Some f \<Longrightarrow> c_int i \<Longrightarrow> vars_wf v \<Longrightarrow> vars_wf (f i v)"
  by (drule bound_in) (auto simp: option_defs vars_wf_def settings_wf_def)

lemma apply_arg_wf: "arg_wf a \<Longrightarrow> vars_wf v \<Longrightarrow> vars_wf (apply_arg a v)"
  by (cases a) (auto simp: vars_wf_text vars_wf_flag vars_wf_number split: option.split)

lemma apply_args_wf:
  assumes "\<forall>a \<in> set args. arg_wf a"
  shows "vars_wf (apply_args args)"
proof -
  have "vars_wf v \<Longrightarrow> vars_wf (foldl (\<lambda>v a. apply_arg a v) v args)" for v
    using assms by (induction args arbitrary: v) (simp_all add: apply_arg_wf)
  moreover have "vars_wf cli_start"
    by (simp add: vars_wf_def settings_wf_def cli_start_def bm_default_def default_config_def c_int_def)
  ultimately show ?thesis by (simp add: apply_args_def)
qed

text \<open>The checks of \<open>beginMain\<close>.\<close>

definition settings_checked :: "settings \<Rightarrow> bool" where
  "settings_checked st \<longleftrightarrow> bc_fileName (fst st) \<noteq> [] \<and> 8 \<le> bc_valueSize (fst st)
     \<and> cfg_blockSize (snd st) \<le> cfg_transferSize (snd st) \<and> cfg_mpiAggType (snd st) \<in> {Shared, Entire}"

lemma resolve_options_checked:
  "resolve_options w l r bc cfg = Returns cfg' \<Longrightarrow> settings_checked (bc, cfg') \<and> (settings_wf (bc, cfg') \<longleftrightarrow> settings_wf (bc, cfg))"
  by (auto simp: resolve_options_def settings_checked_def settings_wf_def Let_def split: if_splits)

lemma resolve_options_no_end: "resolve_options w l r bc cfg \<noteq> Blocks" "resolve_options w l r bc cfg \<noteq> Undefined"
  "resolve_options w l r bc cfg \<noteq> Exits c"
  by (simp_all add: resolve_options_def Let_def)

lemma beginMain_run:
  assumes "beginMain cli env name argv = Returns (c, run, report)" and "cli argv = Parsed args"
  shows "c = 0 \<and> br_bc run = cv_bc (apply_args args)
    \<and> br_useMPI run = (bc_useMPIBarrier (br_bc run) \<or> bc_enableCollectiveIO (br_bc run))
    \<and> resolve_options (cv_mpi_io_world (apply_args args)) (cv_use_leveldb (apply_args args)) (cv_use_rocksdb (apply_args args))
        (cv_bc (apply_args args)) (cv_cfg (apply_args args)) = Returns (br_cfg run)"
  using assms by (auto simp: beginMain_def Let_def begin_mpi_def split: outcome.splits if_splits)

definition keeps_settings :: "'w bm_program \<Rightarrow> bool" where
  "keeps_settings P \<longleftrightarrow> (\<forall>j k st. (settings_wf st \<longrightarrow> settings_wf (bp_vary P j k st))
     \<and> (settings_checked st \<longrightarrow> settings_checked (bp_vary P j k st)))"

lemma programs_keep_settings: "keeps_settings (store_program n ops)" "keeps_settings (adios_program E)"
  by (simp_all add: keeps_settings_def store_program_def adios_program_def bloom_vary_def settings_wf_def settings_checked_def)

section \<open>Rounds and suites to the text\<close>

definition bench_table :: "'d \<Rightarrow> 'd \<Rightarrow> round list \<Rightarrow> 'd iteration list \<Rightarrow> 'd iteration list" where
  "bench_table bytes nops rs es = foldl (\<lambda>es (perm, tw, tr). addIteration ''iread'' ((snd tr - fst tr) div 1000) bytes nops
     (addIteration ''iwrite'' ((snd tw - fst tw) div 1000) bytes nops es)) es rs"

definition suite_text :: "'d fp \<Rightarrow> string \<Rightarrow> string \<Rightarrow> string \<Rightarrow> string \<Rightarrow> 'd iteration list \<Rightarrow> string" where
  "suite_text A label bmPrefix name opt es =
     nl @ ''Iteration-'' @ label @ '': '' @ bmPrefix @ nl @ formatIterations A name es
     @ nl @ ''Bench-'' @ label @ '': '' @ bmPrefix @ nl @ formatSummary A [] [] es @ formatSummary A name opt es"

context bench_program
begin

lemma rounds_table:
  "ready (be_world be) \<Longrightarrow> \<not> bt_isStarted (be_timer be) \<Longrightarrow>
    \<forall>r \<in> set rs. round_ok bc r \<and> fits (bench_log (bc_valueSize bc) 0 (fst r)) \<Longrightarrow> 8 \<le> bc_valueSize bc \<Longrightarrow>
    \<exists>be'. bench_rounds B bc bytes nops rs be = Returns be' \<and> ready (be_world be') \<and> \<not> bt_isStarted (be_timer be')
      \<and> be_iterations be' = bench_table bytes nops rs (be_iterations be)"
proof (induction rs arbitrary: be)
  case (Cons r rs)
  obtain perm tw tr where r: "r = (perm, tw, tr)" by (cases r)
  from iteration_ok [OF Cons.prems(1,2) _ Cons.prems(4), of perm tw tr bytes nops] Cons.prems(3) r obtain be1 where
    "benchIteration B bc bytes nops r be = Returns (0, be1)" "ready (be_world be1)" "\<not> bt_isStarted (be_timer be1)"
    "be_iterations be1 = bench_table bytes nops [r] (be_iterations be)" by (auto simp: bench_table_def)
  with Cons.IH [of be1] Cons.prems(3,4) show ?case by (auto simp: bench_table_def)
qed (simp add: bench_table_def)

lemma suite_ok:
  assumes "ready (be_world be)" and "\<not> bt_isStarted (be_timer be)" and "be_iterations be = []"
    and "\<forall>r \<in> set rs. round_ok bc r \<and> fits (bench_log (bc_valueSize bc) 0 (fst r))" and "8 \<le> bc_valueSize bc"
  shows "\<exists>be'. benchSuite A B bc bytes nops p rs be
      = Returns ((0, suite_text A ''WRITE'' p ''iwrite'' ''write'' (bench_table bytes nops rs []),
          suite_text A ''READ'' p ''iread'' ''read'' (bench_table bytes nops rs [])), be')
    \<and> ready (be_world be') \<and> \<not> bt_isStarted (be_timer be') \<and> be_iterations be' = []"
proof -
  from rounds_table [OF assms(1,2,4,5), of bytes nops] assms(3) show ?thesis
    by (auto simp: benchSuite_def suite_text_def Let_def clearIterations_def)
qed

end

lemma run_bytes_step: "run_bytes A (run\<lparr>br_bc := bc, br_cfg := cfg\<rparr>) = run_bytes A run"
  by (cases "br_useMPI run") (simp_all add: run_bytes_def fun_eq_iff)

text \<open>The settings of the suites, one from the other, and what they print.\<close>

fun steps_settings :: "((settings \<Rightarrow> settings) \<times> round list) list \<Rightarrow> settings \<Rightarrow> (settings \<times> round list) list" where
  "steps_settings [] st = []"
| "steps_settings ((f, rs) # steps) st = (f st, rs) # steps_settings steps (f st)"

fun run_after :: "((settings \<Rightarrow> settings) \<times> round list) list \<Rightarrow> bm_run \<Rightarrow> bm_run" where
  "run_after [] run = run"
| "run_after ((f, rs) # steps) run = (case f (br_bc run, br_cfg run) of (bc, cfg) \<Rightarrow>
     run_after steps (run\<lparr>br_bc := bc, br_cfg := cfg\<rparr>))"

definition write_text :: "'d fp \<Rightarrow> 'w bm_program \<Rightarrow> bm_run \<Rightarrow> settings \<times> round list \<Rightarrow> string" where
  "write_text A P run x = suite_text A ''WRITE'' (bp_prefix P (fst x)) ''iwrite'' ''write''
     (bench_table (run_bytes A run (fst (fst x))) (fp_of_int A (bc_keyCount (fst (fst x)))) (snd x) [])"

definition read_text :: "'d fp \<Rightarrow> 'w bm_program \<Rightarrow> bm_run \<Rightarrow> settings \<times> round list \<Rightarrow> string" where
  "read_text A P run x = suite_text A ''READ'' (bp_prefix P (fst x)) ''iread'' ''read''
     (bench_table (run_bytes A run (fst (fst x))) (fp_of_int A (bc_keyCount (fst (fst x)))) (snd x) [])"

definition main_settings :: "'w bm_program \<Rightarrow> bm_run \<Rightarrow> round list list \<Rightarrow> (settings \<times> round list) list" where
  "main_settings P run rounds =
     steps_settings (zip (loop_steps P (bc_loopAll (br_bc run))) rounds) (br_bc run, br_cfg run)"

definition main_output :: "'d fp \<Rightarrow> 'w bm_program \<Rightarrow> bm_run \<Rightarrow> round list list \<Rightarrow> string option" where
  "main_output A P run rounds =
     writeBenchmarkResults (run_after (zip (loop_steps P (bc_loopAll (br_bc run))) rounds) run)
       (concat (map (write_text A P run) (main_settings P run rounds)))
       (concat (map (read_text A P run) (main_settings P run rounds)))"

lemma text_step:
  "write_text A P (run\<lparr>br_bc := bc, br_cfg := cfg\<rparr>) = write_text A P run"
  "read_text A P (run\<lparr>br_bc := bc, br_cfg := cfg\<rparr>) = read_text A P run"
  by (simp_all add: fun_eq_iff write_text_def read_text_def run_bytes_step)

lemma steps_settings_inv:
  "\<forall>(f, rs) \<in> set steps. \<forall>st. Q st \<longrightarrow> Q (f st) \<Longrightarrow> Q st0 \<Longrightarrow> (st, rs) \<in> set (steps_settings steps st0) \<Longrightarrow>
    Q st \<and> rs \<in> snd ` set steps"
proof (induction steps arbitrary: st0)
  case (Cons s steps)
  obtain f rs' where s: "s = (f, rs')" by (cases s)
  then have f: "Q (f st0)" using Cons.prems(1,2) by (cases st0) auto
  show ?case
  proof (cases "(st, rs) = (f st0, rs')")
    case False
    then have "(st, rs) \<in> set (steps_settings steps (f st0))" using Cons.prems(3) by (auto simp: s)
    from Cons.IH [OF _ f this] Cons.prems(1) show ?thesis by auto
  qed (use f s in auto)
qed simp

section \<open>A program whose suites succeed\<close>

text \<open>
  What \<open>main\<close> needs of a program: under all settings that may come up its operations keep the contract of
  the passes, with one notion of the state between suites. \<open>limits\<close> are the limits of the rounds.
\<close>

locale main_program =
  fixes P :: "'w bm_program"
    and good :: "settings \<Rightarrow> bool"
    and limits :: "settings \<Rightarrow> (key \<times> val) list \<Rightarrow> bool"
    and idle :: "settings \<Rightarrow> 'w \<Rightarrow> bool"
  assumes passes: "good st \<Longrightarrow> \<exists>writing written cleaned reading finished.
      bench_program (bp_ops P st) (limits st) (idle st) writing written cleaned reading finished"
    and vary: "good st \<Longrightarrow> good (bp_vary P j k st)"
    and enter: "idle st w \<Longrightarrow> idle st' (bp_enter P (snd st') w)"
    and leave: "idle st w \<Longrightarrow> bp_leave P w (snd st) = snd st"
begin

lemma run_suites_ok:
  assumes "\<forall>(f, rs) \<in> set steps. \<forall>st. good st \<longrightarrow> good (f st)" and "good (br_bc run, br_cfg run)"
    and "idle st0 (be_world be)" and "\<not> bt_isStarted (be_timer be)" and "be_iterations be = []"
    and "\<forall>(st, rs) \<in> set (steps_settings steps (br_bc run, br_cfg run)). 8 \<le> bc_valueSize (fst st)
      \<and> (\<forall>r \<in> set rs. round_ok (fst st) r \<and> limits st (bench_log (bc_valueSize (fst st)) 0 (fst r)))"
  shows "\<exists>be'. run_suites A P steps run (c, ws, rds) be = Returns (run_after steps run,
    (c, ws @ concat (map (write_text A P run) (steps_settings steps (br_bc run, br_cfg run))),
      rds @ concat (map (read_text A P run) (steps_settings steps (br_bc run, br_cfg run)))), be')"
  using assms
proof (induction steps arbitrary: run ws rds be st0)
  case (Cons s steps)
  obtain f rs where s: "s = (f, rs)" by (cases s)
  obtain bc cfg where st: "f (br_bc run, br_cfg run) = (bc, cfg)" by (cases "f (br_bc run, br_cfg run)")
  let ?st = "(bc, cfg)" and ?be = "be\<lparr>be_world := bp_enter P cfg (be_world be)\<rparr>" and ?nops = "fp_of_int A (bc_keyCount bc)"
  let ?w = "write_text A P run (?st, rs)" and ?r = "read_text A P run (?st, rs)"
  have good: "good ?st" using Cons.prems(1,2) by (auto simp: s simp flip: st)
  from passes [OF this] obtain writing written cleaned reading finished where
    B: "bench_program (bp_ops P ?st) (limits ?st) (idle ?st) writing written cleaned reading finished" by blast
  have rs: "8 \<le> bc_valueSize bc" "\<forall>r \<in> set rs. round_ok bc r \<and> limits ?st (bench_log (bc_valueSize bc) 0 (fst r))"
    using Cons.prems(6) by (simp_all add: s st)
  have idle: "idle ?st (be_world ?be)" using enter [OF Cons.prems(3), of ?st] by simp
  from bench_program.suite_ok [OF B idle _ _ rs(2,1), of A "run_bytes A run bc" ?nops "bp_prefix P ?st"] Cons.prems(4,5)
  obtain be1 where b: "benchSuite A (bp_ops P ?st) bc (run_bytes A run bc) ?nops (bp_prefix P ?st) rs ?be = Returns ((0, ?w, ?r), be1)"
    and be1: "idle ?st (be_world be1)" "\<not> bt_isStarted (be_timer be1)" "be_iterations be1 = []"
    by (auto simp: write_text_def read_text_def)
  let ?run = "run\<lparr>br_bc := bc, br_cfg := bp_leave P (be_world be1) cfg\<rparr>"
  have cfg: "bp_leave P (be_world be1) cfg = cfg" using leave [OF be1(1)] by simp
  from Cons.IH [of ?run ?st be1 "ws @ ?w" "rds @ ?r"] Cons.prems(1,6) good be1 obtain be' where
    "run_suites A P steps ?run (c, ws @ ?w, rds @ ?r) be1 = Returns (run_after steps ?run,
      (c, (ws @ ?w) @ concat (map (write_text A P run) (steps_settings steps ?st)),
        (rds @ ?r) @ concat (map (read_text A P run) (steps_settings steps ?st))), be')"
    by (auto simp: s st cfg text_step)
  with b show ?case by (simp add: s st cfg)
qed simp

lemma loop_steps_good: "f \<in> set (loop_steps P b) \<Longrightarrow> good st \<Longrightarrow> good (f st)"
  by (auto simp: loop_steps_def vary split: if_splits)

text \<open>The whole program returns 0 and prints a table for every setting.\<close>

lemma main_ok:
  assumes start: "beginMain cli env name argv = Returns (c, run, report)" "cli argv = Parsed args"
    and "good (br_bc run, br_cfg run)" and "idle st0 w"
    and "\<forall>(st, rs) \<in> set (main_settings P run rounds). 8 \<le> bc_valueSize (fst st)
      \<and> (\<forall>r \<in> set rs. round_ok (fst st) r \<and> limits st (bench_log (bc_valueSize (fst st)) 0 (fst r)))"
  shows "bm_main A P cli env name argv rounds w = Returns (0, main_output A P run rounds)"
proof -
  let ?steps = "zip (loop_steps P (bc_loopAll (br_bc run))) rounds"
  have c: "c = 0" using beginMain_run [OF start] by simp
  have "\<forall>(f, rs) \<in> set ?steps. \<forall>st. good st \<longrightarrow> good (f st)" by (auto dest!: set_zip_leftD intro: loop_steps_good)
  from run_suites_ok [OF this assms(3), of st0 "\<lparr>be_timer = bt_new, be_iterations = [], be_world = w\<rparr>" A 0 "[]" "[]"] assms(4,5) obtain be' where
    "run_suites A P ?steps run (0, [], []) \<lparr>be_timer = bt_new, be_iterations = [], be_world = w\<rparr> = Returns (run_after ?steps run,
      (0, concat (map (write_text A P run) (main_settings P run rounds)), concat (map (read_text A P run) (main_settings P run rounds))), be')"
    by (auto simp: bt_new_def main_settings_def)
  then show ?thesis by (simp add: bm_main_def start(1) c endMain_def main_output_def main_settings_def Let_def)
qed

end

section \<open>The programs over their stores\<close>

lemma bloom_vary_simps [simp]:
  "bp_vary (store_program n ops) = bloom_vary" "bp_ops (store_program n ops) = ops"
  "bp_enter (store_program n ops) c w = w" "bp_leave (store_program n ops) w c = c"
  "fst (bloom_vary j k st) = fst st" "int_settings (snd (bloom_vary j k st)) = int_settings (snd st)"
  "cfg_storageType (snd (bloom_vary j k st)) = cfg_storageType (snd st)"
  by (simp_all add: store_program_def bloom_vary_def int_settings_def)

lemma native_main_program:
  "main_program (native_program good_io mg) (\<lambda>st. int_settings (snd st)) (\<lambda>st. native_fits) (\<lambda>st w. native_disk (snd w))"
proof
  fix st :: settings
  assume "int_settings (snd st)"
  then have set: "0 < cfg_filePoolSize (snd st)" "cfg_filePoolSize (snd st) < 2 ^ 31" "cfg_writeBufferNumber (snd st) < 2 ^ 31"
    and pre: "prealloc_ok 1 (snd st)" by (simp_all add: int_settings_def int_settings_prealloc)
  let ?db = "genDBPath (fst st) (cfg_alwaysFlush (snd st)) (cfg_useBloomFilter (snd st))"
  from durable_store.lc_program [OF native_durable [OF pre set, of ?db mg], of "cfg_alwaysFlush (snd st)"]
  show "\<exists>writing written cleaned reading finished. bench_program (bp_ops (native_program good_io mg) st) native_fits
      (\<lambda>w. native_disk (snd w)) writing written cleaned reading finished"
    unfolding native_program_def native_bench_def bloom_vary_simps by blast
qed (simp_all add: native_program_def)

interpretation native_program: main_program "native_program good_io mg" "\<lambda>st. int_settings (snd st)" "\<lambda>st. native_fits"
  "\<lambda>st w. native_disk (snd w)" for mg
  by (rule native_main_program)

lemma leveldb_main_program:
  assumes "db_lib_laws L db repr path (\<lambda>_. True)"
  shows "main_program (leveldb_program db L) (\<lambda>st. True) (\<lambda>st. plain_values) (\<lambda>st w. True)"
proof
  fix st :: settings
  from disk_store.bench_contract [OF ldb_disk_store [OF assms], of "snd st"
      "genDBPath (fst st) (cfg_alwaysFlush (snd st)) (cfg_useBloomFilter (snd st))" "cfg_alwaysFlush (snd st)"]
  show "\<exists>writing written cleaned reading finished. bench_program (bp_ops (leveldb_program db L) st) plain_values
      (\<lambda>w. True) writing written cleaned reading finished"
    unfolding leveldb_program_def leveldb_bench_def ldb_disk_ops_def bloom_vary_simps by blast
qed (simp_all add: leveldb_program_def)

lemma rocksdb_main_program:
  assumes "db_lib_laws L db repr path safe"
  shows "main_program (rocksdb_program db L) (\<lambda>st. True) (\<lambda>st. plain_values) (\<lambda>st w. True)"
proof
  fix st :: settings
  from disk_store.bench_contract [OF rdb_disk_store [OF assms], of "snd st"
      "genDBPath (fst st) (cfg_alwaysFlush (snd st)) (cfg_useBloomFilter (snd st))" "cfg_alwaysFlush (snd st)"]
  show "\<exists>writing written cleaned reading finished. bench_program (bp_ops (rocksdb_program db L) st) plain_values
      (\<lambda>w. True) writing written cleaned reading finished"
    unfolding rocksdb_program_def rocksdb_bench_def rdb_disk_ops_def bloom_vary_simps by blast
qed (simp_all add: rocksdb_program_def)

text \<open>Every suite of a program over a store sees the rounds of the same configuration.\<close>

lemma store_settings:
  assumes "(st, rs) \<in> set (main_settings (store_program n ops) run rounds)"
  shows "fst st = br_bc run" and "rs \<in> set rounds"
proof -
  let ?steps = "zip (loop_steps (store_program n ops) (bc_loopAll (br_bc run))) rounds"
  have "f \<in> set (loop_steps (store_program n ops) b) \<Longrightarrow> fst (f st) = fst st" for f b st
    by (auto simp: loop_steps_def split: if_splits)
  then have "\<forall>(f, rs) \<in> set ?steps. \<forall>st. fst st = br_bc run \<longrightarrow> fst (f st) = br_bc run" by (auto dest!: set_zip_leftD)
  from steps_settings_inv [where Q = "\<lambda>st. fst st = br_bc run", OF this _ assms [unfolded main_settings_def]]
  show "fst st = br_bc run" "rs \<in> set rounds" by (auto dest: set_zip_rightD)
qed

section \<open>Properties\<close>

lemma beginMain_settings:
  assumes "beginMain cli env name argv = Returns (c, run, report)" and "cli argv = Parsed args"
  shows "settings_checked (br_bc run, br_cfg run)"
    and "\<forall>a \<in> set args. arg_wf a \<Longrightarrow> settings_wf (br_bc run, br_cfg run)"
  using resolve_options_checked beginMain_run [OF assms] apply_args_wf [of args] by (auto simp: vars_wf_def)

lemma beginMain_outcome:
  assumes "cli argv = Parsed args"
  shows "(\<exists>run report. beginMain cli env name argv = Returns (0, run, report))
    \<or> (beginMain cli env name argv = Exits 1
        \<and> \<not> settings_checked (cv_bc (apply_args args), (cv_cfg (apply_args args))\<lparr>cfg_mpiAggType := Shared\<rparr>))"
  using assms by (auto simp: beginMain_def resolve_options_def settings_checked_def Let_def)

text \<open>
  C17. The settings of a run are well typed: whatever numbers of the width of an \<open>int\<close> the command line
  gives, a program either starts, and then all its suites run under settings in which every number is
  an \<open>int\<close> and every check of the start holds, or it exits with code 1 because a check fails.
\<close>

theorem settings_typed:
  assumes "cli argv = Parsed args" and "\<forall>a \<in> set args. arg_wf a" and "keeps_settings P"
  shows "(\<exists>run report. beginMain cli env name argv = Returns (0, run, report)
      \<and> (\<forall>(st, rs) \<in> set (main_settings P run rounds). settings_wf st \<and> settings_checked st))
    \<or> (beginMain cli env name argv = Exits 1
        \<and> \<not> settings_checked (cv_bc (apply_args args), (cv_cfg (apply_args args))\<lparr>cfg_mpiAggType := Shared\<rparr>))"
proof -
  have "settings_wf st \<and> settings_checked st"
    if run: "beginMain cli env name argv = Returns (0, run, report)" and st: "(st, rs) \<in> set (main_settings P run rounds)" for run report st rs
  proof -
    let ?Q = "\<lambda>st. settings_wf st \<and> settings_checked st"
    have "?Q st \<Longrightarrow> ?Q (f st)" if "f \<in> set (loop_steps P b)" for f b st
      using that assms(3) by (cases st) (auto simp: loop_steps_def keeps_settings_def split: if_splits)
    then have "\<forall>(f, rs) \<in> set (zip (loop_steps P (bc_loopAll (br_bc run))) rounds). \<forall>st. ?Q st \<longrightarrow> ?Q (f st)"
      by (auto dest!: set_zip_leftD)
    from steps_settings_inv [where Q = ?Q, OF this _ st [unfolded main_settings_def]]
    show ?thesis using beginMain_settings [OF run assms(1)] assms(2) by blast
  qed
  with beginMain_outcome [of cli argv args env name] assms(1) show ?thesis by blast
qed

definition sample_args :: "cli_arg list" where
  "sample_args = [Text_Arg ''-o'' ''bm'', Number_Arg ''--key-count'' 3, Number_Arg ''-z'' 8, Flag_Arg ''-l'' True]"

definition sample_run :: bm_run where
  "sample_run = \<lparr>br_bc = sample_bc\<lparr>bc_loopAll := True\<rparr>, br_cfg = default_config, br_log = initLSMIORelease ''bm'' log_start,
     br_handler = False, br_useMPI = False, br_mpiOpen = False, br_worldSize = 0, br_worldRank = 0, br_size = 0, br_rank = 0\<rparr>"

lemma sample_begin:
  "beginMain (\<lambda>_. Parsed sample_args) env ''bm'' [] = Returns (0, sample_run, Some (genOptionsToString (sample_bc\<lparr>bc_loopAll := True\<rparr>) default_config))"
proof -
  have "apply_args sample_args = cli_start\<lparr>cv_bc := sample_bc\<lparr>bc_loopAll := True\<rparr>\<rparr>" by code_simp
  then show ?thesis
    by (simp add: beginMain_def resolve_options_def Let_def cli_start_def sample_bc_def bm_default_def default_config_def sample_run_def)
qed

lemma sample_arg_wf: "\<forall>a \<in> set sample_args. arg_wf a"
  by (simp add: sample_args_def c_int_def)

theorem settings_typed_witness:
  "\<exists>run report. beginMain (\<lambda>_. Parsed sample_args) (sample_env 0) ''bm'' [] = Returns (0, run, report)
    \<and> (\<forall>(st, rs) \<in> set (main_settings (native_program good_io 0) run [[]]). settings_wf st \<and> settings_checked st)"
  using settings_typed [where cli = "\<lambda>_. Parsed sample_args" and argv = "[]" and args = sample_args and env = "sample_env 0"
      and name = "''bm''" and rounds = "[[]]", OF refl sample_arg_wf, of "native_program good_io 0"]
  by (simp add: sample_begin native_program_def programs_keep_settings(1))





end
