(* ===== verification/Native_Life.thy ===== *)
theory Native_Life
  imports Durable_Store
begin

text \<open>
  The native store over its whole life: mutations, write barriers and restarts in any order, where a
  restart closes the store and builds another one over its directory. Without preallocation such a
  life refines a map.
\<close>

section \<open>A life and what it stands for\<close>

datatype life = Mutate mutation_type key val bool | Barrier | Restart lsmio_config

text \<open>The map after a life, and the log of its mutations.\<close>

fun life_step :: "(key \<rightharpoonup> val) \<Rightarrow> life \<Rightarrow> key \<rightharpoonup> val" where
  "life_step m (Mutate t k v flush) = apply_mutation t k v m"
| "life_step m Barrier = m"
| "life_step m (Restart cfg) = m"

definition life_map :: "life list \<Rightarrow> key \<rightharpoonup> val" where
  "life_map xs = foldl life_step Map.empty xs"

lemma life_map_snoc: "life_map (xs @ [x]) = life_step (life_map xs) x"
  by (simp add: life_map_def)

fun life_log :: "life list \<Rightarrow> (key \<times> val) list" where
  "life_log [] = []"
| "life_log (Mutate t k v flush # xs) = (k, actual_value t v) # life_log xs"
| "life_log (Barrier # xs) = life_log xs"
| "life_log (Restart cfg # xs) = life_log xs"

section \<open>The store\<close>

fun live_one :: "io_env \<Rightarrow> string \<Rightarrow> u64 \<Rightarrow> life \<Rightarrow> native_state \<Rightarrow> native_state outcome" where
  "live_one env db mg (Mutate t k v flush) s = bind_outcome (seq_mutation env t k v flush s) (\<lambda>(b, s'). Returns s')"
| "live_one env db mg Barrier s = bind_outcome (seq_writeBarrier env s) (\<lambda>(b, s'). Returns s')"
| "live_one env db mg (Restart cfg) s = bind_outcome (seq_close env s) (\<lambda>s'. Returns (native_new cfg db False mg (snd s')))"

fun live_all :: "io_env \<Rightarrow> string \<Rightarrow> u64 \<Rightarrow> life list \<Rightarrow> native_state \<Rightarrow> native_state outcome" where
  "live_all env db mg [] s = Returns s"
| "live_all env db mg (x # xs) s = bind_outcome (live_one env db mg x s) (live_all env db mg xs)"

definition life_ok :: "life list \<Rightarrow> bool" where
  "life_ok xs \<longleftrightarrow> native_fits (life_log xs) \<and> (\<forall>x \<in> set xs. case x of
       Mutate t k v flush \<Rightarrow> t = Put \<longrightarrow> v \<noteq> MEMTABLE_TOMBSTONE
     | Barrier \<Rightarrow> True
     | Restart cfg \<Rightarrow> int_settings cfg \<and> \<not> cfg_preAllocate cfg)"

lemma life_log_snoc: "life_log (xs @ ys) = life_log xs @ life_log ys"
  by (induction xs rule: life_log.induct) simp_all

lemma live_all_snoc: "live_all env db mg (xs @ [x]) s = bind_outcome (live_all env db mg xs s) (live_one env db mg x)"
proof (induction xs arbitrary: s)
  case (Cons y ys)
  then show ?case by (cases "live_one env db mg y s") simp_all
next
  case Nil
  show ?case by (cases "live_one env db mg x s") simp_all
qed

lemma life_ok_snoc:
  assumes "life_ok (xs @ [x])"
  shows "life_ok xs"
proof -
  have "subseq (life_log xs) (life_log (xs @ [x]))" by (simp add: life_log_snoc subseq_rev_drop_many)
  with assms show ?thesis unfolding life_ok_def by (auto intro: native_fits_subseq)
qed

lemma live_life_log: "life_ok xs \<Longrightarrow> live (entries_map (life_log xs)) = life_map xs"
proof (induction xs rule: rev_induct)
  case (snoc x xs)
  have IH: "live (entries_map (life_log xs)) = life_map xs" by (rule snoc.IH [OF life_ok_snoc [OF snoc.prems]])
  show ?case
  proof (cases x)
    case (Mutate t k v flush)
    then have "t = Put \<longrightarrow> v \<noteq> MEMTABLE_TOMBSTONE" using snoc.prems by (auto simp: life_ok_def)
    from live_mutation [OF this, of "life_log xs" k] have "live (entries_map (life_log xs @ [(k, actual_value t v)]))
        = apply_mutation t k v (life_map xs)" by (simp only: IH)
    moreover have "life_log (xs @ [x]) = life_log xs @ [(k, actual_value t v)]" by (simp add: life_log_snoc Mutate)
    ultimately show ?thesis by (simp only: life_map_snoc Mutate life_step.simps)
  qed (simp_all add: life_log_snoc life_map_snoc IH)
qed (simp add: life_map_def)

text \<open>After a barrier and after a restart nothing is queued.\<close>

definition settled :: "life list \<Rightarrow> bool" where
  "settled xs \<longleftrightarrow> xs \<noteq> [] \<and> (case last xs of Mutate t k v flush \<Rightarrow> False | _ \<Rightarrow> True)"

lemma live_one_at:
  assumes at: "native_at db 0 h (1 + 2 * length h) s" and fit: "native_fits (h @ life_log [x])" and ok: "life_ok [x]"
  shows "\<exists>s'. live_one good_io db mg x s = Returns s' \<and> native_at db 0 (h @ life_log [x]) (1 + 2 * length (h @ life_log [x])) s'
    \<and> (settled [x] \<longrightarrow> nt_immutable (fst s') = [])"
proof (cases x)
  case (Mutate t k v flush)
  have "1 + 2 * length h + 2 < 2 ^ 64 - 1" "log_ok (h @ [(k, actual_value t v)])"
    using fit by (simp_all add: Mutate native_fits_def)
  from seq_mutation_at [OF at this, of flush] show ?thesis by (auto simp: Mutate settled_def)
next
  case Barrier
  have "1 + 2 * length h < 2 ^ 64 - 1" using fit by (simp add: Barrier native_fits_def)
  from seq_barrier_at [OF at this] show ?thesis by (auto simp: Barrier native_scannable_def)
next
  case (Restart cfg)
  have h: "1 + 2 * length h < 2 ^ 64 - 1" "log_ok h" using fit by (simp_all add: Restart native_fits_def)
  from ok have cfg: "\<not> cfg_preAllocate cfg" "0 < cfg_filePoolSize cfg" "cfg_filePoolSize cfg < 2 ^ 31" "cfg_writeBufferNumber cfg < 2 ^ 31"
    by (simp_all add: Restart life_ok_def int_settings_def)
  from close_reopen [OF at h(1)] obtain s' gens head where s': "seq_close good_io s = Returns s'"
    "flushed_entries gens = h" "disk_inv 0 db gens head (snd s')" "ids_below (1 + 2 * length h) db (snd s')" by blast
  have "log_ok (flushed_entries gens)" using h(2) s'(2) by simp
  from native_resume [OF s'(3,4) _ h(1) this cfg, of mg]
  have "native_at db 0 h (1 + 2 * length h) (native_new cfg db False mg (snd s'))" by (simp add: s'(2))
  moreover have "nt_immutable (fst (native_new cfg db False mg (snd s'))) = []"
    using native_new_fields(4) by (metis prod.collapse)
  ultimately show ?thesis using s'(1) by (simp add: Restart)
qed

lemma live_all_at:
  assumes at: "native_at db 0 [] 1 s"
  shows "life_ok xs \<Longrightarrow> \<exists>s'. live_all good_io db mg xs s = Returns s'
    \<and> native_at db 0 (life_log xs) (1 + 2 * length (life_log xs)) s' \<and> (settled xs \<longrightarrow> nt_immutable (fst s') = [])"
proof (induction xs rule: rev_induct)
  case Nil
  then show ?case using at by (simp add: settled_def)
next
  case (snoc x xs)
  from snoc.IH [OF life_ok_snoc [OF snoc.prems]] obtain s1 where s1: "live_all good_io db mg xs s = Returns s1"
    "native_at db 0 (life_log xs) (1 + 2 * length (life_log xs)) s1" by blast
  have fit: "native_fits (life_log xs @ life_log [x])"
    using snoc.prems by (simp add: life_ok_def flip: life_log_snoc)
  moreover have "subseq (life_log [x]) (life_log xs @ life_log [x])" by (simp add: subseq_drop_many)
  ultimately have "native_fits (life_log [x])" using native_fits_subseq by blast
  then have "life_ok [x]" using snoc.prems by (simp add: life_ok_def)
  from live_one_at [OF s1(2) fit this, of mg] s1(1) show ?case
    by (auto simp: live_all_snoc life_log_snoc settled_def)
qed

section \<open>Properties\<close>


definition sample_life :: "life list" where
  "sample_life = [Mutate Put ''k'' ''1'' False, Mutate Put ''j'' ''2'' False, Restart default_config,
     Mutate Del ''k'' [] False, Mutate Put ''j'' ''3'' True, Restart default_config]"


end
