(* ===== verification/Shutdown.thy ===== *)
theory Shutdown
  imports Store_Native
begin

text \<open>
  How a background thread is told to end: the wait of \<open>FlushWorkLoop\<close> and \<open>close\<close> in
  \<open>native/store_native.cpp\<close>, and the wait of \<open>workerLoop\<close> and the destructor in \<open>native/file_closer.cpp\<close>, at the
  level of the mutex and the condition variable. \<open>Store_Native\<close> and \<open>File_Closer\<close> let a thread go on
  whenever its predicate holds; here a thread that sleeps goes on only when it is notified. The locale
  \<open>wake_protocol\<close> has what the two need of their predicates. They differ in one point: the destructor
  sets its flag under the mutex, \<open>close\<close> does not, and its notification can be lost.
\<close>

section \<open>The protocol\<close>

text \<open>
  \<open>Checking\<close>: the thread holds the mutex and looks at the predicate; \<open>Deciding\<close>: it has found it false and
  is about to sleep, which releases the mutex.
\<close>

datatype waiter = Outside | Checking | Deciding | Asleep | Gone

datatype stopper = Before | Inside | Flagged | Notified | Returned

datatype owner = Free | Held_by_waiter | Held_by_stopper

record wake =
  wk_mutex :: owner
  wk_flag :: bool
  wk_work :: nat
  wk_todo :: nat
  wk_waiter :: waiter
  wk_stopper :: stopper

text \<open>
  What the code of a class decides: whether so much work ends the wait, what a turn leaves of it, whether
  the thread returns once the flag is set, whether a producer notifies, and whether the flag is set
  under the mutex.
\<close>

record wake_code =
  wc_wakes :: "nat \<Rightarrow> bool"
  wc_take :: "nat \<Rightarrow> nat"
  wc_exits :: "nat \<Rightarrow> bool"
  wc_tells :: "nat \<Rightarrow> bool \<Rightarrow> bool"
  wc_guarded :: bool

definition native_wake :: wake_code where
  "native_wake = \<lparr>wc_wakes = (\<lambda>w. w \<noteq> 0), wc_take = (\<lambda>w. w - 1), wc_exits = (\<lambda>w. w = 0),
     wc_tells = (\<lambda>w f. True), wc_guarded = False\<rparr>"

definition closer_wake :: "nat \<Rightarrow> wake_code" where
  "closer_wake batchSize = \<lparr>wc_wakes = (\<lambda>w. batchSize \<le> w), wc_take = (\<lambda>w. 0), wc_exits = (\<lambda>w. w = 0),
     wc_tells = (\<lambda>w f. batchSize \<le> w \<or> f), wc_guarded = True\<rparr>"

text \<open>A notification reaches the thread only if it sleeps; it then has to take the mutex again.\<close>

definition wake_up :: "wake \<Rightarrow> wake" where
  "wake_up s = (if wk_waiter s = Asleep then s\<lparr>wk_waiter := Outside\<rparr> else s)"

definition produce :: "wake_code \<Rightarrow> wake \<Rightarrow> wake" where
  "produce c s = (let s1 = s\<lparr>wk_work := Suc (wk_work s), wk_todo := wk_todo s - 1\<rparr>
     in if wc_tells c (wk_work s1) (wk_flag s1) then wake_up s1 else s1)"

definition wake_start :: "nat \<Rightarrow> nat \<Rightarrow> wake" where
  "wake_start work todo = \<lparr>wk_mutex = Free, wk_flag = False, wk_work = work, wk_todo = todo,
     wk_waiter = Outside, wk_stopper = Before\<rparr>"

inductive wake_step :: "wake_code \<Rightarrow> wake \<Rightarrow> wake \<Rightarrow> bool" for c where
  w_lock: "wk_waiter s = Outside \<Longrightarrow> wk_mutex s = Free \<Longrightarrow>
    wake_step c s (s\<lparr>wk_waiter := Checking, wk_mutex := Held_by_waiter\<rparr>)"
| w_false: "wk_waiter s = Checking \<Longrightarrow> \<not> (wk_flag s \<or> wc_wakes c (wk_work s)) \<Longrightarrow>
    wake_step c s (s\<lparr>wk_waiter := Deciding\<rparr>)"
| w_sleep: "wk_waiter s = Deciding \<Longrightarrow> wake_step c s (s\<lparr>wk_waiter := Asleep, wk_mutex := Free\<rparr>)"
| w_exit: "wk_waiter s = Checking \<Longrightarrow> wk_flag s \<Longrightarrow> wc_exits c (wk_work s) \<Longrightarrow>
    wake_step c s (s\<lparr>wk_waiter := Gone, wk_mutex := Free\<rparr>)"
| w_turn: "wk_waiter s = Checking \<Longrightarrow> wk_flag s \<or> wc_wakes c (wk_work s) \<Longrightarrow> \<not> (wk_flag s \<and> wc_exits c (wk_work s)) \<Longrightarrow>
    wake_step c s (s\<lparr>wk_waiter := Outside, wk_mutex := Free, wk_work := wc_take c (wk_work s)\<rparr>)"
| p_add: "wk_mutex s = Free \<Longrightarrow> wk_todo s \<noteq> 0 \<Longrightarrow> wake_step c s (produce c s)"
| s_lock: "wc_guarded c \<Longrightarrow> wk_stopper s = Before \<Longrightarrow> wk_mutex s = Free \<Longrightarrow>
    wake_step c s (s\<lparr>wk_stopper := Inside, wk_mutex := Held_by_stopper\<rparr>)"
| s_unlock: "wk_stopper s = Inside \<Longrightarrow> wake_step c s (s\<lparr>wk_stopper := Flagged, wk_flag := True, wk_mutex := Free\<rparr>)"
| s_flag: "\<not> wc_guarded c \<Longrightarrow> wk_stopper s = Before \<Longrightarrow> wake_step c s (s\<lparr>wk_stopper := Flagged, wk_flag := True\<rparr>)"
| s_notify: "wk_stopper s = Flagged \<Longrightarrow> wake_step c s ((wake_up s)\<lparr>wk_stopper := Notified\<rparr>)"
| s_join: "wk_stopper s = Notified \<Longrightarrow> wk_waiter s = Gone \<Longrightarrow> wake_step c s (s\<lparr>wk_stopper := Returned\<rparr>)"

inductive_simps asleep_stuck: "wake_step c \<lparr>wk_mutex = Free, wk_flag = True, wk_work = w, wk_todo = 0,
  wk_waiter = Asleep, wk_stopper = Notified\<rparr> s'"

section \<open>Its runs\<close>

fun wake_ok :: "bool \<Rightarrow> owner \<Rightarrow> bool \<Rightarrow> waiter \<Rightarrow> stopper \<Rightarrow> bool" where
  "wake_ok guarded mutex flag w p \<longleftrightarrow>
     (mutex = Held_by_waiter \<longleftrightarrow> w = Checking \<or> w = Deciding)
     \<and> (mutex = Held_by_stopper \<longleftrightarrow> p = Inside)
     \<and> (flag \<longleftrightarrow> p = Flagged \<or> p = Notified \<or> p = Returned)
     \<and> (p = Inside \<longrightarrow> guarded) \<and> (w = Gone \<longrightarrow> flag) \<and> (p = Returned \<longrightarrow> w = Gone)
     \<and> (guarded \<and> w = Deciding \<longrightarrow> \<not> flag) \<and> (guarded \<and> w = Asleep \<longrightarrow> \<not> flag \<or> p = Flagged)"

definition wake_inv :: "wake_code \<Rightarrow> wake \<Rightarrow> bool" where
  "wake_inv c s \<longleftrightarrow> wake_ok (wc_guarded c) (wk_mutex s) (wk_flag s) (wk_waiter s) (wk_stopper s)"

primrec waiter_left :: "waiter \<Rightarrow> nat" where
  "waiter_left Outside = 3"
| "waiter_left Checking = 2"
| "waiter_left Deciding = 1"
| "waiter_left Asleep = 0"
| "waiter_left Gone = 0"

primrec stopper_left :: "stopper \<Rightarrow> nat" where
  "stopper_left Before = 4"
| "stopper_left Inside = 3"
| "stopper_left Flagged = 2"
| "stopper_left Notified = 1"
| "stopper_left Returned = 0"

definition wake_left :: "wake \<Rightarrow> nat" where
  "wake_left s = 2 * wk_work s + 6 * wk_todo s + waiter_left (wk_waiter s) + 4 * stopper_left (wk_stopper s)"

lemma wake_inv_start: "wake_inv c (wake_start w t)"
  by (simp add: wake_inv_def wake_start_def)

lemma wake_up_fields [simp]:
  "wk_mutex (wake_up s) = wk_mutex s" "wk_flag (wake_up s) = wk_flag s" "wk_work (wake_up s) = wk_work s"
  "wk_todo (wake_up s) = wk_todo s" "wk_stopper (wake_up s) = wk_stopper s"
  "wk_waiter (wake_up s) = (if wk_waiter s = Asleep then Outside else wk_waiter s)"
  by (simp_all add: wake_up_def)

lemma produce_fields [simp]:
  "wk_mutex (produce c s) = wk_mutex s" "wk_flag (produce c s) = wk_flag s" "wk_work (produce c s) = Suc (wk_work s)"
  "wk_todo (produce c s) = wk_todo s - 1" "wk_stopper (produce c s) = wk_stopper s"
  "wk_waiter (produce c s) = (if wk_waiter s = Asleep \<and> wc_tells c (Suc (wk_work s)) (wk_flag s) then Outside else wk_waiter s)"
  by (simp_all add: produce_def Let_def)

lemma wake_inv_step:
  assumes "wake_step c s s'" and inv: "wake_inv c s"
  shows "wake_inv c s'"
  using assms unfolding wake_inv_def
proof (induction rule: wake_step.induct)
  case (p_add s)
  then show ?case by (cases "wk_waiter s"; cases "wk_stopper s"; simp)
next
  case (s_notify s)
  then show ?case by (cases "wk_mutex s"; cases "wk_waiter s"; simp)
next
  case (w_sleep s)
  then show ?case by (cases "wk_stopper s"; auto)
next
  case (w_false s)
  then show ?case by (cases "wk_mutex s"; cases "wk_stopper s"; simp)
next
  case (s_unlock s)
  then show ?case by (cases "wk_mutex s"; cases "wk_waiter s"; simp)
next
  case (s_flag s)
  then show ?case by (cases "wk_mutex s"; cases "wk_waiter s"; simp)
next
  case (w_exit s)
  then show ?case by (cases "wk_stopper s"; simp)
next
  case (w_turn s)
  then show ?case by (cases "wk_stopper s"; simp)
next
  case (s_lock s)
  then show ?case by (cases "wk_waiter s"; simp)
next
  case (s_join s)
  then show ?case by (cases "wk_mutex s"; simp)
next
  case (w_lock s)
  then show ?case by (cases "wk_stopper s"; simp)
qed

lemma wake_inv_run: "(wake_step c)\<^sup>*\<^sup>* (wake_start w t) s \<Longrightarrow> wake_inv c s"
  by (induction rule: rtranclp_induct) (auto intro: wake_inv_start wake_inv_step)

text \<open>
  What makes a wait correct but for the flag: a turn makes the work less, and whoever makes the predicate
  true notifies.
\<close>

locale wake_protocol =
  fixes c :: wake_code
  assumes turn_less: "wc_wakes c w \<or> \<not> wc_exits c w \<Longrightarrow> wc_take c w < w"
    and tells: "wc_wakes c w \<or> f \<Longrightarrow> wc_tells c w f"
begin

lemma step_less:
  assumes "wake_step c s s'"
  shows "wake_left s' < wake_left s"
  using assms
proof (cases rule: wake_step.cases)
  case w_turn
  then have "wc_take c (wk_work s) < wk_work s" by (intro turn_less) blast
  with w_turn show ?thesis by (simp add: wake_left_def)
qed (auto simp: wake_left_def produce_def wake_up_def Let_def)

lemma run_bound:
  "(wake_step c ^^ k) (wake_start w t) s \<Longrightarrow> k + wake_left s \<le> 2 * w + 6 * t + 19"
proof (induction k arbitrary: s)
  case 0
  then show ?case by (auto simp: wake_left_def wake_start_def)
next
  case (Suc k)
  then obtain s1 where s1: "(wake_step c ^^ k) (wake_start w t) s1" "wake_step c s1 s" by auto
  from step_less [OF s1(2)] Suc.IH [OF s1(1)] show ?case by simp
qed

lemma run_exists: "\<exists>k s. (wake_step c ^^ k) (wake_start w t) s \<and> (\<forall>s'. \<not> wake_step c s s')"
  by (rule bounded_run_stops [where N = "2 * w + 6 * t + 19"]) (use run_bound in fastforce)

text \<open>A run stops when the thread is gone and joined, or when it sleeps and nobody will wake it.\<close>

lemma stuck_cases:
  assumes inv: "wake_inv c s" and stuck: "\<forall>s'. \<not> wake_step c s s'"
  shows "wk_todo s = 0 \<and> (wk_waiter s = Gone \<and> wk_stopper s = Returned
    \<or> \<not> wc_guarded c \<and> wk_waiter s = Asleep \<and> wk_stopper s = Notified)"
proof -
  have no: "\<not> wake_step c s s'" for s' using stuck by blast
  have "wk_waiter s \<noteq> Checking" using w_false w_exit w_turn no by blast
  moreover have "wk_waiter s \<noteq> Deciding" using w_sleep no by blast
  moreover have "wk_stopper s \<noteq> Inside" using s_unlock no by blast
  ultimately have free: "wk_mutex s = Free" using inv by (cases "wk_mutex s") (cases "wk_waiter s"; cases "wk_stopper s"; simp add: wake_inv_def)+
  have "wk_waiter s \<noteq> Outside" using w_lock [OF _ free] no by blast
  moreover have "wk_todo s = 0" using p_add [OF free] no by blast
  moreover have "wk_stopper s \<noteq> Before" using s_lock [OF _ _ free] s_flag no by blast
  moreover have "wk_stopper s \<noteq> Flagged" using s_notify no by blast
  moreover have "wk_stopper s = Notified \<Longrightarrow> wk_waiter s \<noteq> Gone" using s_join no by blast
  moreover note \<open>wk_waiter s \<noteq> Checking\<close> \<open>wk_waiter s \<noteq> Deciding\<close> \<open>wk_stopper s \<noteq> Inside\<close>
  ultimately show ?thesis using inv by (cases "wk_waiter s"; cases "wk_stopper s") (simp_all add: wake_inv_def)
qed

text \<open>A thread that sleeps has no work that would end its wait.\<close>

lemma sleeper_step:
  assumes "wake_step c s s'" and "wake_inv c s" and "wk_waiter s = Deciding \<or> wk_waiter s = Asleep \<longrightarrow> \<not> wc_wakes c (wk_work s)"
  shows "wk_waiter s' = Deciding \<or> wk_waiter s' = Asleep \<longrightarrow> \<not> wc_wakes c (wk_work s')"
  using assms unfolding wake_inv_def
proof (induction rule: wake_step.induct)
  case (p_add s)
  have no: "wk_waiter s \<noteq> Deciding"
  proof
    assume "wk_waiter s = Deciding"
    with p_add(1,3) show False by simp
  qed
  have tell: "\<not> wc_tells c (Suc (wk_work s)) (wk_flag s) \<Longrightarrow> \<not> wc_wakes c (Suc (wk_work s))" using tells by blast
  show ?case unfolding produce_fields using no tell by (cases "wc_tells c (Suc (wk_work s)) (wk_flag s)") auto
qed simp_all

lemma sleeper_idle:
  "(wake_step c)\<^sup>*\<^sup>* (wake_start w t) s \<Longrightarrow> wk_waiter s = Deciding \<or> wk_waiter s = Asleep \<longrightarrow> \<not> wc_wakes c (wk_work s)"
proof (induction rule: rtranclp_induct)
  case base
  then show ?case by (simp add: wake_start_def)
next
  case (step s s')
  show ?case by (rule sleeper_step [OF step.hyps(2) wake_inv_run [OF step.hyps(1)] step.IH])
qed

end

interpretation native_shutdown: wake_protocol native_wake
  by unfold_locales (auto simp: native_wake_def)

interpretation closer_shutdown: wake_protocol "closer_wake (Suc b)" for b
  by unfold_locales (auto simp: closer_wake_def)

section \<open>Properties\<close>

text \<open>
  C24. The destructor of the file closer always gets its thread to end: whatever files are scheduled before it
  and while it runs, every run ends within the bound, and one that cannot go on has the thread ended
  and joined, for every batch size but 0.
\<close>

theorem closer_shutdown_ends:
  assumes "0 < batchSize" and "(wake_step (closer_wake batchSize) ^^ k) (wake_start w t) s"
  shows "k \<le> 2 * w + 6 * t + 19
    \<and> ((\<forall>s'. \<not> wake_step (closer_wake batchSize) s s') \<longrightarrow> wk_waiter s = Gone \<and> wk_stopper s = Returned \<and> wk_todo s = 0)"
proof -
  from assms(1) obtain b where b: "batchSize = Suc b" by (cases batchSize) auto
  note run = assms(2) [unfolded b]
  from wake_inv_run [OF relpowp_imp_rtranclp [OF run]] have inv: "wake_inv (closer_wake (Suc b)) s" .
  have "wc_guarded (closer_wake (Suc b))" by (simp add: closer_wake_def)
  with closer_shutdown.run_bound [OF run] closer_shutdown.stuck_cases [OF inv] show ?thesis by (auto simp: b)
qed



theorem closer_shutdown_ends_witness:
  "\<exists>k s. (wake_step (closer_wake 2) ^^ k) (wake_start 3 5) s \<and> k \<le> 55 \<and> wk_waiter s = Gone \<and> wk_stopper s = Returned"
proof -
  from closer_shutdown.run_exists [of 1 3 5] obtain k s where
    s: "(wake_step (closer_wake 2) ^^ k) (wake_start 3 5) s" "\<forall>s'. \<not> wake_step (closer_wake 2) s s'"
    by (auto simp: numeral_2_eq_2)
  note e = closer_shutdown_ends [OF zero_less_numeral s(1)]
  have "k \<le> 55" using conjunct1 [OF e] by simp
  with s(1) conjunct2 [OF e, THEN mp, OF s(2)] show ?thesis by (intro exI conjI) (assumption, simp_all)
qed

end
