(* ===== verification/Group_Life.thy ===== *)
theory Group_Life
  imports Transport
begin

text \<open>
  The life of an aggregation group of any number of ranks, from \<open>startCollectiveIOServer\<close> and
  \<open>startCollectiveIOClient\<close> to \<open>stopCollectiveIOServer\<close> and \<open>stopCollectiveIOClient\<close> in
  \<open>lib/manager/client/client.cpp\<close>: the thread of the server, the two barriers, and the commands between
  them, as a step relation that interleaves all ranks. Rank 0 serves (\<open>AGGREGATION_RANK\<close>). The invariant
  of its runs says which messages are where, and that every command has been processed when a rank
  passes the second barrier (\<open>team_served\<close>).
\<close>

section \<open>The state\<close>

text \<open>Where the main thread of a rank is: \<open>Spawned\<close> and \<open>Joining\<close> occur at the serving rank only.\<close>

datatype phase = Starting | Spawned | At_Start | Running | Joining | At_End | Ended

primrec phase_no :: "phase \<Rightarrow> nat" where
  "phase_no Starting = 0"
| "phase_no Spawned = 1"
| "phase_no At_Start = 2"
| "phase_no Running = 3"
| "phase_no Joining = 4"
| "phase_no At_End = 5"
| "phase_no Ended = 6"

lemma phase_no_inj: "phase_no p = phase_no q \<longleftrightarrow> p = q"
  by (cases p; cases q) simp_all

instantiation phase :: linorder
begin

definition less_eq_phase :: "phase \<Rightarrow> phase \<Rightarrow> bool" where
  "p \<le> q \<longleftrightarrow> phase_no p \<le> phase_no q"

definition less_phase :: "phase \<Rightarrow> phase \<Rightarrow> bool" where
  "p < q \<longleftrightarrow> phase_no p < phase_no q"

instance
  by standard (auto simp: less_eq_phase_def less_phase_def phase_no_inj)

end

lemmas phase_order = less_eq_phase_def less_phase_def

datatype server_thread = No_Thread | Created | Synchronized | Looping | Over

record member =
  rk_phase :: phase
  rk_todo :: "command list"
  rk_waiting :: bool
  rk_replies :: "command list"

record 's team =
  tm_rank :: "nat \<Rightarrow> member"
  tm_thread :: server_thread
  tm_loopRunning :: bool
  tm_server :: "'s server"
  tm_exit :: "int option"

definition team_new :: "nat \<Rightarrow> (nat \<Rightarrow> command list) \<Rightarrow> 's \<Rightarrow> 's team" where
  "team_new n progs s = \<lparr>tm_rank = (\<lambda>r. \<lparr>rk_phase = Starting, rk_todo = progs r, rk_waiting = False, rk_replies = []\<rparr>),
     tm_thread = No_Thread, tm_loopRunning = False, tm_server = server_new 0 n (replicate n []) s, tm_exit = None\<rparr>"

abbreviation phase_at :: "'s team \<Rightarrow> nat \<Rightarrow> phase" where
  "phase_at g r \<equiv> rk_phase (tm_rank g r)"

abbreviation team_size :: "'s team \<Rightarrow> nat" where
  "team_size g \<equiv> sv_size (tm_server g)"

section \<open>The operations\<close>

definition to_phase :: "nat \<Rightarrow> phase \<Rightarrow> 's team \<Rightarrow> 's team" where
  "to_phase r p g = g\<lparr>tm_rank := (tm_rank g)(r := (tm_rank g r)\<lparr>rk_phase := p\<rparr>)\<rparr>"

text \<open>\<open>_barrier\<close>: a rank leaves it when all ranks have come to it.\<close>

definition barrier_open :: "phase \<Rightarrow> 's team \<Rightarrow> bool" where
  "barrier_open p g \<longleftrightarrow> list_all (\<lambda>q. p \<le> phase_at g q) [0..<team_size g]"

text \<open>\<open>startCollectiveIOServer\<close> makes the thread, which reports that it runs before it serves.\<close>

definition spawn_helper :: "'s team \<Rightarrow> 's team" where
  "spawn_helper g = to_phase 0 Spawned (g\<lparr>tm_thread := Created\<rparr>)"

definition helper_ready :: "'s team \<Rightarrow> 's team" where
  "helper_ready g = g\<lparr>tm_thread := Synchronized\<rparr>"

definition enter_loop :: "'s team \<Rightarrow> 's team" where
  "enter_loop g = g\<lparr>tm_thread := Looping, tm_loopRunning := True\<rparr>"

text \<open>A turn of the loop in the thread; an exception ends the process.\<close>

definition helperThread :: "'s callback \<Rightarrow> 's team \<Rightarrow> 's team outcome" where
  "helperThread func g = (case server_turn func (tm_server g) of
       Returns (Some sv) \<Rightarrow> Returns (g\<lparr>tm_server := sv\<rparr>)
     | Returns None \<Rightarrow> Returns (g\<lparr>tm_thread := Over, tm_loopRunning := False\<rparr>)
     | Throws e \<Rightarrow> Returns (g\<lparr>tm_exit := Some 1\<rparr>)
     | Exits c \<Rightarrow> Returns (g\<lparr>tm_exit := Some c\<rparr>)
     | Blocks \<Rightarrow> Blocks
     | Undefined \<Rightarrow> Undefined)"

definition client_sends :: "nat \<Rightarrow> command \<Rightarrow> command list \<Rightarrow> 's team \<Rightarrow> 's team" where
  "client_sends r c cs g = g\<lparr>tm_rank := (tm_rank g)(r := (tm_rank g r)\<lparr>rk_todo := cs, rk_waiting := (reply_command (fst c) \<noteq> None)\<rparr>),
     tm_server := sendCommand r (fst c) (fst (snd c)) (snd (snd c)) (tm_server g)\<rparr>"

definition client_receives :: "nat \<Rightarrow> command \<Rightarrow> 's server \<Rightarrow> 's team \<Rightarrow> 's team" where
  "client_receives r x sv g = g\<lparr>tm_rank := (tm_rank g)(r := (tm_rank g r)\<lparr>rk_waiting := False,
     rk_replies := rk_replies (tm_rank g r) @ [x]\<rparr>), tm_server := sv\<rparr>"

text \<open>\<open>stopCollectiveIOClient\<close> sends the end command and goes to the second barrier.\<close>

definition client_stops :: "nat \<Rightarrow> 's team \<Rightarrow> 's team" where
  "client_stops r g = (to_phase r At_End g)\<lparr>tm_server := sendCommand r EOL_COMMAND KV_DUMMY [] (tm_server g)\<rparr>"

text \<open>
  Between the barriers the main thread of the serving rank works on its own store, next to the thread that
  serves the others; each call takes effect at once. \<open>func 0\<close> stands for its calls: the server never calls
  \<open>func\<close> for its own rank. What a call answers is written as a reply.
\<close>

definition answer :: "command \<Rightarrow> string \<Rightarrow> command list" where
  "answer c ret = (case reply_command (fst c) of None \<Rightarrow> [] | Some x \<Rightarrow> [(x, fst (snd c), ret)])"

definition own_call :: "command \<Rightarrow> command list \<Rightarrow> string \<Rightarrow> 's \<Rightarrow> 's team \<Rightarrow> 's team" where
  "own_call c cs ret s g = g\<lparr>tm_rank := (tm_rank g)(0 := (tm_rank g 0)\<lparr>rk_todo := cs,
     rk_replies := rk_replies (tm_rank g 0) @ answer c ret\<rparr>), tm_server := (tm_server g)\<lparr>sv_lm := s\<rparr>\<rparr>"

definition client_rank :: "nat \<Rightarrow> 's team \<Rightarrow> bool" where
  "client_rank r g \<longleftrightarrow> 0 < r \<and> r < team_size g"

inductive team_step :: "'s callback \<Rightarrow> 's team \<Rightarrow> 's team \<Rightarrow> bool" for func where
  t_spawn: "tm_exit g = None \<Longrightarrow> phase_at g 0 = Starting \<Longrightarrow> team_step func g (spawn_helper g)"
| t_ready: "tm_exit g = None \<Longrightarrow> tm_thread g = Created \<Longrightarrow> team_step func g (helper_ready g)"
| t_spawned: "tm_exit g = None \<Longrightarrow> phase_at g 0 = Spawned \<Longrightarrow> tm_thread g \<notin> {No_Thread, Created} \<Longrightarrow>
    team_step func g (to_phase 0 At_Start g)"
| t_client: "tm_exit g = None \<Longrightarrow> client_rank r g \<Longrightarrow> phase_at g r = Starting \<Longrightarrow> team_step func g (to_phase r At_Start g)"
| t_started: "tm_exit g = None \<Longrightarrow> r < team_size g \<Longrightarrow> phase_at g r = At_Start \<Longrightarrow> barrier_open At_Start g \<Longrightarrow>
    team_step func g (to_phase r Running g)"
| t_loop: "tm_exit g = None \<Longrightarrow> tm_thread g = Synchronized \<Longrightarrow> team_step func g (enter_loop g)"
| t_turn: "tm_exit g = None \<Longrightarrow> tm_thread g = Looping \<Longrightarrow> helperThread func g = Returns g' \<Longrightarrow> team_step func g g'"
| t_send: "tm_exit g = None \<Longrightarrow> client_rank r g \<Longrightarrow> phase_at g r = Running \<Longrightarrow> \<not> rk_waiting (tm_rank g r) \<Longrightarrow>
    rk_todo (tm_rank g r) = c # cs \<Longrightarrow> team_step func g (client_sends r c cs g)"
| t_recv: "tm_exit g = None \<Longrightarrow> client_rank r g \<Longrightarrow> rk_waiting (tm_rank g r) \<Longrightarrow> recvCommand r (tm_server g) = Returns (x, sv) \<Longrightarrow>
    team_step func g (client_receives r x sv g)"
| t_stop: "tm_exit g = None \<Longrightarrow> client_rank r g \<Longrightarrow> phase_at g r = Running \<Longrightarrow> \<not> rk_waiting (tm_rank g r) \<Longrightarrow>
    rk_todo (tm_rank g r) = [] \<Longrightarrow> team_step func g (client_stops r g)"
| t_join: "tm_exit g = None \<Longrightarrow> phase_at g 0 = Running \<Longrightarrow> rk_todo (tm_rank g 0) = [] \<Longrightarrow> team_step func g (to_phase 0 Joining g)"
| t_joined: "tm_exit g = None \<Longrightarrow> phase_at g 0 = Joining \<Longrightarrow> tm_thread g = Over \<Longrightarrow> team_step func g (to_phase 0 At_End g)"
| t_ended: "tm_exit g = None \<Longrightarrow> r < team_size g \<Longrightarrow> phase_at g r = At_End \<Longrightarrow> barrier_open At_End g \<Longrightarrow>
    team_step func g (to_phase r Ended g)"
| t_own: "tm_exit g = None \<Longrightarrow> phase_at g 0 = Running \<Longrightarrow> rk_todo (tm_rank g 0) = c # cs \<Longrightarrow>
    func 0 (fst c) (fst (snd c)) (snd (snd c)) (sv_lm (tm_server g)) = Returns (ret, s) \<Longrightarrow> team_step func g (own_call c cs ret s g)"

lemmas team_ops_defs = to_phase_def spawn_helper_def helper_ready_def enter_loop_def client_sends_def client_receives_def
  client_stops_def sendCommand_def own_call_def

text \<open>
  \<open>_cancelWaitForCommand\<close> resets the flag and joins the thread. The flag is written by the loop and read
  by nobody: it does not end the loop.
\<close>

definition cancelWaitForCommand :: "'s team \<Rightarrow> 's team outcome" where
  "cancelWaitForCommand g = (if tm_thread g = Over then Returns (g\<lparr>tm_loopRunning := False\<rparr>) else Blocks)"

lemma helperThread_flag:
  "helperThread func (g\<lparr>tm_loopRunning := b\<rparr>) = bind_outcome (helperThread func g) (\<lambda>g'.
     Returns (g'\<lparr>tm_loopRunning := if tm_thread g' = Over \<and> tm_thread g \<noteq> Over then False else b\<rparr>))"
  if "tm_thread g = Looping"
  using that by (auto simp: helperThread_def split: outcome.split option.split)

section \<open>Messages of one rank\<close>

definition of_rank :: "nat \<Rightarrow> (nat \<times> 'a) list \<Rightarrow> 'a list" where
  "of_rank r xs = map snd (filter (\<lambda>x. fst x = r) xs)"

lemma of_rank_simps [simp]:
  "of_rank r [] = []" "of_rank r (x # xs) = (if fst x = r then snd x # of_rank r xs else of_rank r xs)"
  "of_rank r (xs @ ys) = of_rank r xs @ of_rank r ys"
  by (simp_all add: of_rank_def)

lemma of_rank_map: "of_rank r (map (\<lambda>(q, x). (q, f x)) xs) = map f (of_rank r xs)"
  by (induction xs) auto

lemma take_message_of_rank:
  "take_message r ms = (case of_rank r ms of [] \<Rightarrow> None | b # bs \<Rightarrow> take_message r ms)"
  by (induction ms) (auto split: list.splits)

lemma take_message_SomeD:
  "take_message r ms = Some (b, ms') \<Longrightarrow> of_rank r ms = b # of_rank r ms' \<and> (\<forall>q. q \<noteq> r \<longrightarrow> of_rank q ms = of_rank q ms')
    \<and> length ms = Suc (length ms')"
  by (induction ms arbitrary: ms') (fastforce split: if_splits)+

lemma take_message_exists: "of_rank r ms \<noteq> [] \<Longrightarrow> \<exists>b ms'. take_message r ms = Some (b, ms')"
  by (induction ms) (fastforce split: if_splits)+

section \<open>Commands in rounds\<close>

text \<open>Commands of several ranks, each taking effect at once, with the replies and whom they are for.\<close>

fun do_ranked :: "'s callback \<Rightarrow> (nat \<times> command) list \<Rightarrow> 's \<Rightarrow> ((nat \<times> command) list \<times> 's) outcome" where
  "do_ranked func [] s = Returns ([], s)"
| "do_ranked func ((r, cmd, k, v) # cs) s = bind_outcome (func r cmd k v s) (\<lambda>(ret, s').
     bind_outcome (do_ranked func cs s') (\<lambda>(rs, s'').
       Returns ((case reply_command cmd of None \<Rightarrow> rs | Some c \<Rightarrow> (r, c, k, ret) # rs), s'')))"

text \<open>Round \<open>j\<close> has the \<open>j\<close>-th command of every client, in the order of the ranks.\<close>

definition round_calls :: "nat \<Rightarrow> (nat \<Rightarrow> command list) \<Rightarrow> nat \<Rightarrow> (nat \<times> command) list" where
  "round_calls n progs j = map (\<lambda>r. (r, progs r ! j)) (filter (\<lambda>r. j < length (progs r)) [1..<n])"

definition rounds_calls :: "nat \<Rightarrow> (nat \<Rightarrow> command list) \<Rightarrow> nat \<Rightarrow> (nat \<times> command) list" where
  "rounds_calls n progs t = concat (map (round_calls n progs) [0..<t])"

lemma do_ranked_Cons:
  assumes "do_ranked func ((r, cmd, k, v) # cs) s = Returns (rs, s')"
  obtains ret s1 rs1 where "func r cmd k v s = Returns (ret, s1)" and "do_ranked func cs s1 = Returns (rs1, s')"
    and "rs = (case reply_command cmd of None \<Rightarrow> [] | Some c \<Rightarrow> [(r, c, k, ret)]) @ rs1"
  using assms by (auto simp: bind_outcome_Returns_iff split: option.splits)

lemma do_ranked_append:
  "do_ranked func cs s = Returns (rs, s') \<Longrightarrow> do_ranked func ds s' = Returns (rs', s'') \<Longrightarrow>
    do_ranked func (cs @ ds) s = Returns (rs @ rs', s'')"
proof (induction cs arbitrary: s rs)
  case (Cons x cs)
  obtain r cmd k v where x: "x = (r, cmd, k, v)" by (cases x) auto
  from do_ranked_Cons [OF Cons.prems(1) [unfolded x]] obtain ret s1 rs1 where
    c: "func r cmd k v s = Returns (ret, s1)" "do_ranked func cs s1 = Returns (rs1, s')"
      "rs = (case reply_command cmd of None \<Rightarrow> [] | Some c \<Rightarrow> [(r, c, k, ret)]) @ rs1" .
  from Cons.IH [OF c(2) Cons.prems(2)] c(1,3) show ?case by (simp add: x split: option.split)
qed simp

lemma do_ranked_snoc:
  assumes "do_ranked func cs s = Returns (rs, s1)" and "func r (fst c) (fst (snd c)) (snd (snd c)) s1 = Returns (ret, s2)"
  shows "do_ranked func (cs @ [(r, c)]) s = Returns (rs @ map (Pair r) (answer c ret), s2)"
proof -
  have "do_ranked func [(r, c)] s1 = Returns (map (Pair r) (answer c ret), s2)"
    using assms(2) by (cases c) (simp add: answer_def split: option.split)
  with assms(1) show ?thesis by (rule do_ranked_append)
qed

lemma do_ranked_replies:
  "do_ranked func cs s = Returns (rs, s') \<Longrightarrow> \<forall>x \<in> set cs. call_ok (snd x) \<Longrightarrow>
    (\<forall>x \<in> set rs. call_ok (snd x)) \<and> length (of_rank q rs) = length (filter waits (of_rank q cs))"
proof (induction cs arbitrary: s rs)
  case (Cons x cs)
  obtain r cmd k v where x: "x = (r, cmd, k, v)" by (cases x) auto
  from do_ranked_Cons [OF Cons.prems(1) [unfolded x]] obtain ret s1 rs1 where
    c: "do_ranked func cs s1 = Returns (rs1, s')"
      "rs = (case reply_command cmd of None \<Rightarrow> [] | Some c \<Rightarrow> [(r, c, k, ret)]) @ rs1" .
  have "plain k" using Cons.prems(2) by (simp add: x call_ok_def)
  with Cons.IH [OF c(1)] Cons.prems(2) show ?case
    by (auto simp: c(2) x waits_def reply_ok split: option.split)
qed simp

lemma rounds_calls_Suc: "rounds_calls n progs (Suc t) = rounds_calls n progs t @ round_calls n progs t"
  by (simp add: rounds_calls_def)

lemma round_calls_clients: "filter (\<lambda>x. 0 < fst x) (round_calls n progs j) = round_calls n progs j" "of_rank 0 (round_calls n progs j) = []"
  by (auto simp: round_calls_def of_rank_def filter_id_conv filter_empty_conv)

text \<open>
  The commands of a group in one order: those of the clients in \<open>t\<close> rounds, and anywhere between them
  those of the serving rank, which are \<open>own\<close>.
\<close>

definition merges :: "nat \<Rightarrow> (nat \<Rightarrow> command list) \<Rightarrow> nat \<Rightarrow> command list \<Rightarrow> (nat \<times> command) list \<Rightarrow> bool" where
  "merges n progs t own calls \<longleftrightarrow> filter (\<lambda>x. 0 < fst x) calls = rounds_calls n progs t \<and> of_rank 0 calls = own"

lemma merges_Nil [simp]: "merges n progs 0 own [] \<longleftrightarrow> own = []"
  by (auto simp: merges_def rounds_calls_def)

lemma merges_round: "merges n progs t own calls \<Longrightarrow> merges n progs (Suc t) own (calls @ round_calls n progs t)"
  by (simp add: merges_def rounds_calls_Suc round_calls_clients)

lemma merges_own: "merges n progs t own calls \<Longrightarrow> merges n progs t (own @ [c]) (calls @ [(0, c)])"
  by (simp add: merges_def)

lemma of_rank_round:
  assumes "0 < r" and "r < n"
  shows "of_rank r (round_calls n progs j) = (if j < length (progs r) then [progs r ! j] else [])"
proof -
  have "distinct qs \<Longrightarrow> of_rank r (map (\<lambda>r. (r, progs r ! j)) (filter (\<lambda>r. j < length (progs r)) qs))
    = (if r \<in> set qs \<and> j < length (progs r) then [progs r ! j] else [])" for qs
    by (induction qs) auto
  then show ?thesis using assms by (simp add: round_calls_def)
qed

text \<open>What a client sends in its life, and a turn of the server on the \<open>t\<close>-th message of every client.\<close>

definition messages :: "command list \<Rightarrow> string list" where
  "messages cs = map request cs @ [eol_message]"

lemma length_messages [simp]: "length (messages cs) = Suc (length cs)"
  by (simp add: messages_def)

lemma message_nth: "t \<le> length cs \<Longrightarrow> messages cs ! t = (if t < length cs then request (cs ! t) else eol_message)"
  by (simp add: messages_def nth_append)

lemma process_message_nth:
  assumes "process_message func r (messages cs ! t) sv = Returns sv'" and "t \<le> length cs" and "\<forall>c \<in> set cs. call_ok c"
  shows "\<exists>rs. do_ranked func (if t < length cs then [(r, cs ! t)] else []) (sv_lm sv) = Returns (rs, sv_lm sv')
    \<and> sv_outbox sv' = sv_outbox sv @ map (\<lambda>(q, x). (q, request x)) rs"
proof (cases "t < length cs")
  case True
  obtain cmd k v where c: "cs ! t = (cmd, k, v)" by (cases "cs ! t")
  then have ok: "call_ok (cmd, k, v)" using assms(3) True by (metis nth_mem)
  from assms(1) have "process_message func r (request (cmd, k, v)) sv = Returns sv'" by (simp add: message_nth assms(2) True c)
  from process_request [OF this ok] obtain ret lm where "func r cmd k v (sv_lm sv) = Returns (ret, lm)"
    "sv' = sv\<lparr>sv_lm := lm, sv_outbox := sv_outbox sv @
      map (\<lambda>x. (r, request x)) (case reply_command cmd of None \<Rightarrow> [] | Some c \<Rightarrow> [(c, k, ret)])\<rparr>" .
  then show ?thesis using True c by (simp split: option.split)
next
  case False
  then have "t = length cs" using assms(2) by simp
  with assms(1) have "sv' = sv\<lparr>sv_eol := (sv_eol sv)[r := True]\<rparr>"
    by (simp add: message_nth) (simp add: process_message_def eol_message_def deSerialize_serialize)
  with False show ?thesis by simp
qed

lemma process_round_ranked:
  "process_round func qs (map (\<lambda>r. messages (progs r) ! t) qs) sv = Returns sv' \<Longrightarrow>
    \<forall>r \<in> set qs. t \<le> length (progs r) \<and> (\<forall>c \<in> set (progs r). call_ok c) \<Longrightarrow>
    \<exists>rs. do_ranked func (map (\<lambda>r. (r, progs r ! t)) (filter (\<lambda>r. t < length (progs r)) qs)) (sv_lm sv) = Returns (rs, sv_lm sv')
      \<and> sv_outbox sv' = sv_outbox sv @ map (\<lambda>(q, x). (q, request x)) rs"
proof (induction qs arbitrary: sv)
  case (Cons r qs)
  from Cons.prems(1) obtain sv1 where p: "process_message func r (messages (progs r) ! t) sv = Returns sv1"
    and q: "process_round func qs (map (\<lambda>r. messages (progs r) ! t) qs) sv1 = Returns sv'"
    by (auto simp: bind_outcome_Returns_iff)
  from process_message_nth [OF p] Cons.prems(2) obtain rs1 where
    1: "do_ranked func (if t < length (progs r) then [(r, progs r ! t)] else []) (sv_lm sv) = Returns (rs1, sv_lm sv1)"
      "sv_outbox sv1 = sv_outbox sv @ map (\<lambda>(q, x). (q, request x)) rs1" by auto
  from Cons.IH [OF q] Cons.prems(2) obtain rs2 where
    2: "do_ranked func (map (\<lambda>r. (r, progs r ! t)) (filter (\<lambda>r. t < length (progs r)) qs)) (sv_lm sv1) = Returns (rs2, sv_lm sv')"
      "sv_outbox sv' = sv_outbox sv1 @ map (\<lambda>(q, x). (q, request x)) rs2" by auto
  from do_ranked_append [OF 1(1) 2(1)] 1(2) 2(2) show ?case by (cases "t < length (progs r)") auto
qed auto

section \<open>The invariant of one client\<close>

text \<open>
  Of a client with the commands \<open>cs\<close>: \<open>t\<close> rounds have been served, \<open>rs\<close> are its replies of them, it has
  sent \<open>sent\<close> messages; \<open>inbox\<close> are those the server has not taken, \<open>eol\<close> is the server's mark for it,
  \<open>out\<close> the replies on their way to it.
\<close>

definition client_inv ::
  "command list \<Rightarrow> nat \<Rightarrow> command list \<Rightarrow> nat \<Rightarrow> member \<Rightarrow> string list \<Rightarrow> bool \<Rightarrow> string list \<Rightarrow> bool" where
  "client_inv cs t rs sent rk inbox eol out \<longleftrightarrow>
     sent \<le> Suc (length cs) \<and> t \<le> sent \<and> rk_todo rk = drop sent cs
     \<and> (At_End \<le> rk_phase rk \<longleftrightarrow> sent = Suc (length cs)) \<and> (rk_phase rk < Running \<longrightarrow> sent = 0)
     \<and> inbox = drop t (take sent (messages cs)) \<and> (eol \<longleftrightarrow> t = Suc (length cs))
     \<and> (\<exists>pend. out = map request pend \<and> list_all call_ok pend \<and> rs = rk_replies rk @ pend
          \<and> length pend = (if rk_waiting rk \<and> t = sent then 1 else 0))
     \<and> (rk_waiting rk \<longrightarrow> 0 < sent \<and> sent \<le> length cs)
     \<and> (\<forall>i < length cs. t \<le> i \<and> i < sent \<longrightarrow> waits (cs ! i) = (rk_waiting rk \<and> Suc i = sent))"

lemma client_inv_start: "client_inv cs 0 [] 0 \<lparr>rk_phase = Starting, rk_todo = cs, rk_waiting = False, rk_replies = []\<rparr> [] False []"
  by (simp add: client_inv_def phase_order)

lemma client_inv_phase:
  assumes "client_inv cs t rs sent rk inbox eol out" and "At_End \<le> rk_phase rk \<longleftrightarrow> At_End \<le> p"
    and "p < Running \<longrightarrow> rk_phase rk < Running"
  shows "client_inv cs t rs sent (rk\<lparr>rk_phase := p\<rparr>) inbox eol out"
  using assms by (simp add: client_inv_def)

lemma client_inv_send:
  assumes inv: "client_inv cs t rs sent rk inbox eol out" and "rk_todo rk = c # cs'" and "\<not> rk_waiting rk" and "rk_phase rk = Running"
  shows "client_inv cs t rs (Suc sent) (rk\<lparr>rk_todo := cs', rk_waiting := waits c\<rparr>) (inbox @ [request c]) eol out"
proof -
  have d: "drop sent cs = c # cs'" using inv assms(2) by (simp add: client_inv_def)
  then have l: "sent < length cs" "cs ! sent = c" "drop (Suc sent) cs = cs'"
    by (metis drop_all list.distinct(1) not_less, metis hd_drop_conv_nth drop_all list.distinct(1) list.sel(1) not_less, metis drop_Suc list.sel(3) tl_drop)
  have m: "take (Suc sent) (messages cs) = take sent (messages cs) @ [request c]"
    using l by (simp add: take_Suc_conv_app_nth message_nth)
  show ?thesis using inv l m assms(3,4)
    by (auto simp: client_inv_def phase_order less_Suc_eq)
qed

lemma client_inv_stop:
  assumes inv: "client_inv cs t rs sent rk inbox eol out" and "rk_todo rk = []" and "\<not> rk_waiting rk" and "rk_phase rk = Running"
  shows "client_inv cs t rs (Suc sent) (rk\<lparr>rk_phase := At_End\<rparr>) (inbox @ [eol_message]) eol out"
proof -
  have l: "sent = length cs" using inv assms(2,4) by (auto simp: client_inv_def phase_order)
  have m: "take (Suc sent) (messages cs) = take sent (messages cs) @ [eol_message]"
    "t \<le> length cs \<Longrightarrow> drop t (messages cs) = drop t (take sent (messages cs)) @ [eol_message]"
    using l by (simp_all add: messages_def)
  show ?thesis using inv l m assms(3) by (auto simp: client_inv_def phase_order)
qed

lemma client_inv_recv:
  assumes inv: "client_inv cs t rs sent rk inbox eol (b # out)"
  shows "\<exists>x. deSerializeCmd b = Returns x \<and> client_inv cs t rs sent (rk\<lparr>rk_waiting := False, rk_replies := rk_replies rk @ [x]\<rparr>) inbox eol out"
proof -
  from inv have "\<exists>pend. b # out = map request pend \<and> list_all call_ok pend \<and> rs = rk_replies rk @ pend
    \<and> length pend = (if rk_waiting rk \<and> t = sent then 1 else 0)" by (simp add: client_inv_def)
  then obtain pend where p: "b # out = map request pend" "list_all call_ok pend" "rs = rk_replies rk @ pend"
    "length pend = (if rk_waiting rk \<and> t = sent then 1 else 0)" by (elim exE conjE) (rule that)
  have "pend \<noteq> []" using p(1) by auto
  then have w: "rk_waiting rk" "t = sent" using p(4) by (auto split: if_splits)
  with p(4) obtain x where x: "pend = [x]" "rk_waiting rk" "t = sent" by (cases pend) auto
  with p have "deSerializeCmd b = Returns x" by (simp add: request_decodes)
  moreover have "client_inv cs t rs sent (rk\<lparr>rk_waiting := False, rk_replies := rk_replies rk @ [x]\<rparr>) inbox eol out"
    using inv p x by (auto simp: client_inv_def)
  ultimately show ?thesis by blast
qed

lemma client_inv_head:
  assumes inv: "client_inv cs t rs sent rk (b # inbox) eol out" and ok: "\<forall>c \<in> set cs. call_ok c"
  shows "b = messages cs ! t" and "t \<le> length cs" and "t < sent" and "ends_rank b \<longleftrightarrow> t = length cs" and "decodes b"
proof -
  have i: "b # inbox = drop t (take sent (messages cs))" "sent \<le> Suc (length cs)" "t \<le> sent" using inv by (auto simp: client_inv_def)
  then show t: "t < sent" by (cases "t = sent") auto
  from i t show l: "t \<le> length cs" by simp
  from i t show b: "b = messages cs ! t" by (metis drop_all length_take list.distinct(1) list.sel(1) hd_drop_conv_nth not_less nth_take)
  have "decodes b \<and> (ends_rank b \<longleftrightarrow> t = length cs)"
  proof (cases "t < length cs")
    case True
    then have "call_ok (cs ! t)" using ok by simp
    with True show ?thesis
      by (cases "cs ! t") (simp add: b message_nth l ends_rank_def decodes_def request_decodes, simp add: call_ok_def)
  qed (use l in \<open>simp add: b message_nth\<close>)
  then show "ends_rank b \<longleftrightarrow> t = length cs" "decodes b" by simp_all
qed

lemma client_inv_turn:
  assumes inv: "client_inv cs t rs sent rk (b # inbox) eol out" and t: "t < sent"
    and "list_all call_ok new" and "length new = (if t < length cs \<and> waits (cs ! t) then 1 else 0)"
  shows "client_inv cs (Suc t) (rs @ new) sent rk inbox (eol \<or> t = length cs) (out @ map request new)"
proof -
  have i: "b # inbox = drop t (take sent (messages cs))" using inv by (simp add: client_inv_def)
  have n: "length new = (if rk_waiting rk \<and> Suc t = sent then 1 else 0)"
    using inv t assms(4) by (auto simp: client_inv_def)
  have "inbox = drop (Suc t) (take sent (messages cs))" using i by (metis drop_Suc list.sel(3) tl_drop)
  then show ?thesis using inv t n assms(3) by (auto simp: client_inv_def)
qed

section \<open>The invariant of a team\<close>

definition data_inv ::
  "'s callback \<Rightarrow> nat \<Rightarrow> (nat \<Rightarrow> command list) \<Rightarrow> 's \<Rightarrow> nat
    \<Rightarrow> (nat \<times> command) list \<Rightarrow> (nat \<times> command) list \<Rightarrow> (nat \<Rightarrow> nat) \<Rightarrow> 's team \<Rightarrow> bool" where
  "data_inv func n progs s0 t calls rep sent g \<longleftrightarrow> (let sv = tm_server g in
     sv_rank sv = 0 \<and> sv_size sv = n \<and> length (sv_inbox sv) = n \<and> length (sv_eol sv) = n
     \<and> do_ranked func calls s0 = Returns (rep, sv_lm sv) \<and> merges n progs t (of_rank 0 calls) calls
     \<and> of_rank 0 calls @ rk_todo (tm_rank g 0) = progs 0 \<and> (Running < phase_at g 0 \<longrightarrow> rk_todo (tm_rank g 0) = [])
     \<and> rk_replies (tm_rank g 0) = of_rank 0 rep
     \<and> (\<forall>r. 0 < r \<and> r < n \<longrightarrow> client_inv (progs r) t (of_rank r rep) (sent r) (tm_rank g r) (sv_inbox sv ! r) (sv_eol sv ! r)
          (of_rank r (sv_outbox sv)))
     \<and> (tm_thread g = Over \<longrightarrow> (\<forall>r. 0 < r \<and> r < n \<longrightarrow> t = Suc (length (progs r)))))"

definition ctl_inv :: "nat \<Rightarrow> 's team \<Rightarrow> bool" where
  "ctl_inv n g \<longleftrightarrow>
     (tm_thread g = No_Thread \<longleftrightarrow> phase_at g 0 = Starting)
     \<and> (At_Start \<le> phase_at g 0 \<longrightarrow> tm_thread g \<in> {Synchronized, Looping, Over})
     \<and> (At_End \<le> phase_at g 0 \<longrightarrow> tm_thread g = Over)
     \<and> (\<forall>r. 0 < r \<and> r < n \<longrightarrow> phase_at g r \<notin> {Spawned, Joining})
     \<and> (\<forall>r < n. Running \<le> phase_at g r \<longrightarrow> (\<forall>q < n. At_Start \<le> phase_at g q))
     \<and> (\<forall>r < n. phase_at g r = Ended \<longrightarrow> (\<forall>q < n. At_End \<le> phase_at g q))"

lemma data_inv_D:
  assumes "data_inv func n progs s0 t calls rep sent g"
  shows "sv_rank (tm_server g) = 0" and "sv_size (tm_server g) = n" and "length (sv_inbox (tm_server g)) = n"
    and "length (sv_eol (tm_server g)) = n"
    and "do_ranked func calls s0 = Returns (rep, sv_lm (tm_server g))"
    and "0 < r \<Longrightarrow> r < n \<Longrightarrow> client_inv (progs r) t (of_rank r rep) (sent r) (tm_rank g r) (sv_inbox (tm_server g) ! r)
      (sv_eol (tm_server g) ! r) (of_rank r (sv_outbox (tm_server g)))"
    and "tm_thread g = Over \<Longrightarrow> 0 < r \<Longrightarrow> r < n \<Longrightarrow> t = Suc (length (progs r))"
    and "merges n progs t (of_rank 0 calls) calls" and "of_rank 0 calls @ rk_todo (tm_rank g 0) = progs 0"
    and "Running < phase_at g 0 \<Longrightarrow> rk_todo (tm_rank g 0) = []" and "rk_replies (tm_rank g 0) = of_rank 0 rep"
  using assms by (simp_all add: data_inv_def Let_def)

lemma data_inv_start: "data_inv func n progs s0 0 [] [] (\<lambda>r. 0) (team_new n progs s0)"
  by (simp add: data_inv_def team_new_def server_new_def client_inv_start phase_order)

lemma ctl_inv_start: "0 < n \<Longrightarrow> ctl_inv n (team_new n progs s0)"
  by (simp add: ctl_inv_def team_new_def phase_order)

lemma team_clients: "sv_rank sv = 0 \<Longrightarrow> sv_size sv = n \<Longrightarrow> clients sv = [1..<n]"
proof -
  have "filter (\<lambda>r. r \<noteq> 0) [0..<n] = [1..<n]" by (cases n) (auto simp: upt_conv_Cons filter_id_conv)
  then show "sv_rank sv = 0 \<Longrightarrow> sv_size sv = n \<Longrightarrow> clients sv = [1..<n]" by (simp add: clients_def)
qed

lemma data_inv_phase:
  assumes "data_inv func n progs s0 t calls rep sent g"
    and "0 < r \<Longrightarrow> (At_End \<le> phase_at g r \<longleftrightarrow> At_End \<le> p) \<and> (p < Running \<longrightarrow> phase_at g r < Running)"
    and "r = 0 \<Longrightarrow> Running < p \<Longrightarrow> rk_todo (tm_rank g 0) = []"
  shows "data_inv func n progs s0 t calls rep sent (to_phase r p g)"
  using assms client_inv_phase by (fastforce simp: data_inv_def Let_def to_phase_def)

lemma data_inv_thread:
  "data_inv func n progs s0 t calls rep sent g \<Longrightarrow> x \<noteq> Over \<Longrightarrow> data_inv func n progs s0 t calls rep sent (g\<lparr>tm_thread := x\<rparr>)"
  "data_inv func n progs s0 t calls rep sent (g\<lparr>tm_loopRunning := b\<rparr>) = data_inv func n progs s0 t calls rep sent g"
  "data_inv func n progs s0 t calls rep sent (g\<lparr>tm_exit := c\<rparr>) = data_inv func n progs s0 t calls rep sent g"
  by (simp_all add: data_inv_def Let_def)

lemma data_inv_message:
  assumes inv: "data_inv func n progs s0 t calls rep sent g" and r: "0 < r" "r < n"
    and c: "client_inv (progs r) t (of_rank r rep) sent' rk (sv_inbox (tm_server g) ! r @ [b]) (sv_eol (tm_server g) ! r)
      (of_rank r (sv_outbox (tm_server g)))"
  shows "data_inv func n progs s0 t calls rep (sent(r := sent')) (g\<lparr>tm_rank := (tm_rank g)(r := rk),
    tm_server := (tm_server g)\<lparr>sv_inbox := (sv_inbox (tm_server g))[r := sv_inbox (tm_server g) ! r @ [b]]\<rparr>\<rparr>)"
  using data_inv_D [OF inv] r c by (auto simp: data_inv_def Let_def)

lemma data_inv_recv:
  assumes inv: "data_inv func n progs s0 t calls rep sent g" and r: "0 < r" "r < n"
    and x: "recvCommand r (tm_server g) = Returns (x, sv)"
  shows "data_inv func n progs s0 t calls rep sent (client_receives r x sv g)"
proof -
  from x obtain buf ms where m: "take_message r (sv_outbox (tm_server g)) = Some (buf, ms)" "deSerializeCmd buf = Returns x"
    "sv = (tm_server g)\<lparr>sv_outbox := ms\<rparr>" by (auto simp: recvCommand_def bind_outcome_Returns_iff split: option.splits)
  note o = take_message_SomeD [OF m(1)]
  have "client_inv (progs r) t (of_rank r rep) (sent r) (tm_rank g r) (sv_inbox (tm_server g) ! r)
      (sv_eol (tm_server g) ! r) (buf # of_rank r ms)" using data_inv_D(6) [OF inv r] o by simp
  from client_inv_recv [OF this] m(2) have "client_inv (progs r) t (of_rank r rep) (sent r) ((tm_rank g r)\<lparr>rk_waiting := False,
     rk_replies := rk_replies (tm_rank g r) @ [x]\<rparr>) (sv_inbox (tm_server g) ! r) (sv_eol (tm_server g) ! r) (of_rank r ms)" by simp
  then have "client_inv (progs q) t (of_rank q rep) (sent q) (tm_rank (client_receives r x sv g) q) (sv_inbox sv ! q) (sv_eol sv ! q)
      (of_rank q (sv_outbox sv))" if "0 < q" "q < n" for q
    using data_inv_D(6) [OF inv that] o by (cases "q = r") (simp_all add: client_receives_def m(3))
  then show ?thesis using inv r by (simp add: data_inv_def Let_def client_receives_def m(3))
qed

lemma data_inv_nonempty:
  assumes inv: "data_inv func n progs s0 t calls rep sent g" and ok: "\<forall>r. \<forall>c \<in> set (progs r). call_ok c" and r: "0 < r" "r < n"
    and ne: "sv_inbox (tm_server g) ! r \<noteq> []"
  shows "hd (sv_inbox (tm_server g) ! r) = messages (progs r) ! t" and "t \<le> length (progs r)" and "t < sent r"
    and "ends_rank (hd (sv_inbox (tm_server g) ! r)) \<longleftrightarrow> t = length (progs r)" and "decodes (hd (sv_inbox (tm_server g) ! r))"
proof -
  from ne obtain b bs where b: "sv_inbox (tm_server g) ! r = b # bs" by (cases "sv_inbox (tm_server g) ! r") auto
  note c = client_inv_head [OF data_inv_D(6) [OF inv r, unfolded b]]
  show "hd (sv_inbox (tm_server g) ! r) = messages (progs r) ! t" "t \<le> length (progs r)" "t < sent r"
    "ends_rank (hd (sv_inbox (tm_server g) ! r)) \<longleftrightarrow> t = length (progs r)" "decodes (hd (sv_inbox (tm_server g) ! r))"
    using c ok b by simp_all
qed

lemma data_inv_ok: "data_inv func n progs s0 t calls rep sent g \<Longrightarrow> sv_ok (tm_server g)"
  by (simp add: data_inv_def Let_def sv_ok_def)

lemma data_inv_turn:
  assumes inv: "data_inv func n progs s0 t calls rep sent g" and ok: "\<forall>r. \<forall>c \<in> set (progs r). call_ok c"
    and t: "server_turn func (tm_server g) = Returns (Some sv)" and loop: "tm_thread g = Looping"
  shows "\<exists>calls' rep'. data_inv func n progs s0 (Suc t) calls' rep' sent (g\<lparr>tm_server := sv\<rparr>)"
proof -
  let ?sv = "tm_server g"
  note D = data_inv_D [OF inv]
  have cl: "clients ?sv = [1..<n]" using D(1,2) by (rule team_clients)
  from t obtain bufs sv1 where rb: "recvToBuffer ?sv = Returns (bufs, sv1)"
    and pr: "process_round func (clients ?sv) bufs sv1 = Returns sv"
    by (auto simp: server_turn_def bind_outcome_Returns_iff split: if_splits)
  have sz: "sv_size ?sv \<le> length (sv_inbox ?sv)" using D(2,3) by simp
  note rf = recvToBuffer_fields [OF rb sz] and pf = process_round_fields [OF pr]
    and e = server_turn_effect [OF t data_inv_ok [OF inv]]
  have ne: "sv_inbox ?sv ! r \<noteq> []" if "0 < r" "r < n" for r using rf(7) that by (simp add: cl)
  note ne' = data_inv_nonempty [OF inv ok _ _ ne]
  have bufs: "bufs = map (\<lambda>r. messages (progs r) ! t) (clients ?sv)" using rf(8) ne' by (simp add: cl)
  have "\<forall>r \<in> set (clients ?sv). t \<le> length (progs r) \<and> (\<forall>c \<in> set (progs r). call_ok c)" using ne' ok by (simp add: cl)
  from process_round_ranked [OF pr [unfolded bufs] this] obtain rs where
    rs: "do_ranked func (round_calls n progs t) (sv_lm ?sv) = Returns (rs, sv_lm sv)"
      "sv_outbox sv = sv_outbox ?sv @ map (\<lambda>(q, x). (q, request x)) rs"
    by (auto simp: rf(4,5) cl round_calls_def)
  note calls = do_ranked_append [OF D(5) rs(1)] and merge = merges_round [OF D(8)]
  have "\<forall>x \<in> set (round_calls n progs t). call_ok (snd x)" using ok by (auto simp: round_calls_def) (metis nth_mem)
  from do_ranked_replies [OF rs(1) this] have new: "list_all call_ok (of_rank r rs)"
    "length (of_rank r rs) = length (filter waits (of_rank r (round_calls n progs t)))" for r
    by (auto simp: of_rank_def list_all_iff)
  have "client_inv (progs r) (Suc t) (of_rank r (rep @ rs)) (sent r) (tm_rank g r) (sv_inbox sv ! r) (sv_eol sv ! r)
      (of_rank r (sv_outbox sv))" if r: "0 < r" "r < n" for r
  proof -
    from ne [OF r] obtain b bs where b: "sv_inbox ?sv ! r = b # bs" by (cases "sv_inbox ?sv ! r") auto
    have "length (of_rank r rs) = (if t < length (progs r) \<and> waits (progs r ! t) then 1 else 0)"
      using new(2) by (simp add: of_rank_round [OF r])
    from client_inv_turn [OF D(6) [OF r, unfolded b] ne'(3) [OF r] new(1) this]
    show ?thesis using e(3) ne'(4) [OF r] r b by (auto simp: cl rs(2) of_rank_map)
  qed
  moreover have "of_rank 0 rs = []" using new(2) [of 0] by (simp add: round_calls_clients)
  moreover have "length (sv_eol sv) = n" "length (sv_inbox sv) = n" "sv_rank sv = 0" "sv_size sv = n"
    using e(1) pf rf D by (simp_all add: sv_ok_def)
  ultimately have "data_inv func n progs s0 (Suc t) (calls @ round_calls n progs t) (rep @ rs) sent (g\<lparr>tm_server := sv\<rparr>)"
    using calls merge loop D(9-11) by (simp add: data_inv_def round_calls_clients)
  then show ?thesis by blast
qed

lemma data_inv_over:
  assumes inv: "data_inv func n progs s0 t calls rep sent g" and "server_turn func (tm_server g) = Returns None"
  shows "data_inv func n progs s0 t calls rep sent (g\<lparr>tm_thread := Over, tm_loopRunning := False\<rparr>)"
proof -
  note D = data_inv_D [OF inv]
  have "all_shut_down (tm_server g)"
    using assms(2) by (auto simp: server_turn_def bind_outcome_Returns_iff split: if_splits)
  then have "sv_eol (tm_server g) ! r" if "0 < r" "r < n" for r
    using that team_clients [OF D(1,2)] by (simp add: all_shut_down_def list_all_iff)
  moreover have "sv_eol (tm_server g) ! r \<longleftrightarrow> t = Suc (length (progs r))" if "0 < r" "r < n" for r
    using D(6) [OF that] by (simp add: client_inv_def)
  ultimately show ?thesis using inv by (simp add: data_inv_def Let_def)
qed

lemma barrier_open_iff: "barrier_open p g \<longleftrightarrow> (\<forall>q < team_size g. p \<le> phase_at g q)"
  by (auto simp: barrier_open_def list_all_iff)

lemma data_inv_thread_steps:
  assumes inv: "data_inv func n progs s0 t calls rep sent g"
  shows "data_inv func n progs s0 t calls rep sent (spawn_helper g)" and "data_inv func n progs s0 t calls rep sent (helper_ready g)"
    and "data_inv func n progs s0 t calls rep sent (enter_loop g)"
proof -
  show "data_inv func n progs s0 t calls rep sent (spawn_helper g)"
    unfolding spawn_helper_def by (rule data_inv_phase [OF data_inv_thread(1) [OF inv]]) (simp_all add: phase_order)
  show "data_inv func n progs s0 t calls rep sent (helper_ready g)" "data_inv func n progs s0 t calls rep sent (enter_loop g)"
    using data_inv_thread(1) [OF inv, of Synchronized] data_inv_thread(1) [OF inv, of Looping]
    by (simp_all add: helper_ready_def enter_loop_def data_inv_thread(2))
qed

lemma data_inv_send:
  assumes inv: "data_inv func n progs s0 t calls rep sent g" and "client_rank r g" and "rk_todo (tm_rank g r) = c # cs"
    and "\<not> rk_waiting (tm_rank g r)" and "phase_at g r = Running"
  shows "\<exists>sent. data_inv func n progs s0 t calls rep sent (client_sends r c cs g)"
proof -
  have r: "0 < r" "r < n" using assms(2) data_inv_D(2) [OF inv] by (simp_all add: client_rank_def)
  have "request c = serializeCmd [] (fst c) (fst (snd c)) (snd (snd c))" by (cases c) (simp add: request_def)
  with data_inv_message [OF inv r client_inv_send [OF data_inv_D(6) [OF inv r] assms(3-5)]] show ?thesis
    unfolding client_sends_def sendCommand_def waits_def by auto
qed

lemma data_inv_stop:
  assumes inv: "data_inv func n progs s0 t calls rep sent g" and "client_rank r g" and "rk_todo (tm_rank g r) = []"
    and "\<not> rk_waiting (tm_rank g r)" and "phase_at g r = Running"
  shows "\<exists>sent. data_inv func n progs s0 t calls rep sent (client_stops r g)"
proof -
  have r: "0 < r" "r < n" using assms(2) data_inv_D(2) [OF inv] by (simp_all add: client_rank_def)
  from data_inv_message [OF inv r client_inv_stop [OF data_inv_D(6) [OF inv r] assms(3-5)]] show ?thesis
    unfolding client_stops_def to_phase_def sendCommand_def eol_message_def by auto
qed

lemma data_inv_helper:
  assumes inv: "data_inv func n progs s0 t calls rep sent g" and ok: "\<forall>r. \<forall>c \<in> set (progs r). call_ok c"
    and loop: "tm_thread g = Looping" and turn: "helperThread func g = Returns g'"
  shows "\<exists>t calls rep. data_inv func n progs s0 t calls rep sent g'"
proof (cases "server_turn func (tm_server g)")
  case (Returns x)
  then show ?thesis
    using turn data_inv_turn [OF inv ok _ loop] data_inv_over [OF inv] by (cases x) (auto simp: helperThread_def)
qed (use turn inv in \<open>auto simp: helperThread_def data_inv_thread(3), blast+\<close>)

lemma data_inv_own:
  assumes inv: "data_inv func n progs s0 t calls rep sent g" and run: "phase_at g 0 = Running"
    and todo: "rk_todo (tm_rank g 0) = c # cs"
    and call: "func 0 (fst c) (fst (snd c)) (snd (snd c)) (sv_lm (tm_server g)) = Returns (ret, s)"
  shows "data_inv func n progs s0 t (calls @ [(0, c)]) (rep @ map (Pair 0) (answer c ret)) sent (own_call c cs ret s g)"
proof -
  note D = data_inv_D [OF inv]
  have new: "of_rank 0 (map (Pair 0) (answer c ret)) = answer c ret" "0 < r \<Longrightarrow> of_rank r (map (Pair 0) (answer c ret)) = []" for r
    by (simp_all add: answer_def split: option.split)
  show ?thesis
    using inv run todo do_ranked_snoc [OF D(5), of 0 c ret s, OF call] merges_own [OF D(8), of c] D(9)
    by (simp add: data_inv_def Let_def own_call_def new phase_order)
qed

lemma data_inv_step:
  assumes st: "team_step func g g'" and inv: "data_inv func n progs s0 t calls rep sent g"
    and ok: "\<forall>r. \<forall>c \<in> set (progs r). call_ok c"
  shows "\<exists>t' calls' rep' sent'. data_inv func n progs s0 t' calls' rep' sent' g'"
proof -
  note same = data_inv_phase [OF inv]
  from st show ?thesis
  proof (cases rule: team_step.cases)
    case t_turn
    then show ?thesis using data_inv_helper [OF inv ok] by blast
  next
    case (t_recv r x sv)
    then show ?thesis using data_inv_recv [OF inv _ _ t_recv(5)] data_inv_D(2) [OF inv] by (auto simp: client_rank_def)
  next
    case (t_client r)
    then show ?thesis using same [of r At_Start] by (auto simp: phase_order)
  next
    case (t_started r)
    then show ?thesis using same [of r Running] by (auto simp: phase_order)
  next
    case (t_ended r)
    have "r = 0 \<Longrightarrow> rk_todo (tm_rank g 0) = []" using data_inv_D(10) [OF inv] t_ended(4) by (simp add: phase_order)
    then show ?thesis using same [of r Ended] t_ended by (auto simp: phase_order)
  next
    case (t_own c cs ret s)
    then show ?thesis using data_inv_own [OF inv] by blast
  next
    case t_spawned
    then show ?thesis using same [of 0 At_Start] by (auto simp: phase_order)
  next
    case t_join
    then show ?thesis using same [of 0 Joining] by auto
  next
    case t_joined
    then have "rk_todo (tm_rank g 0) = []" using data_inv_D(10) [OF inv] by (simp add: phase_order)
    then show ?thesis using same [of 0 At_End] t_joined by auto
  qed (use data_inv_thread_steps [OF inv] data_inv_send [OF inv] data_inv_stop [OF inv] in blast)+
qed

lemma helperThread_frame:
  "helperThread func g = Returns g' \<Longrightarrow> tm_rank g' = tm_rank g \<and> tm_thread g' \<in> {tm_thread g, Over}"
  by (auto simp: helperThread_def split: outcome.splits option.splits)

lemma ctl_inv_D:
  assumes "ctl_inv n g"
  shows "tm_thread g = No_Thread \<longleftrightarrow> phase_at g 0 = Starting"
    and "At_Start \<le> phase_at g 0 \<Longrightarrow> tm_thread g \<in> {Synchronized, Looping, Over}"
    and "At_End \<le> phase_at g 0 \<Longrightarrow> tm_thread g = Over"
    and "0 < r \<Longrightarrow> r < n \<Longrightarrow> phase_at g r \<notin> {Spawned, Joining}"
    and "r < n \<Longrightarrow> Running \<le> phase_at g r \<Longrightarrow> q < n \<Longrightarrow> At_Start \<le> phase_at g q"
    and "r < n \<Longrightarrow> phase_at g r = Ended \<Longrightarrow> q < n \<Longrightarrow> At_End \<le> phase_at g q"
  using assms unfolding ctl_inv_def by blast+

text \<open>The phases: a rank moves alone, from a phase that lets it.\<close>

lemma ctl_inv_phase:
  assumes inv: "ctl_inv n g" and r: "r < n" and up: "phase_at g r < p" and own: "0 < r \<Longrightarrow> p \<notin> {Spawned, Joining}"
    and first: "Running \<le> p \<Longrightarrow> \<forall>q < n. At_Start \<le> phase_at g q" and last: "p = Ended \<Longrightarrow> \<forall>q < n. At_End \<le> phase_at g q"
    and thread: "r = 0 \<Longrightarrow> tm_thread g \<noteq> No_Thread \<and> (At_Start \<le> p \<longrightarrow> tm_thread g \<noteq> Created) \<and> (At_End \<le> p \<longrightarrow> tm_thread g = Over)"
  shows "ctl_inv n (to_phase r p g)"
proof -
  have up': "x \<le> phase_at g q \<Longrightarrow> x \<le> phase_at (to_phase r p g) q" for q x
    using up by (auto simp: to_phase_def)
  have now: "phase_at (to_phase r p g) q = (if q = r then p else phase_at g q)" for q by (simp add: to_phase_def)
  have "\<forall>q < n. At_Start \<le> phase_at (to_phase r p g) q" if "q' < n" "Running \<le> phase_at (to_phase r p g) q'" for q'
    using inv first that up' unfolding ctl_inv_def now by (cases "q' = r") auto
  moreover have "\<forall>q < n. At_End \<le> phase_at (to_phase r p g) q" if "q' < n" "phase_at (to_phase r p g) q' = Ended" for q'
    using inv last that up' unfolding ctl_inv_def now by (cases "q' = r") auto
  moreover have "tm_thread (to_phase r p g) = tm_thread g" by (simp add: to_phase_def)
  moreover have "p \<noteq> Starting" using up by (auto simp: phase_order)
  ultimately show ?thesis
    using inv own thread unfolding ctl_inv_def now
    by (cases "r = 0"; cases "tm_thread g") (auto simp: phase_order)
qed

lemma ctl_inv_thread:
  assumes "ctl_inv n g" and "\<forall>q. phase_at g' q = phase_at g q"
    and "(tm_thread g, tm_thread g') \<in> {(Created, Synchronized), (Synchronized, Looping), (Looping, Over)} \<or> tm_thread g' = tm_thread g"
  shows "ctl_inv n g'"
  using assms by (auto simp: ctl_inv_def)

lemma ctl_inv_spawn:
  assumes inv: "ctl_inv n g" and start: "phase_at g 0 = Starting" and n: "0 < n"
  shows "ctl_inv n (spawn_helper g)"
proof -
  have "phase_at g q \<noteq> Ended \<and> \<not> Running \<le> phase_at g q" if "q < n" for q
    using ctl_inv_D(5) [OF inv that, of 0] n start by (auto simp: phase_order)
  then show ?thesis using ctl_inv_D(4) [OF inv] start
    by (auto simp: ctl_inv_def spawn_helper_def to_phase_def phase_order)
qed

lemma ctl_inv_stop:
  assumes inv: "ctl_inv n g" and r: "0 < r" "r < n" and run: "phase_at g r = Running"
  shows "ctl_inv n (client_stops r g)"
proof -
  have "\<forall>q < n. At_Start \<le> phase_at g q" using ctl_inv_D(5) [OF inv r(2)] run by simp
  then have "ctl_inv n (to_phase r At_End g)" using r run by (intro ctl_inv_phase [OF inv]) (simp_all add: phase_order)
  then show ?thesis by (simp add: client_stops_def ctl_inv_def)
qed

lemma ctl_inv_ended:
  assumes inv: "ctl_inv n g" and r: "r < n" "phase_at g r = At_End" and all: "\<forall>q < n. At_End \<le> phase_at g q"
  shows "ctl_inv n (to_phase r Ended g)"
proof -
  have late: "At_Start \<le> p" if "At_End \<le> p" for p using that by (simp add: phase_order)
  with all have "\<forall>q < n. At_Start \<le> phase_at g q" by blast
  moreover have "tm_thread g = Over" if "r = 0" using ctl_inv_D(3) [OF inv] all r(1) that by simp
  ultimately show ?thesis using all r by (intro ctl_inv_phase [OF inv]) (simp_all add: phase_order)
qed

lemma ctl_inv_step:
  assumes st: "team_step func g g'" and inv: "ctl_inv n g" and n: "team_size g = n" "0 < n"
  shows "ctl_inv n g'"
proof -
  note move = ctl_inv_phase [OF inv] and stay = ctl_inv_thread [OF inv]
  have p1: "At_Start \<le> phase_at g 0 \<Longrightarrow> tm_thread g \<noteq> No_Thread \<and> tm_thread g \<noteq> Created"
    using ctl_inv_D(2) [OF inv] by fastforce
  have p4: "Running \<le> phase_at g 0 \<Longrightarrow> \<forall>q < n. At_Start \<le> phase_at g q"
    using ctl_inv_D(5) [OF inv n(2)] by blast
  from st show ?thesis
  proof (cases rule: team_step.cases)
    case t_spawn
    then show ?thesis using ctl_inv_spawn [OF inv _ n(2)] by blast
  next
    case t_spawned
    then show ?thesis using move [OF n(2), of At_Start] by (simp add: phase_order)
  next
    case (t_client r)
    then show ?thesis using move [of r At_Start] n by (simp add: phase_order client_rank_def)
  next
    case (t_started r)
    then show ?thesis using move [of r Running] n p1 by (simp add: phase_order barrier_open_iff)
  next
    case t_turn
    with helperThread_frame [OF t_turn(3)] show ?thesis by (intro stay) auto
  next
    case (t_stop r)
    then show ?thesis using ctl_inv_stop [OF inv] n(1) by (simp add: client_rank_def)
  next
    case t_join
    then show ?thesis using move [OF n(2), of Joining] p1 p4 n(2) by (simp add: phase_order)
  next
    case t_joined
    then show ?thesis using move [OF n(2), of At_End] p1 p4 n(2) by (simp add: phase_order)
  next
    case (t_ended r)
    then show ?thesis using ctl_inv_ended [OF inv] n(1) by (simp add: barrier_open_iff)
  qed (intro stay; simp add: helper_ready_def enter_loop_def client_sends_def client_receives_def own_call_def)+
qed

lemma team_run_inv:
  assumes run: "(team_step func)\<^sup>*\<^sup>* (team_new n progs s0) g" and n: "0 < n" and ok: "\<forall>r. \<forall>c \<in> set (progs r). call_ok c"
  shows "ctl_inv n g \<and> (\<exists>t calls rep sent. data_inv func n progs s0 t calls rep sent g)"
  using run
proof (induction rule: rtranclp_induct)
  case base
  show ?case by (intro conjI exI ctl_inv_start [OF n]) (rule data_inv_start)
next
  case (step g g')
  then obtain t calls rep sent where inv: "data_inv func n progs s0 t calls rep sent g" and ctl: "ctl_inv n g" by blast
  have "ctl_inv n g'" by (rule ctl_inv_step [OF step.hyps(2) ctl data_inv_D(2) [OF inv] n])
  then show ?case by (rule conjI [OF _ data_inv_step [OF step.hyps(2) inv ok]])
qed

lemma team_served:
  assumes ctl: "ctl_inv n g" and inv: "data_inv func n progs s0 t calls rep sent g" and n: "0 < n"
    and over: "tm_thread g = Over \<or> (\<exists>r < n. phase_at g r = Ended)"
  shows "\<exists>m own calls rep. (\<forall>r. 0 < r \<and> r < n \<longrightarrow> length (progs r) = m \<and> sv_inbox (tm_server g) ! r = [] \<and> rk_todo (tm_rank g r) = []
        \<and> At_End \<le> phase_at g r)
    \<and> own @ rk_todo (tm_rank g 0) = progs 0 \<and> (Running < phase_at g 0 \<longrightarrow> own = progs 0) \<and> merges n progs m own calls
    \<and> do_ranked func calls s0 = Returns (rep, sv_lm (tm_server g)) \<and> (\<forall>r < n. rk_replies (tm_rank g r) = of_rank r rep)"
proof -
  have "tm_thread g = Over" using over
  proof
    assume "\<exists>r < n. phase_at g r = Ended"
    then obtain r where r: "r < n" "phase_at g r = Ended" by blast
    from ctl_inv_D(3) [OF ctl ctl_inv_D(6) [OF ctl r n]] show ?thesis .
  qed
  note D = data_inv_D [OF inv] and t = data_inv_D(7) [OF inv this]
  have each: "sv_inbox (tm_server g) ! r = [] \<and> rk_todo (tm_rank g r) = [] \<and> At_End \<le> phase_at g r
      \<and> rk_replies (tm_rank g r) = of_rank r rep" if "0 < r" "r < n" for r
    using D(6) [OF that] t [OF that] by (auto simp: client_inv_def)
  have len: "length (progs r) = t - 1" if "0 < r" "r < n" for r using t [OF that] by simp
  have none: "round_calls n progs j = []" if "t - 1 \<le> j" for j
    unfolding round_calls_def using len that by (auto simp: filter_empty_conv)
  have "rounds_calls n progs t = rounds_calls n progs (t - 1)"
    using none by (cases t) (simp_all add: rounds_calls_Suc)
  then have "merges n progs (t - 1) (of_rank 0 calls) calls" using D(8) by (simp add: merges_def)
  moreover have "Running < phase_at g 0 \<longrightarrow> of_rank 0 calls = progs 0" using D(9,10) by auto
  moreover have "rk_replies (tm_rank g r) = of_rank r rep" if "r < n" for r using each D(11) that by (cases "r = 0") auto
  ultimately show ?thesis using D(5,9) len each
    by (intro exI [of _ "t - 1"] exI [of _ "of_rank 0 calls"] exI [of _ calls] exI [of _ rep]) simp
qed

end
