(* ===== verification/Group_Ends.thy ===== *)
theory Group_Ends
  imports Group_Life
begin

text \<open>
  The runs of a group (\<open>Group_Life\<close>) end: a measure that every step decreases, the states in which a run
  can stop, and the properties of whole runs.
\<close>

section \<open>Runs end\<close>

primrec thread_left :: "server_thread \<Rightarrow> nat" where
  "thread_left No_Thread = 4"
| "thread_left Created = 3"
| "thread_left Synchronized = 2"
| "thread_left Looping = 1"
| "thread_left Over = 0"

definition member_left :: "member \<Rightarrow> nat" where
  "member_left rk = 2 * (6 - phase_no (rk_phase rk)) + 3 * length (rk_todo rk)"

definition team_left :: "'s team \<Rightarrow> nat" where
  "team_left g = (\<Sum>r < team_size g. member_left (tm_rank g r)) + thread_left (tm_thread g)
     + 2 * inbox_left (tm_server g) + length (sv_outbox (tm_server g)) + (if tm_exit g = None then 1 else 0)"

lemma phase_no_le: "phase_no p \<le> 6"
  by (cases p) simp_all

lemma sum_member_update:
  fixes f :: "'a \<Rightarrow> nat" and n :: nat
  assumes "r < n"
  shows "(\<Sum>q < n. f ((h(r := x)) q)) + f (h r) = (\<Sum>q < n. f (h q)) + f x"
proof -
  have "(\<Sum>q < n. g q) = g r + (\<Sum>q \<in> {..<n} - {r}. g q)" for g :: "nat \<Rightarrow> nat"
    using assms by (simp add: sum.remove [of _ r])
  from this [of "\<lambda>q. f ((h(r := x)) q)"] this [of "\<lambda>q. f (h q)"] show ?thesis by simp
qed

lemma inbox_left_send:
  assumes "sv_rank sv = 0" and "sv_size sv = n" and "length (sv_inbox sv) = n" and "0 < r" "r < n"
  shows "inbox_left (sendCommand r cmd k v sv) = Suc (inbox_left sv)"
proof -
  have cl: "clients (sendCommand r cmd k v sv) = [1..<n]" "clients sv = [1..<n]"
    using assms(1,2) by (simp_all add: team_clients sendCommand_def)
  have "(\<Sum>q \<in> {1..<n}. length (((sv_inbox sv)[r := sv_inbox sv ! r @ [b]]) ! q)) = Suc (\<Sum>q \<in> {1..<n}. length (sv_inbox sv ! q))" for b
    using assms(3-5) by (simp add: sum.remove [of _ r])
  then show ?thesis
    unfolding inbox_left_def cl by (simp add: sendCommand_def interv_sum_list_conv_sum_set_nat)
qed

lemma team_left_phase:
  assumes "phase_at g r < p" and "r < team_size g"
  shows "team_left (to_phase r p g) + 2 \<le> team_left g"
proof -
  let ?x = "(tm_rank g r)\<lparr>rk_phase := p\<rparr>"
  have "member_left ?x + 2 \<le> member_left (tm_rank g r)"
    using assms(1) phase_no_le [of p] by (simp add: member_left_def phase_order)
  then show ?thesis using sum_member_update [OF assms(2), of member_left "tm_rank g" ?x]
    by (simp add: team_left_def to_phase_def)
qed

text \<open>A round takes a message of every client and answers each at most once.\<close>

lemma process_round_outbox:
  "process_round func rs bs sv = Returns sv' \<Longrightarrow> length (sv_outbox sv') \<le> length (sv_outbox sv) + length rs"
proof (induction func rs bs sv rule: process_round.induct)
  case (1 func r rs b bs sv)
  then obtain sv1 where p: "process_message func r b sv = Returns sv1" "process_round func rs bs sv1 = Returns sv'"
    by (auto simp: bind_outcome_Returns_iff)
  have "length (sv_outbox sv1) \<le> Suc (length (sv_outbox sv))"
    using p(1) by (auto simp: process_message_def bind_outcome_Returns_iff split: if_splits option.splits)
  with "1.IH" [OF p(2)] show ?case by simp
qed auto

lemma sum_list_tl:
  "\<forall>r \<in> set rs. xs r \<noteq> [] \<and> ys r = tl (xs r) \<Longrightarrow> sum_list (map (\<lambda>r. length (ys r)) rs) + length rs = sum_list (map (\<lambda>r. length (xs r)) rs)"
  by (induction rs) (auto simp: length_greater_0_conv [symmetric] simp del: length_greater_0_conv)

lemma turn_left:
  assumes t: "server_turn func sv = Returns (Some sv')" and ok: "sv_ok sv"
  shows "2 * inbox_left sv' + length (sv_outbox sv') < 2 * inbox_left sv + length (sv_outbox sv)"
proof -
  from t obtain bufs sv1 where ns: "\<not> all_shut_down sv" and rb: "recvToBuffer sv = Returns (bufs, sv1)"
    and pr: "process_round func (clients sv) bufs sv1 = Returns sv'"
    by (auto simp: server_turn_def bind_outcome_Returns_iff split: if_splits)
  have sz: "sv_size sv \<le> length (sv_inbox sv)" using ok by (simp add: sv_ok_def)
  note e = server_turn_effect [OF t ok]
  have "length (clients sv) \<noteq> 0" using ns by (auto simp: all_shut_down_def)
  moreover have "length (sv_outbox sv') \<le> length (sv_outbox sv) + length (clients sv)"
    using process_round_outbox [OF pr] recvToBuffer_fields(5) [OF rb sz] by simp
  moreover have "inbox_left sv' + length (clients sv) = inbox_left sv"
    unfolding inbox_left_def e(2) by (rule sum_list_tl) (use e(3) in blast)
  ultimately show ?thesis by linarith
qed

lemma turn_step_left:
  assumes turn: "helperThread func g = Returns g'" and now: "tm_thread g = Looping" "tm_exit g = None"
    and inv: "data_inv func n progs s0 t calls rep sent g"
  shows "team_left g' < team_left g"
proof (cases "\<exists>sv. server_turn func (tm_server g) = Returns (Some sv)")
  case True
  then obtain sv where t: "server_turn func (tm_server g) = Returns (Some sv)" by blast
  then have g': "g' = g\<lparr>tm_server := sv\<rparr>" using turn by (simp add: helperThread_def)
  have "sv_size sv = team_size g"
    using t process_round_fields recvToBuffer_fields(2) data_inv_D(2,3) [OF inv]
    by (fastforce simp: server_turn_def bind_outcome_Returns_iff split: if_splits)
  with turn_left [OF t data_inv_ok [OF inv]] show ?thesis by (simp add: g' team_left_def)
next
  case False
  with turn now show ?thesis by (auto simp: helperThread_def team_left_def split: outcome.splits option.splits)
qed

text \<open>A message of a client counts two while the server has not taken it.\<close>

lemma message_left:
  assumes inv: "data_inv func n progs s0 t calls rep sent g" and r: "client_rank r g"
  shows "team_left (g\<lparr>tm_rank := (tm_rank g)(r := x), tm_server := sendCommand r cmd k v (tm_server g)\<rparr>) + member_left (tm_rank g r)
    = team_left g + member_left x + 2"
proof -
  note D = data_inv_D [OF inv]
  have r': "0 < r" "r < n" using r D(2) by (simp_all add: client_rank_def)
  from sum_member_update [OF r'(2), of member_left "tm_rank g" x] inbox_left_send [OF D(1-3) r'] D(2) show ?thesis
    by (simp add: team_left_def) (simp add: sendCommand_def)
qed

lemma receive_left:
  assumes "recvCommand r (tm_server g) = Returns (x, sv)"
  shows "team_left (client_receives r x sv g) < team_left g"
proof -
  have "length (sv_outbox sv) < length (sv_outbox (tm_server g))" "inbox_left sv = inbox_left (tm_server g)" "sv_size sv = team_size g"
    using assms take_message_SomeD [of r "sv_outbox (tm_server g)"]
    by (fastforce simp: recvCommand_def bind_outcome_Returns_iff inbox_left_def clients_def split: option.splits)+
  moreover have "(\<Sum>q < m. member_left (tm_rank (client_receives r x sv g) q)) = (\<Sum>q < m. member_left (tm_rank g q))" for m
    by (intro sum.cong) (simp_all add: member_left_def client_receives_def)
  ultimately show ?thesis unfolding team_left_def by (simp add: client_receives_def)
qed

lemma own_left:
  assumes "rk_todo (tm_rank g 0) = c # cs" and "0 < team_size g"
  shows "team_left (own_call c cs ret s g) < team_left g"
proof -
  let ?x = "(tm_rank g 0)\<lparr>rk_todo := cs, rk_replies := rk_replies (tm_rank g 0) @ answer c ret\<rparr>"
  have "member_left ?x + 3 = member_left (tm_rank g 0)" using assms(1) by (simp add: member_left_def)
  with sum_member_update [OF assms(2), of member_left "tm_rank g" ?x] show ?thesis
    by (simp add: team_left_def own_call_def inbox_left_def clients_def)
qed

lemma team_left_decreases:
  assumes st: "team_step func g g'" and inv: "data_inv func n progs s0 t calls rep sent g" and n: "0 < n" and ctl: "ctl_inv n g"
  shows "team_left g' < team_left g"
proof -
  note D = data_inv_D [OF inv]
  have move: "team_left (to_phase r p g) < team_left g" if "phase_at g r < p" "r < n" for r p
    using team_left_phase [of g r p] that D(2) by simp
  from st show ?thesis
  proof (cases rule: team_step.cases)
    case t_spawn
    have "tm_thread g = No_Thread" using ctl_inv_D(1) [OF ctl] t_spawn by simp
    then have "team_left (g\<lparr>tm_thread := Created\<rparr>) < team_left g" by (simp add: team_left_def)
    with t_spawn team_left_phase [of "g\<lparr>tm_thread := Created\<rparr>" 0 Spawned] D(2) n show ?thesis
      by (simp add: spawn_helper_def phase_order)
  next
    case t_turn
    then show ?thesis by (intro turn_step_left [OF _ _ _ inv])
  next
    case (t_send r c cs)
    let ?x = "(tm_rank g r)\<lparr>rk_todo := cs, rk_waiting := (reply_command (fst c) \<noteq> None)\<rparr>"
    have "member_left ?x + 3 = member_left (tm_rank g r)" using t_send by (simp add: member_left_def)
    with message_left [OF inv t_send(3), where x = ?x and cmd = "fst c" and k = "fst (snd c)" and v = "snd (snd c)"] show ?thesis
      unfolding t_send(1) client_sends_def by linarith
  next
    case (t_recv r x sv)
    then show ?thesis using receive_left by blast
  next
    case (t_stop r)
    let ?x = "(tm_rank g r)\<lparr>rk_phase := At_End\<rparr>"
    have "member_left ?x + 4 = member_left (tm_rank g r)" using t_stop by (simp add: member_left_def)
    moreover have "g' = g\<lparr>tm_rank := (tm_rank g)(r := ?x), tm_server := sendCommand r EOL_COMMAND KV_DUMMY [] (tm_server g)\<rparr>"
      by (simp add: t_stop(1) client_stops_def to_phase_def)
    ultimately show ?thesis using message_left [OF inv t_stop(3), where x = ?x and cmd = EOL_COMMAND
        and k = KV_DUMMY and v = "[]"] by simp
  next
    case (t_own c cs ret s)
    then show ?thesis using own_left [of g c cs ret s] n D(2) by simp
  qed (use move n D(2) in \<open>auto simp: client_rank_def phase_order helper_ready_def enter_loop_def team_left_def\<close>)
qed

lemma team_run_bound:
  assumes run: "(team_step func ^^ k) (team_new n progs s0) g" and n: "0 < n" and ok: "\<forall>r. \<forall>c \<in> set (progs r). call_ok c"
  shows "k + team_left g \<le> team_left (team_new n progs s0)"
  using run
proof (induction k arbitrary: g)
  case (Suc k)
  then obtain g1 where g1: "(team_step func ^^ k) (team_new n progs s0) g1" "team_step func g1 g" by auto
  from team_run_inv [OF relpowp_imp_rtranclp [OF g1(1)] n ok] obtain t calls rep sent where
    "ctl_inv n g1" "data_inv func n progs s0 t calls rep sent g1" by blast
  from team_left_decreases [OF g1(2) this(2) n this(1)] Suc.IH [OF g1(1)] show ?case by simp
qed auto

lemma team_left_start: "team_left (team_new n progs s0) = (\<Sum>r < n. 12 + 3 * length (progs r)) + 5"
  by (simp add: team_left_def team_new_def server_new_def member_left_def inbox_left_def clients_def)

section \<open>Where a run can stop\<close>

lemma do_ranked_rest:
  "do_ranked func (cs @ ds) s = Returns x \<Longrightarrow> do_ranked func cs s = Returns (rs, s') \<Longrightarrow> \<exists>y. do_ranked func ds s' = Returns y"
proof (induction cs arbitrary: s x rs)
  case (Cons c cs)
  obtain r cmd k v where c: "c = (r, cmd, k, v)" by (cases c) auto
  from Cons.prems show ?case using Cons.IH by (fastforce simp: c bind_outcome_Returns_iff)
qed auto

text \<open>The callback returns from every command, in every order in which the ranks' commands can come.\<close>

definition served :: "'s callback \<Rightarrow> nat \<Rightarrow> (nat \<Rightarrow> command list) \<Rightarrow> 's \<Rightarrow> bool" where
  "served func n progs s0 \<longleftrightarrow> (\<forall>t own calls. merges n progs t own calls \<and> prefix own (progs 0) \<longrightarrow>
     (\<exists>x. do_ranked func calls s0 = Returns x))"

lemma served_rest:
  assumes "served func n progs s0" and "merges n progs t own (cs @ ds)" and "prefix own (progs 0)"
    and "do_ranked func cs s0 = Returns (rs, s)"
  shows "\<exists>y. do_ranked func ds s = Returns y"
proof -
  obtain x where "do_ranked func (cs @ ds) s0 = Returns x" using assms(1-3) unfolding served_def by blast
  then show ?thesis using assms(4) by (rule do_ranked_rest)
qed

lemma do_ranked_total:
  assumes "total_callback func"
  shows "\<exists>x. do_ranked func cs s = Returns x"
proof (induction cs arbitrary: s)
  case (Cons x cs)
  obtain r cmd k v where x: "x = (r, cmd, k, v)" by (cases x) auto
  obtain ret s1 where "func r cmd k v s = Returns (ret, s1)"
    using assms unfolding total_callback_def by (metis surj_pair)
  with Cons.IH [of s1] show ?case by (auto simp: x)
qed simp

lemma total_served: "total_callback func \<Longrightarrow> served func n progs s0"
  unfolding served_def by (intro allI impI do_ranked_total)

lemma process_request_runs:
  assumes "func r cmd k v (sv_lm sv) = Returns (ret, s)" and "call_ok (cmd, k, v)"
  shows "\<exists>sv'. process_message func r (request (cmd, k, v)) sv = Returns sv' \<and> sv_lm sv' = s"
  using assms by (simp add: process_message_def request_decodes) (simp add: call_ok_def)

lemma process_round_runs:
  "do_ranked func (map (\<lambda>r. (r, progs r ! t)) (filter (\<lambda>r. t < length (progs r)) qs)) (sv_lm sv) = Returns x \<Longrightarrow>
    \<forall>r \<in> set qs. t \<le> length (progs r) \<and> (\<forall>c \<in> set (progs r). call_ok c) \<Longrightarrow>
    \<exists>sv'. process_round func qs (map (\<lambda>r. messages (progs r) ! t) qs) sv = Returns sv'"
proof (induction qs arbitrary: sv x)
  case (Cons r qs)
  have le: "t \<le> length (progs r)" using Cons.prems(2) by simp
  show ?case
  proof (cases "t < length (progs r)")
    case True
    obtain cmd k v where c: "progs r ! t = (cmd, k, v)" by (cases "progs r ! t") auto
    have ok: "call_ok (cmd, k, v)" using Cons.prems(2) True c by (metis list.set_intros(1) nth_mem)
    from Cons.prems(1) True c obtain ret s1 y where f: "func r cmd k v (sv_lm sv) = Returns (ret, s1)"
      and rest: "do_ranked func (map (\<lambda>r. (r, progs r ! t)) (filter (\<lambda>r. t < length (progs r)) qs)) s1 = Returns y"
      by (auto simp: bind_outcome_Returns_iff)
    from process_request_runs [of func, OF f ok] obtain sv1 where
      p: "process_message func r (request (cmd, k, v)) sv = Returns sv1" "sv_lm sv1 = s1" by blast
    from Cons.IH [of sv1 y] rest p(2) Cons.prems(2) p(1) show ?thesis by (auto simp: message_nth le True c)
  next
    case False
    then have "messages (progs r) ! t = eol_message" by (simp add: message_nth le)
    then have "\<exists>sv1. process_message func r (messages (progs r) ! t) sv = Returns sv1 \<and> sv_lm sv1 = sv_lm sv"
      by (simp add: process_message_def eol_message_def deSerialize_serialize)
    then obtain sv1 where p: "process_message func r (messages (progs r) ! t) sv = Returns sv1" "sv_lm sv1 = sv_lm sv" by blast
    from Cons.IH [of sv1 x] Cons.prems False p show ?thesis by auto
  qed
qed auto

lemma turn_cases:
  assumes inv: "data_inv func n progs s0 t calls rep sent g" and ok: "\<forall>r. \<forall>c \<in> set (progs r). call_ok c" and func: "served func n progs s0"
  shows "(\<exists>x. server_turn func (tm_server g) = Returns x)
    \<or> (server_turn func (tm_server g) = Blocks \<and> (\<exists>r. 0 < r \<and> r < n \<and> sv_inbox (tm_server g) ! r = [] \<and> \<not> all_shut_down (tm_server g)))"
proof -
  let ?sv = "tm_server g"
  note D = data_inv_D [OF inv]
  have cl: "clients ?sv = [1..<n]" using D(1,2) by (rule team_clients)
  have sz: "sv_size ?sv \<le> length (sv_inbox ?sv)" using D(2,3) by simp
  consider "all_shut_down ?sv" | "\<not> all_shut_down ?sv" "\<exists>r. 0 < r \<and> r < n \<and> sv_inbox ?sv ! r = []"
    | "\<not> all_shut_down ?sv" "\<And>r. 0 < r \<Longrightarrow> r < n \<Longrightarrow> sv_inbox ?sv ! r \<noteq> []" by blast
  then show ?thesis
  proof cases
    case 1
    then show ?thesis by (simp add: server_turn_def)
  next
    case 2
    then have "list_ex (\<lambda>r. sv_inbox ?sv ! r = []) (clients ?sv)" by (auto simp: cl list_ex_iff)
    with 2 show ?thesis by (simp add: server_turn_def recvToBuffer_def)
  next
    case 3
    note ne = data_inv_nonempty [OF inv ok _ _ 3(2)]
    have "\<not> list_ex (\<lambda>r. sv_inbox ?sv ! r = []) (clients ?sv)" using 3(2) by (auto simp: cl list_ex_iff)
    then obtain bufs sv1 where rb: "recvToBuffer ?sv = Returns (bufs, sv1)" by (simp add: recvToBuffer_def)
    note rf = recvToBuffer_fields [OF rb sz]
    have bufs: "bufs = map (\<lambda>r. messages (progs r) ! t) (clients ?sv)" using rf(8) ne(1) by (simp add: cl)
    have "prefix (of_rank 0 calls) (progs 0)" using D(9) by (metis prefixI)
    from served_rest [OF func merges_round [OF D(8)] this D(5)] obtain y where
      "do_ranked func (round_calls n progs t) (sv_lm sv1) = Returns y" by (auto simp: rf(4))
    moreover have "\<forall>r \<in> set (clients ?sv). t \<le> length (progs r) \<and> (\<forall>c \<in> set (progs r). call_ok c)" using ne(2) ok by (simp add: cl)
    ultimately have "\<exists>sv'. process_round func (clients ?sv) bufs sv1 = Returns sv'"
      unfolding bufs by (intro process_round_runs) (simp_all add: round_calls_def cl)
    with rb 3(1) show ?thesis by (auto simp: server_turn_def)
  qed
qed

lemma team_run_alive:
  assumes run: "(team_step func)\<^sup>*\<^sup>* (team_new n progs s0) g" and n: "0 < n" and ok: "\<forall>r. \<forall>c \<in> set (progs r). call_ok c"
    and func: "served func n progs s0"
  shows "tm_exit g = None"
  using run
proof (induction rule: rtranclp_induct)
  case base
  show ?case by (simp add: team_new_def)
next
  case (step g g')
  from team_run_inv [OF step.hyps(1) n ok] obtain t calls rep sent where inv: "data_inv func n progs s0 t calls rep sent g" by blast
  from step.hyps(2) show ?case
  proof (cases rule: team_step.cases)
    case t_turn
    with turn_cases [OF inv ok func] show ?thesis by (auto simp: helperThread_def split: option.splits)
  qed (simp_all add: team_ops_defs)
qed

text \<open>In a state without a step every rank has passed the first barrier and the thread serves or is over.\<close>

lemma stuck_started:
  assumes stuck: "\<forall>g'. \<not> team_step func g g'" and size: "team_size g = n" and ctl: "ctl_inv n g" and alive: "tm_exit g = None"
  shows "tm_thread g \<notin> {No_Thread, Created, Synchronized}" and "r < n \<Longrightarrow> Running \<le> phase_at g r"
proof -
  note C = ctl_inv_D [OF ctl] and rules = team_step.intros [OF alive, where func = func]
  have no: "\<not> team_step func g g'" for g' using stuck by blast
  show thread: "tm_thread g \<notin> {No_Thread, Created, Synchronized}"
    using rules(1,2,6) no C(1) by blast
  have all: "At_Start \<le> phase_at g q" if q: "q < n" for q
  proof (cases "q = 0")
    case True
    with rules(1,3) no thread show ?thesis by (cases "phase_at g 0") (auto simp: phase_order)
  next
    case False
    with rules(4) [of q] no C(4) [of q] q show ?thesis
      by (cases "phase_at g q") (auto simp: phase_order client_rank_def size)
  qed
  show "Running \<le> phase_at g r" if r: "r < n"
  proof -
    have "phase_at g r \<noteq> At_Start" using rules(5) [of r] no r all by (auto simp: barrier_open_iff size)
    with all [OF r] show ?thesis by (cases "phase_at g r") (simp_all add: phase_order)
  qed
qed

text \<open>A client all of whose messages have been served has stopped.\<close>

lemma stuck_client:
  assumes stuck: "\<forall>g'. \<not> team_step func g g'" and inv: "data_inv func n progs s0 t calls rep sent g" and ctl: "ctl_inv n g"
    and alive: "tm_exit g = None" and r: "0 < r" "r < n" "sent r = t"
  shows "sent r = Suc (length (progs r))"
proof -
  note rules = team_step.intros [OF alive, where func = func] and size = data_inv_D(2) [OF inv]
  have no: "\<not> team_step func g g'" for g' using stuck by blast
  let ?rk = "tm_rank g r" and ?out = "sv_outbox (tm_server g)"
  have cr: "client_rank r g" using r by (simp add: client_rank_def size)
  note c = data_inv_D(6) [OF inv r(1,2)]
  have wait: "\<not> rk_waiting ?rk"
  proof
    assume w: "rk_waiting ?rk"
    from c w r(3) have "length (of_rank r ?out) = 1" by (auto simp: client_inv_def)
    then have "of_rank r ?out \<noteq> []" by auto
    from take_message_exists [OF this] obtain b ms where m: "take_message r ?out = Some (b, ms)" by blast
    from take_message_SomeD [OF m] client_inv_recv [of "progs r" t "of_rank r rep" "sent r" ?rk "sv_inbox (tm_server g) ! r"
      "sv_eol (tm_server g) ! r" b "of_rank r ms"] c obtain x where "deSerializeCmd b = Returns x" by auto
    with m have "recvCommand r (tm_server g) = Returns (x, (tm_server g)\<lparr>sv_outbox := ms\<rparr>)" by (simp add: recvCommand_def)
    from rules(9) [OF cr w this] no show False by blast
  qed
  have "phase_at g r \<noteq> Running"
    using rules(8,10) [OF cr _ wait] no by (cases "rk_todo ?rk") auto
  then have "At_End \<le> phase_at g r" using stuck_started(2) [OF stuck size ctl alive r(2)] ctl_inv_D(4) [OF ctl r(1,2)]
    by (cases "phase_at g r") (simp_all add: phase_order)
  then show ?thesis using c by (simp add: client_inv_def)
qed

text \<open>The main thread of the serving rank is not in its commands any more.\<close>

lemma stuck_own:
  assumes stuck: "\<forall>g'. \<not> team_step func g g'" and inv: "data_inv func n progs s0 t calls rep sent g"
    and func: "served func n progs s0" and alive: "tm_exit g = None"
  shows "phase_at g 0 \<noteq> Running"
proof
  note D = data_inv_D [OF inv] and rules = team_step.intros [OF alive, where func = func]
  assume run: "phase_at g 0 = Running"
  show False
  proof (cases "rk_todo (tm_rank g 0)")
    case Nil
    with rules(11) run stuck show False by blast
  next
    case (Cons c cs)
    then have "prefix (of_rank 0 calls @ [c]) (progs 0)" using D(9) by (metis append.assoc append_Cons append_Nil prefixI)
    from served_rest [OF func merges_own [OF D(8), of c] this D(5)] obtain ret s where
      "func 0 (fst c) (fst (snd c)) (snd (snd c)) (sv_lm (tm_server g)) = Returns (ret, s)"
      by (cases c) (auto simp: bind_outcome_Returns_iff)
    with rules(14) [OF run Cons] stuck show False by blast
  qed
qed

lemma stuck_over:
  assumes stuck: "\<forall>g'. \<not> team_step func g g'" and inv: "data_inv func n progs s0 t calls rep sent g" and ctl: "ctl_inv n g"
    and ok: "\<forall>r. \<forall>c \<in> set (progs r). call_ok c" and func: "served func n progs s0" and alive: "tm_exit g = None"
    and same: "\<forall>r. 0 < r \<and> r < n \<longrightarrow> length (progs r) = m"
  shows "tm_thread g = Over"
proof (rule ccontr)
  note D = data_inv_D [OF inv] and rules = team_step.intros [OF alive, where func = func]
  assume "tm_thread g \<noteq> Over"
  then have loop: "tm_thread g = Looping"
    using stuck_started(1) [OF stuck D(2) ctl alive] by (cases "tm_thread g") auto
  then have "server_turn func (tm_server g) \<noteq> Returns x" for x
    using rules(7) stuck by (cases x) (auto simp: helperThread_def)
  with turn_cases [OF inv ok func] obtain r where r: "0 < r" "r < n" "sv_inbox (tm_server g) ! r = []"
    and up: "\<not> all_shut_down (tm_server g)" by blast
  have "sent r = t" using D(6) [OF r(1,2)] r(3) by (auto simp: client_inv_def)
  with stuck_client [OF stuck inv ctl alive r(1,2)] same r have "t = Suc m" by simp
  then have "sv_eol (tm_server g) ! q" if "0 < q" "q < n" for q
    using D(6) [OF that] same that by (simp add: client_inv_def)
  with up show False by (simp add: all_shut_down_def team_clients [OF D(1,2)] list_all_iff)
qed

lemma team_stuck:
  assumes stuck: "\<forall>g'. \<not> team_step func g g'" and inv: "data_inv func n progs s0 t calls rep sent g" and ctl: "ctl_inv n g"
    and n: "0 < n" and ok: "\<forall>r. \<forall>c \<in> set (progs r). call_ok c" and func: "served func n progs s0" and alive: "tm_exit g = None"
    and same: "\<forall>r. 0 < r \<and> r < n \<longrightarrow> length (progs r) = m"
  shows "\<forall>r < n. phase_at g r = Ended"
proof -
  note D = data_inv_D [OF inv] and rules = team_step.intros [OF alive, where func = func]
  have no: "\<not> team_step func g g'" for g' using stuck by blast
  have over: "tm_thread g = Over" by (rule stuck_over [OF stuck inv ctl ok func alive same])
  have ended: "At_End \<le> phase_at g r" if r: "r < n" for r
  proof (cases "r = 0")
    case True
    with rules(12) no over stuck_started(2) [OF stuck D(2) ctl alive n] stuck_own [OF stuck inv func alive] show ?thesis
      by (cases "phase_at g 0") (auto simp: phase_order)
  next
    case False
    with D(7) [OF over, of r] r have "t = Suc (length (progs r))" by simp
    with D(6) [of r] False r show ?thesis by (simp add: client_inv_def)
  qed
  then have late: "phase_at g r \<noteq> At_End" if "r < n" for r
    using rules(13) [of r] no that by (auto simp: barrier_open_iff D(2))
  show ?thesis
  proof (intro allI impI)
    fix r assume r: "r < n"
    from ended [OF r] late [OF r] show "phase_at g r = Ended" by (cases "phase_at g r") (simp_all add: phase_order)
  qed
qed

text \<open>No rank sends a command before the thread of the server runs.\<close>

lemma team_waits_for_server:
  assumes "(team_step func)\<^sup>*\<^sup>* (team_new n progs s0) g" and "0 < n" and "\<forall>r. \<forall>c \<in> set (progs r). call_ok c"
    and r: "0 < r" "r < n" and "sv_inbox (tm_server g) ! r \<noteq> []"
  shows "tm_thread g \<in> {Synchronized, Looping, Over}"
proof -
  from team_run_inv [OF assms(1-3)] obtain t calls rep sent where
    inv: "ctl_inv n g" "data_inv func n progs s0 t calls rep sent g" by blast
  have "sent r \<noteq> 0" using data_inv_nonempty(3) [OF inv(2) assms(3) r assms(6)] by simp
  then have "Running \<le> phase_at g r" using data_inv_D(6) [OF inv(2) r] by (auto simp: client_inv_def)
  from ctl_inv_D(2) [OF inv(1) ctl_inv_D(5) [OF inv(1) r(2) this assms(2)]] show ?thesis .
qed

section \<open>Properties\<close>

lemma team_run_exists:
  assumes "0 < n" and "\<forall>r. \<forall>c \<in> set (progs r). call_ok c"
  shows "\<exists>k g. (team_step func ^^ k) (team_new n progs s0) g \<and> (\<forall>g'. \<not> team_step func g g')"
  by (rule bounded_run_stops [where N = "team_left (team_new n progs s0)"]) (use team_run_bound [OF _ assms] in fastforce)

text \<open>Three ranks, two of which send one command each.\<close>

definition sample_progs :: "nat \<Rightarrow> command list" where
  "sample_progs r = (if r = 1 then [(CMD_PUT, ''a'', ''1'')] else if r = 2 then [(CMD_GET, ''a'', KV_DUMMY)] else [])"

lemma sample_progs_ok: "\<forall>r. \<forall>c \<in> set (sample_progs r). call_ok c"
  by (simp add: sample_progs_def call_ok_def) (simp add: CMD_PUT_def CMD_GET_def EOL_COMMAND_def)

lemma sample_progs_same: "\<forall>r. 0 < r \<and> r < 3 \<longrightarrow> length (sample_progs r) = 1"
  by (auto simp: sample_progs_def less_Suc_eq numeral_3_eq_3)

lemmas sample_served = total_served [OF sample_callback_total]

lemma sample_team_run:
  obtains k g where "(team_step sample_callback ^^ k) (team_new 3 sample_progs 0) g" and "\<forall>g'. \<not> team_step sample_callback g g'"
  using team_run_exists [OF _ sample_progs_ok, of 3 sample_callback 0] by auto



text \<open>
  C7. When the callback returns from every command, in every order in which the ranks' commands can come,
  every run of a group ends, after at most 12 steps of each rank, three for each command and five more.
  If the clients send equally many commands, a run that cannot go on has all ranks behind the second
  barrier; if they do not, no run ever brings a rank there, and the processes hang.
\<close>

theorem team_ends:
  assumes "0 < n" and "\<forall>r. \<forall>c \<in> set (progs r). call_ok c" and "served func n progs s0"
    and "(team_step func ^^ k) (team_new n progs s0) g"
  shows "k \<le> (\<Sum>r < n. 12 + 3 * length (progs r)) + 5
    \<and> (if \<exists>m. \<forall>r. 0 < r \<and> r < n \<longrightarrow> length (progs r) = m
       then (\<forall>g'. \<not> team_step func g g') \<longrightarrow> (\<forall>r < n. phase_at g r = Ended)
       else \<forall>r < n. phase_at g r \<noteq> Ended)"
proof -
  have run: "(team_step func)\<^sup>*\<^sup>* (team_new n progs s0) g" by (rule relpowp_imp_rtranclp [OF assms(4)])
  from team_run_inv [OF run assms(1,2)] obtain t calls rep sent where
    inv: "ctl_inv n g" "data_inv func n progs s0 t calls rep sent g" by blast
  have bound: "k \<le> (\<Sum>r < n. 12 + 3 * length (progs r)) + 5"
    using team_run_bound [OF assms(4,1,2)] by (simp add: team_left_start)
  have ends: "\<forall>r < n. phase_at g r = Ended"
    if same: "\<forall>r. 0 < r \<and> r < n \<longrightarrow> length (progs r) = m" and stuck: "\<forall>g'. \<not> team_step func g g'" for m
    by (rule team_stuck [OF stuck inv(2,1) assms(1-3) team_run_alive [OF run assms(1-3)] same])
  have equal: "\<exists>m. \<forall>r. 0 < r \<and> r < n \<longrightarrow> length (progs r) = m" if "r < n" "phase_at g r = Ended" for r
  proof -
    from that have "tm_thread g = Over \<or> (\<exists>r < n. phase_at g r = Ended)" by blast
    from team_served [OF inv assms(1) this] obtain m where "\<forall>r. 0 < r \<and> r < n \<longrightarrow> length (progs r) = m
      \<and> sv_inbox (tm_server g) ! r = [] \<and> rk_todo (tm_rank g r) = [] \<and> At_End \<le> phase_at g r" by (elim exE conjE)
    then show ?thesis by (intro exI [of _ m]) simp
  qed
  show ?thesis
  proof (cases "\<exists>m. \<forall>r. 0 < r \<and> r < n \<longrightarrow> length (progs r) = m")
    case True
    then obtain m where "\<forall>r. 0 < r \<and> r < n \<longrightarrow> length (progs r) = m" by (elim exE)
    with ends have "(\<forall>g'. \<not> team_step func g g') \<longrightarrow> (\<forall>r < n. phase_at g r = Ended)" by (intro impI)
    with bound show ?thesis by (simp only: True if_True)
  next
    case False
    then have "\<forall>r < n. phase_at g r \<noteq> Ended" using equal by (intro allI impI notI) (erule notE)
    with bound show ?thesis by (simp only: False if_False)
  qed
qed

theorem team_ends_witness:
  "\<exists>k g. (team_step sample_callback ^^ k) (team_new 3 sample_progs 0) g \<and> k \<le> 47 \<and> (\<forall>r < 3. phase_at g r = Ended)"
proof -
  obtain k g where g: "(team_step sample_callback ^^ k) (team_new 3 sample_progs 0) g" "\<forall>g'. \<not> team_step sample_callback g g'"
    by (rule sample_team_run)
  have same: "\<exists>m. \<forall>r. 0 < r \<and> r < 3 \<longrightarrow> length (sample_progs r) = m" by (rule exI [of _ 1]) (rule sample_progs_same)
  have sum: "(\<Sum>r < (3::nat). 12 + 3 * length (sample_progs r)) + 5 = 47" by (simp add: lessThan_nat_numeral sample_progs_def)
  note e = team_ends [OF zero_less_numeral sample_progs_ok sample_served g(1)]
  have k: "k \<le> 47" using conjunct1 [OF e] unfolding sum .
  have "\<forall>r < 3. phase_at g r = Ended" using conjunct2 [OF e] unfolding if_P [OF same] by (rule mp) (rule g(2))
  with g(1) k show ?thesis by (intro exI conjI)
qed

end
