(* ===== verification/Rank_View.thy ===== *)
theory Rank_View
  imports Durable_Store Store_Ldb Store_Rdb
begin

text \<open>
  What one rank of a group sees of the store that all ranks share: the callback of the serving rank
  (\<open>callbackForCollectiveIO\<close> in \<open>lib/manager/manager.cpp\<close>) prefixes the keys with the rank, so a command
  of a rank acts on that rank's part of the store only. The specification is a private pair of maps per
  rank, data and metadata; the locale \<open>logged_store\<close> is what the stores have to promise for it.
\<close>

section \<open>The commands on a private pair of maps\<close>

type_synonym view = "(key \<rightharpoonup> val) \<times> (key \<rightharpoonup> val)"

definition no_view :: view where
  "no_view = (Map.empty, Map.empty)"

fun private_do :: "string \<times> string \<times> string \<Rightarrow> view \<Rightarrow> (string \<times> string \<times> string) list \<times> view" where
  "private_do (cmd, k, v) (d, m) =
     (if cmd = CMD_GET then ([(RET_GET, k, found_value [] (d k))], (d, m))
      else if cmd = CMD_META_GET then ([(RET_META_GET, k, found_value [] (m k))], (d, m))
      else if cmd = CMD_PUT then ([], (d(k \<mapsto> v), m))
      else if cmd = CMD_DEL then ([], (d(k := None), m))
      else if cmd = CMD_META_PUT then ([], (d, m(k \<mapsto> v)))
      else if cmd = CMD_READ_BARRIER then ([(RET_READ_BARRIER, k, [])], (d, m))
      else if cmd = CMD_WRITE_BARRIER then ([(RET_WRITE_BARRIER, k, [])], (d, m))
      else ([], (d, m)))"

fun private_run :: "(string \<times> string \<times> string) list \<Rightarrow> view \<Rightarrow> (string \<times> string \<times> string) list \<times> view" where
  "private_run [] w = ([], w)"
| "private_run (c # cs) w = (case private_do c w of (rs, w') \<Rightarrow> case private_run cs w' of (rs', w'') \<Rightarrow> (rs @ rs', w''))"

text \<open>The commands a rank can send; the listing of all metadata is left aside, since it needs a store at rest.\<close>

definition store_commands :: "string list" where
  "store_commands = [CMD_GET, CMD_META_GET, CMD_PUT, CMD_DEL, CMD_META_PUT, CMD_READ_BARRIER, CMD_WRITE_BARRIER]"

definition store_command :: "string \<times> string \<times> string \<Rightarrow> bool" where
  "store_command c \<longleftrightarrow> fst c \<in> set store_commands \<and> plain (fst (snd c))"

lemma store_command_cases:
  assumes "store_command (cmd, k, v)"
  obtains "cmd = CMD_GET" | "cmd = CMD_META_GET" | "cmd = CMD_PUT" | "cmd = CMD_DEL" | "cmd = CMD_META_PUT"
    | "cmd = CMD_READ_BARRIER" | "cmd = CMD_WRITE_BARRIER"
  using assms by (auto simp: store_command_def store_commands_def)

lemmas cmd_distinct' = cmd_distinct [THEN not_sym]

section \<open>The log of a shared store\<close>

type_synonym mutation = "mutation_type \<times> key \<times> val"

definition muts_map :: "mutation list \<Rightarrow> key \<rightharpoonup> val" where
  "muts_map h = foldl (\<lambda>m (t, k, v). apply_mutation t k v m) Map.empty h"

lemma muts_map_Nil [simp]: "muts_map [] = Map.empty"
  by (simp add: muts_map_def)

lemma muts_map_snoc [simp]: "muts_map (h @ [(t, k, v)]) = apply_mutation t k v (muts_map h)"
  by (simp add: muts_map_def)

text \<open>What a command of rank \<open>r\<close> does to the store of a serving manager, and what the rank sees of a log.\<close>

definition command_muts :: "'s manager \<Rightarrow> nat \<Rightarrow> string \<times> string \<times> string \<Rightarrow> mutation list" where
  "command_muts m r c = (case c of (cmd, k, v) \<Rightarrow>
     if cmd = CMD_PUT then [(Put, rankedKey m r k, v)]
     else if cmd = CMD_DEL then [(Del, rankedKey m r k, [])]
     else if cmd = CMD_META_PUT then [(Put, meta_prefix @ rankedKey m r k, v)] else [])"

definition rank_view :: "'s manager \<Rightarrow> nat \<Rightarrow> mutation list \<Rightarrow> view" where
  "rank_view m r h = (\<lambda>k. muts_map h (rankedKey m r k), \<lambda>k. muts_map h (meta_prefix @ rankedKey m r k))"

lemma rank_view_Nil [simp]: "rank_view m r [] = no_view"
  by (simp add: rank_view_def no_view_def)

lemma ranked_first_digit: "isServeLocal m \<Longrightarrow> is_digit (hd (rankedKey m r k))"
  using dec_is_digit [of "hd (dec r)" r] by (simp add: rankedKey_def to_string_int_def)

lemma meta_first: "\<not> is_digit (hd (meta_prefix @ x))"
  by (simp add: meta_prefix_def is_digit_def)

lemma ranked_not_meta [simp]:
  "isServeLocal m \<Longrightarrow> rankedKey m r k \<noteq> meta_prefix @ x" "isServeLocal m \<Longrightarrow> meta_prefix @ x \<noteq> rankedKey m r k"
  using ranked_first_digit [of m r k] meta_first [of x] by auto

text \<open>A command of a rank is its private command on the rank's own view, and leaves every other view alone.\<close>

lemma view_step:
  assumes "store_command c" and "isServeLocal m"
  shows "rank_view m q (h @ command_muts m r c) = (if q = r then snd (private_do c (rank_view m r h)) else rank_view m q h)"
proof -
  obtain cmd k v where c: "c = (cmd, k, v)" by (cases c)
  from assms(1) [unfolded c] show ?thesis
    by (cases rule: store_command_cases)
      (auto simp: c command_muts_def rank_view_def apply_mutation_def rankedKey_inj [OF assms(2)] fun_eq_iff assms(2) cmd_distinct')
qed

text \<open>Managers that serve have the same keys, and number themselves 0.\<close>

lemma serve_simps [simp]:
  "isServeLocal (count_write i m) = isServeLocal m" "isServeLocal (count_read i m) = isServeLocal m"
  "isServeLocal (m\<lparr>mg_store := x\<rparr>) = isServeLocal m"
  by (simp_all add: isServeLocal_def count_read_def count_write_def)

lemma serve_same_keys: "isServeLocal m \<Longrightarrow> isServeLocal m' \<Longrightarrow> rankedKey m' = rankedKey m"
  by (simp add: rankedKey_def fun_eq_iff)

lemma serve_rank: "isServeLocal m \<Longrightarrow> isOpenLocal m \<and> mg_aggRank m = 0"
  by (simp add: role_defs)

section \<open>The calls of the serving rank\<close>

text \<open>
  The operations of the serving rank itself (\<open>get\<close>, \<open>put\<close> and so on in \<open>manager.cpp\<close>) go to the store it has
  open, under keys with its own rank; \<open>rank_call\<close> is the call of any rank, local or through the callback.
\<close>

definition own_operation :: "'s store_ops \<Rightarrow> lsmio_config \<Rightarrow> string \<Rightarrow> key \<Rightarrow> string \<Rightarrow> 's manager \<Rightarrow> (string \<times> 's manager) outcome" where
  "own_operation ops cfg cmd k v m = (let p = (m, m);
       upd = (\<lambda>x. bind_outcome x (\<lambda>(b, p'). Returns ([], fst p')));
       rd = (\<lambda>x. bind_outcome x (\<lambda>((b, y), p'). Returns (y, fst p')))
     in if cmd = CMD_GET then rd (mg_get ops cfg k [] p)
        else if cmd = CMD_META_GET then rd (mg_metaGet ops cfg k [] p)
        else if cmd = CMD_PUT then upd (mg_put_default ops cfg k v p)
        else if cmd = CMD_DEL then upd (mg_del_default ops cfg k p)
        else if cmd = CMD_META_PUT then upd (mg_metaPut ops cfg k v (cfg_alwaysFlush cfg) p)
        else if cmd = CMD_READ_BARRIER then upd (mg_readBarrier ops cfg p)
        else if cmd = CMD_WRITE_BARRIER then upd (mg_writeBarrier ops cfg p)
        else Returns ([], m))"

definition rank_call :: "'s store_ops \<Rightarrow> lsmio_config \<Rightarrow> 's manager callback" where
  "rank_call ops cfg r = (if r = 0 then own_operation ops cfg else callbackForCollectiveIO ops cfg r)"

section \<open>A store with a log\<close>

text \<open>
  \<open>at h s\<close>: the store \<open>s\<close> has accepted the mutations \<open>h\<close>, each with the flag \<open>flush\<close>, and answers every
  lookup at once as the map of \<open>h\<close>.
\<close>

locale logged_store =
  fixes ops :: "'s store_ops"
    and flush :: bool
    and fits :: "mutation list \<Rightarrow> bool"
    and at :: "mutation list \<Rightarrow> 's \<Rightarrow> bool"
  assumes fits_prefix: "fits (h @ h') \<Longrightarrow> fits h"
    and fits_order: "mset h = mset h' \<Longrightarrow> fits h \<Longrightarrow> fits h'"
    and mutate: "at h s \<Longrightarrow> fits (h @ [(t, k, v)]) \<Longrightarrow>
      \<exists>s'. op_batchMutation ops t k v flush s = Returns (True, s') \<and> at (h @ [(t, k, v)]) s'"
    and look: "at h s \<Longrightarrow> fits h \<Longrightarrow> op_get ops k s = Returns (muts_map h k)"
    and settle: "at h s \<Longrightarrow> fits h \<Longrightarrow> \<exists>s'. op_writeBarrier ops s = Returns (True, s') \<and> at h s'"
    and read_settle: "at h s \<Longrightarrow> fits h \<Longrightarrow> \<exists>s'. op_readBarrier ops s = Returns (True, s') \<and> at h s'"
begin

definition serves :: "mutation list \<Rightarrow> 's manager \<Rightarrow> bool" where
  "serves h m \<longleftrightarrow> isServeLocal m \<and> (\<exists>s. mg_store m = Some s \<and> at h s)"

text \<open>The callback on a command of rank \<open>r\<close>, and a call of the serving rank.\<close>

lemma callback_private:
  assumes at: "serves h m'" and serve: "isServeLocal m" and fit: "fits (h @ command_muts m r c)" and c: "store_command c"
    and cfg: "cfg_alwaysFlush cfg = flush"
  shows "\<exists>ret m''. callbackForCollectiveIO ops cfg r (fst c) (fst (snd c)) (snd (snd c)) m' = Returns (ret, m'')
    \<and> serves (h @ command_muts m r c) m''
    \<and> (case reply_command (fst c) of None \<Rightarrow> [] | Some x \<Rightarrow> [(x, fst (snd c), ret)]) = fst (private_do c (rank_view m r h))"
proof -
  obtain cmd k v where e: "c = (cmd, k, v)" by (cases c)
  from at obtain s where store: "mg_store m' = Some s" and s: "at h s" and serve': "isServeLocal m'" by (auto simp: serves_def)
  note h = fits_prefix [OF fit] and keys = serve_same_keys [OF serve serve']
  note defs = e cmd_distinct' command_muts_def rank_view_def serves_def serve' keys
  from c [unfolded e] show ?thesis
  proof (cases rule: store_command_cases)
    case 1
    then show ?thesis using look [OF s h] s store by (auto simp: defs callback_get [OF store])
  next
    case 2
    then show ?thesis using look [OF s h] s store by (auto simp: defs callback_metaGet [OF store] store_metaGet_def)
  next
    case 3
    then show ?thesis using mutate [OF s, of Put "rankedKey m r k" v] fit
      by (auto simp: defs callback_put [OF store] store_put_def cfg)
  next
    case 4
    then show ?thesis using mutate [OF s, of Del "rankedKey m r k" "[]"] fit
      by (auto simp: defs callback_del [OF store] store_del_def cfg)
  next
    case 5
    then show ?thesis using mutate [OF s, of Put "meta_prefix @ rankedKey m r k" v] fit
      by (auto simp: defs callback_metaPut [OF store] store_metaPut_def store_put_def cfg)
  next
    case 6
    then show ?thesis using s store by (auto simp: defs callback_read_barrier [OF store])
  next
    case 7
    then show ?thesis using settle [OF s h] by (auto simp: defs callback_write_barrier [OF store])
  qed
qed

lemma own_private:
  assumes at: "serves h m'" and serve: "isServeLocal m" and fit: "fits (h @ command_muts m 0 c)" and c: "store_command c"
    and cfg: "cfg_alwaysFlush cfg = flush"
  shows "\<exists>ret m''. own_operation ops cfg (fst c) (fst (snd c)) (snd (snd c)) m' = Returns (ret, m'')
    \<and> serves (h @ command_muts m 0 c) m''
    \<and> (case reply_command (fst c) of None \<Rightarrow> [] | Some x \<Rightarrow> [(x, fst (snd c), ret)]) = fst (private_do c (rank_view m 0 h))"
proof -
  obtain cmd k v where e: "c = (cmd, k, v)" by (cases c)
  from at obtain s where store: "mg_store m' = Some s" and s: "at h s" and serve': "isServeLocal m'" by (auto simp: serves_def)
  note h = fits_prefix [OF fit] and keys = serve_same_keys [OF serve serve']
  note defs = e cmd_distinct' command_muts_def rank_view_def serves_def serve' keys own_operation_def Let_def store serve_rank [OF serve']
  from c [unfolded e] show ?thesis
  proof (cases rule: store_command_cases)
    case 1
    then show ?thesis using look [OF s h] s by (auto simp: defs mg_get_def local_read_def)
  next
    case 2
    then show ?thesis using look [OF s h] s by (auto simp: defs mg_metaGet_def local_read_def store_metaGet_def)
  next
    case 3
    then show ?thesis using mutate [OF s, of Put "rankedKey m 0 k" v] fit
      by (auto simp: defs mg_put_default_def mg_put_def local_update_def store_put_def cfg)
  next
    case 4
    then show ?thesis using mutate [OF s, of Del "rankedKey m 0 k" "[]"] fit
      by (auto simp: defs mg_del_default_def mg_del_def local_update_def store_del_def cfg)
  next
    case 5
    then show ?thesis using mutate [OF s, of Put "meta_prefix @ rankedKey m 0 k" v] fit
      by (auto simp: defs mg_metaPut_def local_update_def store_metaPut_def store_put_def cfg)
  next
    case 6
    then show ?thesis using read_settle [OF s h] by (auto simp: defs mg_readBarrier_def local_update_def)
  next
    case 7
    then show ?thesis using settle [OF s h] by (auto simp: defs mg_writeBarrier_def local_update_def)
  qed
qed

lemma rank_call_private:
  assumes "serves h m'" and "isServeLocal m" and "fits (h @ command_muts m r c)" and "store_command c" and "cfg_alwaysFlush cfg = flush"
  shows "\<exists>ret m''. rank_call ops cfg r (fst c) (fst (snd c)) (snd (snd c)) m' = Returns (ret, m'')
    \<and> serves (h @ command_muts m r c) m''
    \<and> (case reply_command (fst c) of None \<Rightarrow> [] | Some x \<Rightarrow> [(x, fst (snd c), ret)]) = fst (private_do c (rank_view m r h))"
proof (cases "r = 0")
  case True
  with own_private [OF assms(1,2) _ assms(4,5)] assms(3) show ?thesis unfolding rank_call_def if_P [OF True] by simp
next
  case False
  from callback_private [OF assms] show ?thesis unfolding rank_call_def if_not_P [OF False] .
qed

end

section \<open>The stores\<close>

text \<open>The native store answers at once, whatever is queued; the marker of a deletion must not be stored.\<close>

fun mutation_entry :: "mutation \<Rightarrow> key \<times> val" where
  "mutation_entry (t, k, v) = (k, actual_value t v)"

definition native_muts_fit :: "mutation list \<Rightarrow> bool" where
  "native_muts_fit h \<longleftrightarrow> native_fits (map mutation_entry h) \<and> (\<forall>(t, k, v) \<in> set h. t = Put \<longrightarrow> v \<noteq> MEMTABLE_TOMBSTONE)"

definition native_logged :: "string \<Rightarrow> mutation list \<Rightarrow> native_state \<Rightarrow> bool" where
  "native_logged db h s \<longleftrightarrow> native_at db 0 (map mutation_entry h) (1 + 2 * length h) s"

lemma mset_file_bytes: "mset h = mset h' \<Longrightarrow> length (file_bytes h) = length (file_bytes h')"
proof -
  assume "mset h = mset h'"
  then have "sum_mset (image_mset (\<lambda>(k, v). length (serialize_entry k v)) (mset h)) = sum_mset (image_mset (\<lambda>(k, v). length (serialize_entry k v)) (mset h'))"
    by simp
  moreover have "length (file_bytes xs) = sum_mset (image_mset (\<lambda>(k, v). length (serialize_entry k v)) (mset xs))" for xs
    by (induction xs) auto
  ultimately show ?thesis by simp
qed

lemma native_fits_order:
  assumes "mset h = mset h'" and "native_fits h"
  shows "native_fits h'"
  using assms(2) mset_file_bytes [OF assms(1)] mset_eq_setD [OF assms(1)] mset_eq_length [OF assms(1)]
  by (simp add: native_fits_def log_ok_def)

lemma live_muts_map:
  "\<forall>(t, k, v) \<in> set h. t = Put \<longrightarrow> v \<noteq> MEMTABLE_TOMBSTONE \<Longrightarrow> live (entries_map (map mutation_entry h)) = muts_map h"
proof (induction h rule: rev_induct)
  case (snoc x h)
  obtain t k v where x: "x = (t, k, v)" by (cases x)
  have "t = Put \<longrightarrow> v \<noteq> MEMTABLE_TOMBSTONE" using snoc.prems x by auto
  from live_mutation [OF this, of "map mutation_entry h" k] snoc show ?case
    by (simp add: x del: entries_map_snoc)
qed simp

interpretation native_log: logged_store "native_ops good_io" flush native_muts_fit "native_logged db" for flush db
proof
  show "native_muts_fit h" if "native_muts_fit (h @ h')" for h h'
    using that native_fits_subseq [of "map mutation_entry h" "map mutation_entry (h @ h')"]
    by (auto simp: native_muts_fit_def)
  show "native_muts_fit h'" if "mset h = mset h'" "native_muts_fit h" for h h'
    using that native_fits_order [of "map mutation_entry h" "map mutation_entry h'"] mset_eq_setD [OF that(1)]
    by (simp add: native_muts_fit_def)
  show "\<exists>s'. op_batchMutation (native_ops good_io) t k v flush s = Returns (True, s') \<and> native_logged db (h @ [(t, k, v)]) s'"
    if "native_logged db h s" "native_muts_fit (h @ [(t, k, v)])" for h s t k v flush
    using seq_mutation_at [of db 0 "map mutation_entry h" "1 + 2 * length h" s k t v flush] that
    by (simp add: native_logged_def native_muts_fit_def native_fits_def native_ops_def)
  show "op_get (native_ops good_io) k s = Returns (muts_map h k)" if "native_logged db h s" "native_muts_fit h" for h s k
  proof -
    obtain n f where s: "s = (n, f)" by (cases s)
    from that(1) obtain gens ids where "sys_inv 0 gens ids (map mutation_entry h) (sys_start n f)"
      by (auto simp: native_logged_def native_at_def s)
    from native_get [OF this] live_muts_map that(2) show ?thesis
      by (simp add: s native_ops_def native_muts_fit_def)
  qed
  show "\<exists>s'. op_writeBarrier (native_ops good_io) s = Returns (True, s') \<and> native_logged db h s'"
    if "native_logged db h s" "native_muts_fit h" for h s
    using seq_barrier_at [of db 0 "map mutation_entry h" "1 + 2 * length h" s] that
    by (auto simp: native_logged_def native_muts_fit_def native_fits_def native_ops_def)
  show "\<exists>s'. op_readBarrier (native_ops good_io) s = Returns (True, s') \<and> native_logged db h s'" if "native_logged db h s" for h s
    using that by (cases s) (simp add: native_ops_def nt_readBarrier_def)
qed

text \<open>
  A store under the contract of \<open>Store\<close> that takes every mutation, when lookups need no barrier: with the
  flag set, or when every state is readable.
\<close>

definition store_at ::
  "('s \<Rightarrow> bool) \<Rightarrow> ('s \<Rightarrow> key \<rightharpoonup> val) \<Rightarrow> ('s \<Rightarrow> bool) \<Rightarrow> mutation list \<Rightarrow> 's \<Rightarrow> bool" where
  "store_at ok content readable h s \<longleftrightarrow> ok s \<and> readable s \<and> content s = muts_map h"

lemma store_logged:
  assumes st: "lsmio_store ops ok content readable scannable (\<lambda>_ _ _ _. True)" and now: "flush \<or> (\<forall>s. readable s)"
    and rb: "\<And>s. ok s \<Longrightarrow> readable s \<Longrightarrow> \<exists>s'. op_readBarrier ops s = Returns (True, s') \<and> ok s' \<and> readable s' \<and> content s' = content s"
  shows "logged_store ops flush (\<lambda>_. True) (store_at ok content readable)"
proof
  show "\<exists>s'. op_batchMutation ops t k v flush s = Returns (True, s') \<and> store_at ok content readable (h @ [(t, k, v)]) s'"
    if "store_at ok content readable h s" for h s t k v
    using lsmio_store.mutation [OF st, of s t k v flush] that now by (auto simp: store_at_def)
  show "op_get ops k s = Returns (muts_map h k)" if "store_at ok content readable h s" for h s k
    using lsmio_store.get [OF st, of s k] that by (simp add: store_at_def)
  show "\<exists>s'. op_writeBarrier ops s = Returns (True, s') \<and> store_at ok content readable h s'"
    if "store_at ok content readable h s" for h s
    using lsmio_store.write_barrier [OF st, of s] that by (auto simp: store_at_def)
  show "\<exists>s'. op_readBarrier ops s = Returns (True, s') \<and> store_at ok content readable h s'"
    if "store_at ok content readable h s" for h s
    using rb [of s] that by (auto simp: store_at_def)
qed simp_all

lemma rdb_logged:
  "kv_db_laws db repr \<Longrightarrow> logged_store (rdb_ops db) flush (\<lambda>_. True) (store_at rdb_ok (rdb_content repr) (\<lambda>_. True))"
  by (rule store_logged [OF rdb_store_contract]) (simp_all add: rdb_ops_def rdb_readBarrier_def)

lemma ldb_logged:
  assumes laws: "kv_db_laws db repr"
  shows "logged_store (ldb_ops db) True (\<lambda>_. True) (store_at ldb_ok (ldb_content repr) ldb_readable)"
proof (rule store_logged [OF ldb_store_contract [OF laws]])
  show "\<exists>s'. op_readBarrier (ldb_ops db) s = Returns (True, s') \<and> ldb_ok s' \<and> ldb_readable s' \<and> ldb_content repr s' = ldb_content repr s"
    if "ldb_ok s" for s
    using ldb_stopBatch_spec [OF laws that] by (auto simp: ldb_ops_def ldb_readBarrier_def ldb_readable_def)
qed simp

interpretation rdb_log: logged_store "rdb_ops mem_db" flush "\<lambda>_. True" "store_at rdb_ok (rdb_content mem_repr) (\<lambda>_. True)" for flush
  by (rule rdb_logged [OF mem_db_laws])

interpretation ldb_log: logged_store "ldb_ops mem_db" True "\<lambda>_. True" "store_at ldb_ok (ldb_content mem_repr) ldb_readable"
  by (rule ldb_logged [OF mem_db_laws])

section \<open>Listing the metadata\<close>

text \<open>The callback lists the metadata of the rank that asks, whatever infix that rank was given.\<close>

lemma callback_metaGetAll:
  "mg_store m = Some s \<Longrightarrow> callbackForCollectiveIO ops cfg r CMD_META_GET_ALL k v m =
    bind_outcome (store_metaGetAll ops (to_string_int (int r) @ ''::'') s) (\<lambda>(b, xs). Returns (vectorTupleSerialize xs, m))"
  by (simp add: callbackForCollectiveIO_def Let_def)

lemma prefix_ranked: "isServeLocal m \<Longrightarrow> prefix (to_string_int (int r) @ ''::'') k \<longleftrightarrow> (\<exists>k'. k = rankedKey m r k')"
  by (auto simp: prefix_def rankedKey_def)

context lsmio_store
begin

lemma client_listing:
  assumes agg: "mg_store agg = Some s" "isServeLocal agg" and s: "ok s" "scannable s" and m: "isOpenRemote m"
    and plain_text: "\<forall>k v. content s (meta_prefix @ k) = Some v \<longrightarrow> tuple_ok (meta_prefix @ k, v)"
  shows "\<exists>xs p. mg_metaGetAll ops cfg inFix [] (m, agg) = Returns ((True, xs), p)
    \<and> (\<forall>k v. (k, v) \<in> set xs \<longleftrightarrow> (\<exists>k'. k = meta_prefix @ rankedKey agg (mg_aggRank m) k') \<and> content s k = Some v)"
proof -
  let ?r = "mg_aggRank m"
  from metaGetAll_spec [OF s, of "to_string_int (int ?r) @ ''::''"] obtain b xs where
    xs: "store_metaGetAll ops (to_string_int (int ?r) @ ''::'') s = Returns (b, xs)"
    and set: "\<forall>k v. (k, v) \<in> set xs \<longleftrightarrow> (\<exists>k'. k = meta_prefix @ k' \<and> prefix (to_string_int (int ?r) @ ''::'') k' \<and> meta_content s k' = Some v)"
    by blast
  have set': "(k, v) \<in> set xs \<longleftrightarrow> (\<exists>k'. k = meta_prefix @ rankedKey agg ?r k') \<and> content s k = Some v" for k v
    using set by (auto simp: prefix_ranked [OF agg(2)] meta_content_def)
  then have "\<forall>e \<in> set xs. tuple_ok e" using plain_text by auto
  then have "vectorTupleDeserialize (vectorTupleSerialize xs) [] = xs" using tuple_roundtrip [of xs "[]"] by simp
  then show ?thesis using set' xs m remote_not_local [OF m]
    by (simp add: mg_metaGetAll_def rpc_plain callback_metaGetAll [OF agg(1)])
qed

lemma own_listing:
  assumes agg: "mg_store agg = Some s" "isServeLocal agg" and s: "ok s" "scannable s"
  shows "\<exists>b xs p. mg_metaGetAll ops cfg [] [] (agg, m) = Returns ((b, xs), p)
    \<and> (\<forall>k v. (k, v) \<in> set xs \<longleftrightarrow> prefix meta_prefix k \<and> content s k = Some v)"
proof -
  from metaGetAll_spec [OF s, of "[]"] obtain b xs where xs: "store_metaGetAll ops [] s = Returns (b, xs)"
    "\<forall>k v. (k, v) \<in> set xs \<longleftrightarrow> (\<exists>k'. k = meta_prefix @ k' \<and> prefix [] k' \<and> meta_content s k' = Some v)" by blast
  then have "(k, v) \<in> set xs \<longleftrightarrow> prefix meta_prefix k \<and> content s k = Some v" for k v
    by (auto simp: meta_content_def prefix_def)
  with xs(1) agg serve_rank [OF agg(2)] show ?thesis by (simp add: mg_metaGetAll_def)
qed

end

end
