(* ===== verification/Group_Private.thy ===== *)
theory Group_Private
  imports Group_Ends Rank_View
begin

text \<open>
  An aggregation group over a store, end to end: the transport of \<open>Group_Life\<close>, the operations and the
  callback of the manager, and a store that keeps \<open>logged_store\<close>. Whatever the interleaving of the ranks,
  every rank gets the replies of a store of its own, the serving rank included.
\<close>

section \<open>Commands of several ranks on one store\<close>

definition calls_muts :: "'s manager \<Rightarrow> (nat \<times> command) list \<Rightarrow> mutation list" where
  "calls_muts m cs = concat (map (\<lambda>(r, c). command_muts m r c) cs)"

lemma calls_muts_simps [simp]:
  "calls_muts m [] = []" "calls_muts m ((r, c) # cs) = command_muts m r c @ calls_muts m cs"
  "calls_muts m (xs @ ys) = calls_muts m xs @ calls_muts m ys"
  by (simp_all add: calls_muts_def)

lemma store_command_call_ok: "store_command c \<Longrightarrow> call_ok c"
  by (auto simp: store_command_def store_commands_def call_ok_def) (simp_all add: cmd_defs)

text \<open>When all clients have \<open>l\<close> commands, \<open>l\<close> rounds hold all of them, and each rank's are its program.\<close>

lemma of_rank_rounds:
  assumes "0 < r" and "r < n" and "length (progs r) = l"
  shows "of_rank r (rounds_calls n progs l) = progs r"
proof -
  have "t \<le> l \<Longrightarrow> of_rank r (rounds_calls n progs t) = take t (progs r)" for t
    by (induction t) (simp_all add: rounds_calls_Suc of_rank_round assms take_Suc_conv_app_nth, simp add: rounds_calls_def)
  from this [of l] show ?thesis using assms(3) by simp
qed

lemma rounds_split: "t \<le> l \<Longrightarrow> \<exists>ds. rounds_calls n progs l = rounds_calls n progs t @ ds"
  by (induction rule: dec_induct) (auto simp: rounds_calls_Suc)

lemma rounds_over:
  assumes same: "\<forall>r. 0 < r \<and> r < n \<longrightarrow> length (progs r) = l"
  shows "l \<le> t \<Longrightarrow> rounds_calls n progs t = rounds_calls n progs l"
proof (induction rule: dec_induct)
  case (step t)
  have "round_calls n progs t = []" using same step.hyps(1) by (auto simp: round_calls_def filter_empty_conv)
  with step.IH show ?case by (simp add: rounds_calls_Suc)
qed simp

text \<open>All commands of a group, and that every order in which they can come has the same ones.\<close>

definition group_calls :: "nat \<Rightarrow> (nat \<Rightarrow> command list) \<Rightarrow> nat \<Rightarrow> (nat \<times> command) list" where
  "group_calls n progs l = map (Pair 0) (progs 0) @ rounds_calls n progs l"

lemma group_commands: "(r, c) \<in> set (group_calls n progs l) \<Longrightarrow> c \<in> set (progs r)"
  by (auto simp: group_calls_def rounds_calls_def round_calls_def)

lemma mset_merges:
  assumes "merges n progs t own calls"
  shows "mset calls = mset (map (Pair 0) own @ rounds_calls n progs t)"
proof -
  have "mset calls = mset (map (Pair 0) (of_rank 0 calls)) + mset (filter (\<lambda>x. 0 < fst x) calls)"
    by (induction calls) auto
  then show ?thesis using assms by (simp only: merges_def mset_append)
qed

lemma merges_group:
  assumes m: "merges n progs t own calls" and own: "prefix own (progs 0)"
    and same: "\<forall>r. 0 < r \<and> r < n \<longrightarrow> length (progs r) = l"
  shows "\<exists>ds. mset (calls @ ds) = mset (group_calls n progs l)"
proof -
  obtain rest where "progs 0 = own @ rest" using own by (auto simp: prefix_def)
  moreover obtain ds where "rounds_calls n progs l = rounds_calls n progs t @ ds"
    using rounds_split [of t l n progs] rounds_over [OF same, of t] by (cases "t \<le> l") auto
  ultimately have "mset (calls @ map (Pair 0) rest @ ds) = mset (group_calls n progs l)"
    by (simp add: mset_merges [OF m] group_calls_def)
  then show ?thesis by blast
qed

lemma mset_calls_muts: "mset xs = mset ys \<Longrightarrow> mset (calls_muts m xs) = mset (calls_muts m ys)"
proof -
  have "mset (calls_muts m zs) = \<Sum>\<^sub># (image_mset (\<lambda>(r, c). mset (command_muts m r c)) (mset zs))" for zs
    by (induction zs) auto
  then show "mset xs = mset ys \<Longrightarrow> mset (calls_muts m xs) = mset (calls_muts m ys)" by simp
qed

section \<open>Every rank has its own view\<close>

lemma private_step:
  "private_do c w = (rs, w') \<Longrightarrow> private_run (c # cs) w = (rs @ fst (private_run cs w'), snd (private_run cs w'))"
  by (simp add: split_beta)

context logged_store
begin

lemma calls_private:
  assumes serve: "isServeLocal m" and cfg: "cfg_alwaysFlush cfg = flush"
  shows "serves h m' \<Longrightarrow> fits (h @ calls_muts m cs) \<Longrightarrow> \<forall>x \<in> set cs. store_command (snd x) \<Longrightarrow>
    \<exists>rep m''. do_ranked (rank_call ops cfg) cs m' = Returns (rep, m'') \<and> serves (h @ calls_muts m cs) m''
      \<and> (\<forall>q. private_run (of_rank q cs) (rank_view m q h) = (of_rank q rep, rank_view m q (h @ calls_muts m cs)))"
proof (induction cs arbitrary: h m')
  case (Cons x cs)
  obtain r c where x: "x = (r, c)" by (cases x)
  obtain cmd k v where c: "c = (cmd, k, v)" by (cases c)
  let ?h = "h @ command_muts m r c"
  have fit: "fits (?h @ calls_muts m cs)" and sc: "store_command c" using Cons.prems by (simp_all add: x)
  from rank_call_private [OF Cons.prems(1) serve fits_prefix [OF fit] sc cfg] obtain ret m1 where
    call: "rank_call ops cfg r cmd k v m' = Returns (ret, m1)" and m1: "serves ?h m1"
    and new: "(case reply_command cmd of None \<Rightarrow> [] | Some y \<Rightarrow> [(y, k, ret)]) = fst (private_do c (rank_view m r h))"
    unfolding c fst_conv snd_conv by (elim exE conjE)
  have "\<forall>x \<in> set cs. store_command (snd x)" using Cons.prems(3) by simp
  from Cons.IH [OF m1 fit this] obtain rep m2 where
    rest: "do_ranked (rank_call ops cfg) cs m1 = Returns (rep, m2)" "serves (?h @ calls_muts m cs) m2"
    "\<forall>q. private_run (of_rank q cs) (rank_view m q ?h) = (of_rank q rep, rank_view m q (?h @ calls_muts m cs))" by blast
  let ?new = "case reply_command cmd of None \<Rightarrow> [] | Some y \<Rightarrow> [(r, y, k, ret)]"
  have run: "do_ranked (rank_call ops cfg) (x # cs) m' = Returns (?new @ rep, m2)"
    using call rest(1) by (simp add: x c split: option.split)
  have "private_run (of_rank q (x # cs)) (rank_view m q h) = (of_rank q (?new @ rep), rank_view m q (?h @ calls_muts m cs))" for q
  proof (cases "q = r")
    case True
    have "private_do c (rank_view m r h) = (of_rank r ?new, rank_view m r ?h)"
      using new view_step [OF sc serve, of r h r] by (intro prod_eqI) (simp_all split: option.splits)
    with private_step [OF this, of "of_rank r cs"] rest(3) True show ?thesis by (simp add: x del: private_run.simps)
  next
    case False
    then have "rank_view m q ?h = rank_view m q h" "of_rank q ?new = []"
      using view_step [OF sc serve, of q h r] by (simp_all split: option.split)
    with spec [OF rest(3), of q] False show ?thesis by (simp add: x)
  qed
  with run rest(2) show ?case by (intro exI [of _ "?new @ rep"] exI [of _ m2]) (simp add: x)
qed auto

text \<open>In every order the calls return, and leave each rank with its own replies and view.\<close>

lemma merged_private:
  assumes serve: "isServeLocal m" and cfg: "cfg_alwaysFlush cfg = flush" and start: "serves [] m"
    and cmds: "\<forall>r. \<forall>c \<in> set (progs r). store_command c" and same: "\<forall>r. 0 < r \<and> r < n \<longrightarrow> length (progs r) = l"
    and fit: "fits (calls_muts m (group_calls n progs l))"
    and merge: "merges n progs t own calls" and own: "prefix own (progs 0)"
  shows "\<exists>rep m'. do_ranked (rank_call ops cfg) calls m = Returns (rep, m') \<and> serves (calls_muts m calls) m' \<and> fits (calls_muts m calls)
    \<and> (\<forall>q. private_run (of_rank q calls) no_view = (of_rank q rep, rank_view m q (calls_muts m calls)))"
proof -
  from merges_group [OF merge own same] obtain ds where ds: "mset (calls @ ds) = mset (group_calls n progs l)" by blast
  have "fits (calls_muts m (calls @ ds))" by (rule fits_order [OF mset_calls_muts [OF ds [symmetric]] fit])
  then have f: "fits (calls_muts m calls)" by (auto intro: fits_prefix)
  have "set calls \<subseteq> set (group_calls n progs l)" using mset_eq_setD [OF ds] by auto
  then have "\<forall>x \<in> set calls. store_command (snd x)" using cmds group_commands by fastforce
  from calls_private [OF serve cfg start _ this] f show ?thesis by simp
qed

lemma team_private:
  assumes n: "0 < n" and serve: "isServeLocal m" and cfg: "cfg_alwaysFlush cfg = flush" and start: "serves [] m"
    and cmds: "\<forall>r. \<forall>c \<in> set (progs r). store_command c" and same: "\<forall>r. 0 < r \<and> r < n \<longrightarrow> length (progs r) = l"
    and fit: "fits (calls_muts m (group_calls n progs l))"
    and run: "(team_step (rank_call ops cfg) ^^ k) (team_new n progs m) g"
    and stuck: "\<forall>g'. \<not> team_step (rank_call ops cfg) g g'"
  shows "(\<forall>r < n. phase_at g r = Ended) \<and> (\<exists>s. mg_store (sv_lm (tm_server g)) = Some s \<and> (\<forall>r < n.
      rk_replies (tm_rank g r) = fst (private_run (progs r) no_view)
      \<and> (\<forall>k. op_get ops (rankedKey m r k) s = Returns (fst (snd (private_run (progs r) no_view)) k)
          \<and> store_metaGet ops (rankedKey m r k) s = Returns (snd (snd (private_run (progs r) no_view)) k))))"
proof -
  let ?cb = "rank_call ops cfg"
  note merged = merged_private [OF serve cfg start cmds same fit]
  have ok: "\<forall>r. \<forall>c \<in> set (progs r). call_ok c" using cmds store_command_call_ok by blast
  have sv: "served ?cb n progs m" unfolding served_def using merged by blast
  have run': "(team_step ?cb)\<^sup>*\<^sup>* (team_new n progs m) g" by (rule relpowp_imp_rtranclp [OF run])
  from team_run_inv [OF run' n ok] obtain t calls rep sent where
    inv: "ctl_inv n g" "data_inv ?cb n progs m t calls rep sent g" by blast
  have ended: "\<forall>r < n. phase_at g r = Ended"
    by (rule team_stuck [OF stuck inv(2,1) n ok sv team_run_alive [OF run' n ok sv] same])
  then have "\<exists>r < n. phase_at g r = Ended" using n by blast
  from team_served [OF inv n disjI2 [OF this]] obtain j own cs rep where
    all: "\<forall>r. 0 < r \<and> r < n \<longrightarrow> length (progs r) = j \<and> sv_inbox (tm_server g) ! r = [] \<and> rk_todo (tm_rank g r) = []
      \<and> At_End \<le> phase_at g r"
    and own: "Running < phase_at g 0 \<longrightarrow> own = progs 0" and merge: "merges n progs j own cs"
    and calls: "do_ranked ?cb cs m = Returns (rep, sv_lm (tm_server g))"
    and replies: "\<forall>r < n. rk_replies (tm_rank g r) = of_rank r rep" by (elim exE conjE)
  have own': "own = progs 0" using own ended n by (simp add: phase_order)
  from merged [OF merge] own' calls have m': "serves (calls_muts m cs) (sv_lm (tm_server g))" and fit': "fits (calls_muts m cs)"
    and view: "\<forall>q. private_run (of_rank q cs) no_view = (of_rank q rep, rank_view m q (calls_muts m cs))" by auto
  have progs: "of_rank r cs = progs r" if "r < n" for r
  proof (cases "r = 0")
    case False
    then have "of_rank r cs = of_rank r (filter (\<lambda>x. 0 < fst x) cs)" by (induction cs) auto
    then show ?thesis using merge of_rank_rounds [of r n progs j] all that False by (simp add: merges_def)
  qed (use merge own' in \<open>simp add: merges_def\<close>)
  from m' obtain s where s: "mg_store (sv_lm (tm_server g)) = Some s" "at (calls_muts m cs) s" by (auto simp: serves_def)
  show ?thesis
  proof (intro conjI ended exI [of _ s] allI impI)
    fix r k assume r: "r < n"
    have v: "private_run (progs r) no_view = (of_rank r rep, rank_view m r (calls_muts m cs))"
      using spec [OF view, of r] by (simp only: progs [OF r])
    show "rk_replies (tm_rank g r) = fst (private_run (progs r) no_view)" using replies r by (simp add: v)
    show "op_get ops (rankedKey m r k) s = Returns (fst (snd (private_run (progs r) no_view)) k)"
      "store_metaGet ops (rankedKey m r k) s = Returns (snd (snd (private_run (progs r) no_view)) k)"
      using look [OF s(2) fit'] by (simp_all add: v rank_view_def store_metaGet_def)
  qed (rule s(1))
qed

end

section \<open>Properties\<close>

lemma manager_init_native:
  assumes "manager_init (make_native cfg magic f) cfg env name dir True = Returns m" and serve: "isServeLocal m"
  shows "m = m\<lparr>mg_store := Some (native_new cfg (mg_dbPath m) True magic f)\<rparr>"
proof -
  have "isOpenLocal m" using serve by (simp add: role_defs)
  then have "isOpenLocal (manager_layout cfg env name dir True :: native_state manager)"
    using assms(1) by (auto simp: manager_init_def Let_def bind_outcome_Returns_iff isOpenLocal_def split: if_splits)
  then show ?thesis
    using assms(1) by (auto simp: manager_init_def Let_def bind_outcome_Returns_iff make_native_def split: if_splits storage_type.splits)
qed


text \<open>Three ranks that write the same key and read it.\<close>

definition pair_progs :: "nat \<Rightarrow> command list" where
  "pair_progs r = (if r = 0 then [(CMD_PUT, ''a'', ''0''), (CMD_GET, ''a'', KV_DUMMY)]
     else if r = 1 then [(CMD_PUT, ''a'', ''1''), (CMD_GET, ''a'', KV_DUMMY)]
     else if r = 2 then [(CMD_PUT, ''a'', ''2''), (CMD_GET, ''a'', KV_DUMMY)] else [])"

definition trio_env :: mpi_env where
  "trio_env = \<lparr>me_adios = None, me_mpi = True, me_rank = 0, me_size = 3, me_node = (\<lambda>_. 0)\<rparr>"

lemma pair_progs_ok: "\<forall>r. \<forall>c \<in> set (pair_progs r). store_command c"
  by (auto simp: pair_progs_def store_command_def store_commands_def)

lemma pair_progs_same: "\<forall>r. 0 < r \<and> r < 3 \<longrightarrow> length (pair_progs r) = 2"
  by (auto simp: pair_progs_def less_Suc_eq numeral_3_eq_3)

lemma pair_calls: "group_calls 3 pair_progs 2 = [(0, CMD_PUT, ''a'', ''0''), (0, CMD_GET, ''a'', KV_DUMMY),
    (1, CMD_PUT, ''a'', ''1''), (2, CMD_PUT, ''a'', ''2''), (1, CMD_GET, ''a'', KV_DUMMY), (2, CMD_GET, ''a'', KV_DUMMY)]"
  by code_simp

lemma small_dec: "dec 0 = ''0''" "dec 1 = ''1''" "dec 2 = ''2''"
  by code_simp+

lemma pair_muts:
  "isServeLocal m \<Longrightarrow> calls_muts m (group_calls 3 pair_progs 2) =
    [(Put, ''0::a'', ''0''), (Put, ''1::a'', ''1''), (Put, ''2::a'', ''2'')]"
  by (simp add: pair_calls command_muts_def rankedKey_def cmd_distinct' to_string_int_def small_dec [simplified])

lemma pair_private:
  "fst (private_run (pair_progs 0) no_view) = [(RET_GET, ''a'', ''0'')]"
  "fst (private_run (pair_progs 1) no_view) = [(RET_GET, ''a'', ''1'')]"
  "fst (private_run (pair_progs 2) no_view) = [(RET_GET, ''a'', ''2'')]"
  by (simp_all add: pair_progs_def no_view_def cmd_distinct' found_value_def)

lemma trio_layout:
  fixes m :: "'s manager"
  defines "m \<equiv> manager_layout default_config trio_env ''d'' [] True"
  shows "isServeLocal m" and "isOpenLocal m" and "mg_aggSize m = 3"
  by (simp_all add: m_def role_defs trio_env_def split_rank_def split_size_def group_color_def default_config_def)

lemma pair_fits: "isServeLocal m \<Longrightarrow> native_muts_fit (calls_muts m (group_calls 3 pair_progs 2))"
  by (auto simp: pair_muts native_muts_fit_def actual_value_def MEMTABLE_TOMBSTONE_def intro!: small_log_fits)


text \<open>A LevelDB store that has just been opened on an empty library.\<close>

definition empty_ldb :: "write_op list ldb_store" where
  "empty_ldb = sample_ldb\<lparr>ldb_db := Some [], ldb_batch := None\<rparr>"



text \<open>Without the flag a rank can miss what it has written: the put waits in the batch of the store.\<close>

lemma leveldb_rank_misses_own_put:
  "(case do_ranked (rank_call (ldb_ops mem_db) default_config)
        [(1, CMD_PUT, ''a'', ''1''), (1, CMD_GET, ''a'', KV_DUMMY)]
        ((manager_layout default_config trio_env ''d'' [] True)\<lparr>mg_store := Some empty_ldb\<rparr>) of
      Returns (rep, x) \<Rightarrow> rep | _ \<Rightarrow> []) = [(1, RET_GET, ''a'', [])]"
  by code_simp

end
