(* ===== verification/Client_Adios.thy ===== *)
theory Client_Adios
  imports Transport
begin

text \<open>
  The objects of the client classes: the constructors of \<open>lib/manager/client/client.cpp\<close>,
  \<open>client_mpi.cpp\<close> and \<open>client_adios.cpp\<close>, the report on the thread support of MPI, and the transport of
  commands through a communicator of ADIOS2. Its sender and its serving side agree with those of
  \<open>client_mpi.cpp\<close>; its \<open>recvCommand\<close> never returns a command.
\<close>

section \<open>Constructors\<close>

record io_client =
  ic_rank :: nat
  ic_size :: nat
  ic_loopRunning :: bool

definition client_new :: io_client where
  "client_new = \<lparr>ic_rank = 0, ic_size = 1, ic_loopRunning = False\<rparr>"

text \<open>A communicator is its number of ranks and the own rank.\<close>

type_synonym communicator = "nat \<times> nat"

definition mpi_client_new :: "communicator \<Rightarrow> io_client" where
  "mpi_client_new c = client_new\<lparr>ic_size := fst c, ic_rank := snd c\<rparr>"

definition adios_client_new :: "communicator option \<Rightarrow> io_client" where
  "adios_client_new comm = client_new\<lparr>ic_rank := (case comm of None \<Rightarrow> 0 | Some c \<Rightarrow> snd c),
     ic_size := (case comm of None \<Rightarrow> 1 | Some c \<Rightarrow> fst c)\<rparr>"

section \<open>Thread support\<close>

datatype thread_level = MPI_THREAD_SINGLE | MPI_THREAD_FUNNELED | MPI_THREAD_SERIALIZED | MPI_THREAD_MULTIPLE
  | Other_Level int

definition MPI_THREAD_TO_STR :: "thread_level \<Rightarrow> string" where
  "MPI_THREAD_TO_STR l = (case l of
       MPI_THREAD_SINGLE \<Rightarrow> ''MPI_THREAD_SINGLE''
     | MPI_THREAD_FUNNELED \<Rightarrow> ''MPI_THREAD_FUNNELED''
     | MPI_THREAD_SERIALIZED \<Rightarrow> ''MPI_THREAD_SERIALIZED''
     | MPI_THREAD_MULTIPLE \<Rightarrow> ''MPI_THREAD_MULTIPLE''
     | Other_Level i \<Rightarrow> ''UNKNOWN'')"

definition checkThreadSupport :: "thread_level \<Rightarrow> bool" where
  "checkThreadSupport provided \<longleftrightarrow> provided \<noteq> MPI_THREAD_MULTIPLE"

lemma checkThreadSupport_level: "checkThreadSupport l \<longleftrightarrow> MPI_THREAD_TO_STR l \<noteq> ''MPI_THREAD_MULTIPLE''"
  by (cases l) (simp_all add: checkThreadSupport_def MPI_THREAD_TO_STR_def)

section \<open>The transport over ADIOS2\<close>

text \<open>\<open>Send\<close> of one message with the whole command.\<close>

definition adios_sendCommand :: "nat \<Rightarrow> string \<Rightarrow> string \<Rightarrow> string \<Rightarrow> 's server \<Rightarrow> 's server" where
  "adios_sendCommand r cmd k v sv =
     sv\<lparr>sv_inbox := (sv_inbox sv)[r := sv_inbox sv ! r @ [serializeCmd [] cmd k v]]\<rparr>"

lemma adios_sendCommand_mpi: "adios_sendCommand = sendCommand"
  by (intro ext) (simp add: adios_sendCommand_def sendCommand_def)

text \<open>The serving side receives from one rank after the other, and waits at the first without a message.\<close>

fun adios_receive :: "nat list \<Rightarrow> 's server \<Rightarrow> (string list \<times> 's server) outcome" where
  "adios_receive [] sv = Returns ([], sv)"
| "adios_receive (r # rs) sv = (case sv_inbox sv ! r of
       [] \<Rightarrow> Blocks
     | b # bs \<Rightarrow> bind_outcome (adios_receive rs (sv\<lparr>sv_inbox := (sv_inbox sv)[r := bs]\<rparr>)) (\<lambda>(bufs, sv').
         Returns (b # bufs, sv')))"

definition adios_recvToBuffer :: "'s server \<Rightarrow> (string list \<times> 's server) outcome" where
  "adios_recvToBuffer sv = adios_receive (clients sv) sv"

text \<open>
  \<open>Recv\<close> into a buffer: a message that does not fit is an error of MPI (\<open>MPI_ERR_TRUNCATE\<close>), which ADIOS2
  throws.
\<close>

definition comm_recv :: "nat \<Rightarrow> nat \<Rightarrow> 's server \<Rightarrow> (string \<times> 's server) outcome" where
  "comm_recv r room sv = (case take_message r (sv_outbox sv) of
       None \<Rightarrow> Blocks
     | Some (m, ms) \<Rightarrow> if room < length m then Throws ''MPI_ERR_TRUNCATE'' else Returns (m, sv\<lparr>sv_outbox := ms\<rparr>))"

text \<open>
  An \<open>int\<close> from four bytes, the lowest first; the bytes of a buffer that no message wrote are \<open>None\<close>, and
  what the code computes from them is undefined, as is an array of no or a negative number of elements.
\<close>

definition int_at :: "char option list \<Rightarrow> nat \<Rightarrow> int option" where
  "int_at buf i = (case take 4 (drop (4 * i) buf) of
       [Some a, Some b, Some c, Some d] \<Rightarrow>
         Some (let n = of_char a + 2 ^ 8 * of_char b + 2 ^ 16 * of_char c + 2 ^ 24 * of_char d
           in if n < 2 ^ 31 then n else n - 2 ^ 32)
     | _ \<Rightarrow> None)"

definition written :: "nat \<Rightarrow> string \<Rightarrow> char option list \<Rightarrow> char option list" where
  "written room m buf = map Some m @ drop (length m) buf"

definition array_size :: "int option \<Rightarrow> nat outcome" where
  "array_size n = (case n of None \<Rightarrow> Undefined | Some i \<Rightarrow> if 0 < i then Returns (nat i) else Undefined)"

text \<open>A string from the first bytes of a buffer.\<close>

definition assign_from :: "char option list \<Rightarrow> nat \<Rightarrow> string outcome" where
  "assign_from buf n = (if n \<le> length buf \<and> list_all (\<lambda>c. c \<noteq> None) (take n buf) then Returns (map the (take n buf)) else Undefined)"

text \<open>A message into the buffer of the command, which the receiver says to have \<open>room\<close> bytes.\<close>

definition recv_into :: "nat \<Rightarrow> nat \<Rightarrow> char option list \<Rightarrow> 's server \<Rightarrow> (char option list \<times> 's server) outcome" where
  "recv_into r room buf sv = bind_outcome (comm_recv r room sv) (\<lambda>(m, sv').
     if length buf < length m then Undefined else Returns (written room m buf, sv'))"

definition adios_recvCommand :: "nat \<Rightarrow> 's server \<Rightarrow> ((string \<times> string \<times> string) \<times> 's server) outcome" where
  "adios_recvCommand r sv = bind_outcome (recv_into r 12 (replicate 12 None) sv) (\<lambda>(sizes, sv1).
     bind_outcome (array_size (int_at sizes 0)) (\<lambda>n0.
     bind_outcome (array_size (int_at sizes 1)) (\<lambda>n1.
     bind_outcome (array_size (int_at sizes 2)) (\<lambda>n2.
     let cmdBuffer = replicate n0 None; keyBuffer = replicate n1 None; valBuffer = replicate n2 None in
     bind_outcome (recv_into r n0 cmdBuffer sv1) (\<lambda>(cmdBuffer1, sv2).
     bind_outcome (recv_into r n1 cmdBuffer1 sv2) (\<lambda>(cmdBuffer2, sv3).
     bind_outcome (recv_into r n2 cmdBuffer2 sv3) (\<lambda>(cmdBuffer3, sv4).
     bind_outcome (assign_from cmdBuffer3 n0) (\<lambda>cmd.
     bind_outcome (assign_from keyBuffer n1) (\<lambda>k.
     bind_outcome (assign_from valBuffer n2) (\<lambda>v.
       Returns ((cmd, k, v), sv4)))))))))))"

section \<open>The two transports compared\<close>

lemma adios_receive_spec:
  assumes "distinct rs" and "\<forall>r \<in> set rs. r < length (sv_inbox sv)"
  shows "adios_receive rs sv = (if list_ex (\<lambda>r. sv_inbox sv ! r = []) rs then Blocks
    else Returns (map (\<lambda>r. hd (sv_inbox sv ! r)) rs,
      sv\<lparr>sv_inbox := map (\<lambda>r. if r \<in> set rs then tl (sv_inbox sv ! r) else sv_inbox sv ! r) [0..<length (sv_inbox sv)]\<rparr>))"
  using assms
proof (induction rs arbitrary: sv)
  case Nil
  have "map ((!) (sv_inbox sv)) [0..<length (sv_inbox sv)] = sv_inbox sv" by (rule map_nth)
  then show ?case by simp
next
  case (Cons r rs)
  show ?case
  proof (cases "sv_inbox sv ! r")
    case (Cons b bs)
    let ?sv = "sv\<lparr>sv_inbox := (sv_inbox sv)[r := bs]\<rparr>"
    have same: "sv_inbox ?sv ! q = sv_inbox sv ! q" if "q \<in> set rs" for q
      using that Cons.prems(1) by (cases "q = r") simp_all
    have ex: "list_ex (\<lambda>q. sv_inbox ?sv ! q = []) rs = list_ex (\<lambda>q. sv_inbox sv ! q = []) rs"
      using same by (auto simp: list_ex_iff)
    have hds: "map (\<lambda>q. hd (sv_inbox ?sv ! q)) rs = map (\<lambda>q. hd (sv_inbox sv ! q)) rs" using same by simp
    have ins: "map (\<lambda>q. if q \<in> set rs then tl (sv_inbox ?sv ! q) else sv_inbox ?sv ! q) [0..<length (sv_inbox ?sv)]
      = map (\<lambda>q. if q \<in> set (r # rs) then tl (sv_inbox sv ! q) else sv_inbox sv ! q) [0..<length (sv_inbox sv)]"
      using Cons.prems Cons by (auto simp: nth_list_update)
    have "\<forall>q \<in> set rs. q < length (sv_inbox ?sv)" using Cons.prems(2) by simp
    from Cons.IH [OF _ this] Cons.prems(1) show ?thesis
      unfolding ex hds ins by (simp add: Cons)
  qed simp
qed

text \<open>The serving sides are the same function.\<close>

lemma adios_recvToBuffer_mpi:
  assumes "sv_size sv = length (sv_inbox sv)"
  shows "adios_recvToBuffer sv = recvToBuffer sv"
proof -
  have c: "r \<in> set (clients sv) \<longleftrightarrow> r < length (sv_inbox sv) \<and> r \<noteq> sv_rank sv" for r using assms by (auto simp: clients_def)
  then have "map (\<lambda>r. if r \<in> set (clients sv) then tl (sv_inbox sv ! r) else sv_inbox sv ! r) [0..<length (sv_inbox sv)]
    = map (\<lambda>r. if r \<noteq> sv_rank sv then tl (sv_inbox sv ! r) else sv_inbox sv ! r) [0..<length (sv_inbox sv)]" by auto
  with adios_receive_spec [OF distinct_clients, of sv sv] c show ?thesis
    by (simp only: adios_recvToBuffer_def recvToBuffer_def) auto
qed

lemma recv_into_Returns:
  "recv_into r room buf sv = Returns (buf', sv') \<Longrightarrow> \<exists>m ms. take_message r (sv_outbox sv) = Some (m, ms) \<and> length m \<le> room
    \<and> length m \<le> length buf \<and> buf' = written room m buf \<and> sv' = sv\<lparr>sv_outbox := ms\<rparr>"
  by (auto simp: recv_into_def comm_recv_def bind_outcome_Returns_iff split: option.splits if_splits)

lemma assign_from_unwritten: "0 < n \<Longrightarrow> assign_from (replicate n None) n = Undefined"
  by (simp add: assign_from_def list_all_iff)

lemma array_size_Returns: "array_size i = Returns n \<Longrightarrow> 0 < n"
  by (auto simp: array_size_def split: option.splits if_splits)

text \<open>A reply of the server that is longer than three numbers throws.\<close>

lemma adios_reply_truncated:
  assumes "take_message r (sv_outbox sv) = Some (m, ms)" and "12 < length m"
  shows "adios_recvCommand r sv = Throws ''MPI_ERR_TRUNCATE''"
  using assms by (simp add: adios_recvCommand_def recv_into_def comm_recv_def)

lemma adios_recvCommand_never: "adios_recvCommand r sv \<noteq> Returns x"
proof
  assume "adios_recvCommand r sv = Returns x"
  then obtain i n y where "array_size i = Returns n" "assign_from (replicate n None) n = Returns y"
    by (auto simp: adios_recvCommand_def bind_outcome_Returns_iff Let_def)
  with assign_from_unwritten [OF array_size_Returns] show False by fastforce
qed

section \<open>Properties\<close>


end
