(* ===== verification/Client_Class.thy ===== *)
theory Client_Class
  imports Client_Adios
begin

text \<open>
  The interface \<open>LSMIOClient\<close> that the manager calls (the virtual functions of \<open>client.hpp\<close>) and its two
  implementations. The locale \<open>command_transport\<close> is what the serving side needs of an implementation,
  \<open>reply_transport\<close> what a rank that waits for a reply needs besides: MPI gives both, ADIOS2 the first only.
\<close>

section \<open>The interface\<close>

text \<open>The barrier of the interface is the one of \<open>Group_Life\<close>.\<close>

record 's client_class =
  cc_recvToBuffer :: "'s server \<Rightarrow> (string list \<times> 's server) outcome"
  cc_sendCommand :: "nat \<Rightarrow> string \<Rightarrow> string \<Rightarrow> string \<Rightarrow> 's server \<Rightarrow> 's server"
  cc_recvCommand :: "nat \<Rightarrow> 's server \<Rightarrow> ((string \<times> string \<times> string) \<times> 's server) outcome"

definition mpi_class :: "'s client_class" where
  "mpi_class = \<lparr>cc_recvToBuffer = recvToBuffer, cc_sendCommand = sendCommand, cc_recvCommand = recvCommand\<rparr>"

definition adios_class :: "'s client_class" where
  "adios_class = \<lparr>cc_recvToBuffer = adios_recvToBuffer, cc_sendCommand = adios_sendCommand, cc_recvCommand = adios_recvCommand\<rparr>"

text \<open>
  The exchange of one command with a reply in a group of two: the client sends, the loop of the server takes
  the message and answers it, the client receives.
\<close>

definition class_turn :: "'s client_class \<Rightarrow> 's callback \<Rightarrow> 's server \<Rightarrow> 's server outcome" where
  "class_turn C func sv = bind_outcome (cc_recvToBuffer C sv) (\<lambda>(bufs, sv1). process_round func (clients sv) bufs sv1)"

definition class_rpc ::
  "'s client_class \<Rightarrow> 's callback \<Rightarrow> nat \<Rightarrow> string \<Rightarrow> string \<Rightarrow> string \<Rightarrow> 's server
    \<Rightarrow> ((string \<times> string \<times> string) \<times> 's server) outcome" where
  "class_rpc C func r cmd k v sv =
     bind_outcome (class_turn C func (cc_sendCommand C r cmd k v sv)) (\<lambda>sv1. cc_recvCommand C r sv1)"

section \<open>The contracts\<close>

locale command_transport =
  fixes C :: "'s client_class"
  assumes sends: "cc_sendCommand C r cmd k v sv =
      sv\<lparr>sv_inbox := (sv_inbox sv)[r := sv_inbox sv ! r @ [serializeCmd [] cmd k v]]\<rparr>"
    and gathers: "sv_size sv = length (sv_inbox sv) \<Longrightarrow> \<forall>r \<in> set (clients sv). sv_inbox sv ! r \<noteq> [] \<Longrightarrow>
      cc_recvToBuffer C sv = Returns (map (\<lambda>r. hd (sv_inbox sv ! r)) (clients sv),
        sv\<lparr>sv_inbox := map (\<lambda>r. if r \<noteq> sv_rank sv then tl (sv_inbox sv ! r) else sv_inbox sv ! r)
          [0..<length (sv_inbox sv)]\<rparr>)"
    and waits: "sv_size sv = length (sv_inbox sv) \<Longrightarrow> r \<in> set (clients sv) \<Longrightarrow> sv_inbox sv ! r = [] \<Longrightarrow>
      cc_recvToBuffer C sv = Blocks"
begin

text \<open>Commands of all clients, one each: the server gets them in the order of the ranks and nothing is left.\<close>

definition send_one :: "(nat \<Rightarrow> command) \<Rightarrow> nat \<Rightarrow> 's server \<Rightarrow> 's server" where
  "send_one f r sv = (case f r of (cmd, k, v) \<Rightarrow> cc_sendCommand C r cmd k v sv)"

definition message_of :: "(nat \<Rightarrow> command) \<Rightarrow> nat \<Rightarrow> string" where
  "message_of f r = (case f r of (cmd, k, v) \<Rightarrow> serializeCmd [] cmd k v)"

lemma send_one_inbox: "send_one f r sv = sv\<lparr>sv_inbox := (sv_inbox sv)[r := sv_inbox sv ! r @ [message_of f r]]\<rparr>"
  by (simp add: send_one_def message_of_def sends split: prod.split)

lemma send_all_inbox:
  "distinct rs \<Longrightarrow> \<forall>r \<in> set rs. r < length (sv_inbox sv) \<Longrightarrow> fold (send_one f) rs sv = sv\<lparr>sv_inbox :=
    map (\<lambda>r. if r \<in> set rs then sv_inbox sv ! r @ [message_of f r] else sv_inbox sv ! r) [0..<length (sv_inbox sv)]\<rparr>"
proof (induction rs arbitrary: sv)
  case Nil
  have "map ((!) (sv_inbox sv)) [0..<length (sv_inbox sv)] = sv_inbox sv" by (rule map_nth)
  then show ?case by simp
next
  case (Cons r rs)
  let ?sv = "send_one f r sv"
  have eq: "map (\<lambda>q. if q \<in> set rs then sv_inbox ?sv ! q @ [message_of f q] else sv_inbox ?sv ! q) [0..<length (sv_inbox sv)]
    = map (\<lambda>q. if q \<in> set (r # rs) then sv_inbox sv ! q @ [message_of f q] else sv_inbox sv ! q) [0..<length (sv_inbox sv)]"
    using Cons.prems by (intro map_cong) (auto simp: send_one_inbox nth_list_update)
  have len: "length (sv_inbox ?sv) = length (sv_inbox sv)" by (simp add: send_one_inbox)
  then have "fold (send_one f) rs ?sv = ?sv\<lparr>sv_inbox :=
      map (\<lambda>q. if q \<in> set rs then sv_inbox ?sv ! q @ [message_of f q] else sv_inbox ?sv ! q) [0..<length (sv_inbox ?sv)]\<rparr>"
    using Cons.prems by (intro Cons.IH) simp_all
  then have "fold (send_one f) rs ?sv = sv\<lparr>sv_inbox :=
      map (\<lambda>q. if q \<in> set (r # rs) then sv_inbox sv ! q @ [message_of f q] else sv_inbox sv ! q) [0..<length (sv_inbox sv)]\<rparr>"
    unfolding len eq by (simp add: send_one_inbox)
  then show ?case by simp
qed

lemma sent_round:
  assumes size: "sv_size sv = length (sv_inbox sv)" and idle: "\<forall>r < sv_size sv. sv_inbox sv ! r = []"
  shows "cc_recvToBuffer C (fold (send_one f) (clients sv) sv) = Returns (map (message_of f) (clients sv), sv)"
proof -
  let ?in = "map (\<lambda>r. if r \<in> set (clients sv) then sv_inbox sv ! r @ [message_of f r] else sv_inbox sv ! r) [0..<length (sv_inbox sv)]"
  let ?sv = "sv\<lparr>sv_inbox := ?in\<rparr>"
  have mem: "r \<in> set (clients sv) \<longleftrightarrow> r < length (sv_inbox sv) \<and> r \<noteq> sv_rank sv" for r using size by (auto simp: clients_def)
  have s: "fold (send_one f) (clients sv) sv = ?sv" using mem distinct_clients by (intro send_all_inbox) auto
  have c: "clients ?sv = clients sv" by (simp add: clients_def)
  have fields: "sv_inbox ?sv = ?in" "sv_rank ?sv = sv_rank sv" "?sv\<lparr>sv_inbox := x\<rparr> = sv\<lparr>sv_inbox := x\<rparr>" for x by simp_all
  have at: "?in ! r = (if r \<noteq> sv_rank sv then [message_of f r] else [])" if "r < length (sv_inbox sv)" for r
    using that idle size by (simp add: mem)
  have ins: "map (\<lambda>r. if r \<noteq> sv_rank sv then tl (?in ! r) else ?in ! r) [0..<length ?in] = sv_inbox sv"
    by (rule nth_equalityI) (use idle size at in \<open>simp_all add: at\<close>)
  have hds: "map (\<lambda>r. hd (?in ! r)) (clients sv) = map (message_of f) (clients sv)"
    using mem idle size by (intro map_cong) auto
  have "\<forall>r \<in> set (clients ?sv). sv_inbox ?sv ! r \<noteq> []" unfolding c using mem at by auto
  moreover have "sv_size ?sv = length (sv_inbox ?sv)" using size by simp
  ultimately have "cc_recvToBuffer C ?sv = Returns (map (\<lambda>r. hd (sv_inbox ?sv ! r)) (clients ?sv),
      ?sv\<lparr>sv_inbox := map (\<lambda>r. if r \<noteq> sv_rank ?sv then tl (sv_inbox ?sv ! r) else sv_inbox ?sv ! r) [0..<length (sv_inbox ?sv)]\<rparr>)"
    by (intro gathers)
  also have "\<dots> = Returns (map (\<lambda>r. hd (?in ! r)) (clients sv),
      sv\<lparr>sv_inbox := map (\<lambda>r. if r \<noteq> sv_rank sv then tl (?in ! r) else ?in ! r) [0..<length ?in]\<rparr>)" unfolding c fields by (rule refl)
  also have "\<dots> = Returns (map (message_of f) (clients sv), sv)" unfolding ins hds by simp
  finally show ?thesis unfolding s .
qed

end

locale reply_transport = command_transport +
  assumes receives: "take_message r (sv_outbox sv) = Some (serializeCmd [] cmd k v, ms) \<Longrightarrow> plain cmd \<Longrightarrow> plain k \<Longrightarrow>
    cc_recvCommand C r sv = Returns ((cmd, k, v), sv\<lparr>sv_outbox := ms\<rparr>)"
begin

lemma rpc_exchange:
  assumes cmd: "plain cmd" "plain k" "cmd \<noteq> EOL_COMMAND" "reply_command cmd = Some c"
  shows "class_rpc C func 1 cmd k v (server_new 0 2 [[], []] s) =
    bind_outcome (func 1 cmd k v s) (\<lambda>(ret, s'). Returns ((c, k, ret), server_new 0 2 [[], []] s'))"
proof -
  let ?sv = "server_new 0 2 [[], []] s"
  have sent: "cc_sendCommand C 1 cmd k v ?sv = ?sv\<lparr>sv_inbox := [[], [serializeCmd [] cmd k v]]\<rparr>"
    by (simp add: sends server_new_def)
  have c1: "clients (?sv\<lparr>sv_inbox := x\<rparr>) = [1]" for x by (simp add: clients_def server_new_def upt_rec)
  have got: "cc_recvToBuffer C (?sv\<lparr>sv_inbox := [[], [serializeCmd [] cmd k v]]\<rparr>) = Returns ([serializeCmd [] cmd k v], ?sv)"
    using gathers [of "?sv\<lparr>sv_inbox := [[], [serializeCmd [] cmd k v]]\<rparr>"] unfolding c1
    by (simp add: server_new_def upt_rec)
  have "class_turn C func (cc_sendCommand C 1 cmd k v ?sv) = process_message func 1 (serializeCmd [] cmd k v) ?sv"
    by (simp add: class_turn_def sent got c1 del: One_nat_def)
  also have "\<dots> = bind_outcome (func 1 cmd k v s) (\<lambda>(ret, s').
      Returns (?sv\<lparr>sv_lm := s', sv_outbox := [(1, serializeCmd [] c k ret)]\<rparr>))"
    using cmd by (simp add: process_message_def deSerialize_serialize server_new_def)
  finally have turn: "class_turn C func (cc_sendCommand C 1 cmd k v ?sv) = \<dots>" .
  have "cc_recvCommand C 1 (?sv\<lparr>sv_lm := s', sv_outbox := [(1, serializeCmd [] c k ret)]\<rparr>) =
      Returns ((c, k, ret), server_new 0 2 [[], []] s')" for s' ret
    using receives [of 1 "?sv\<lparr>sv_lm := s', sv_outbox := [(1, serializeCmd [] c k ret)]\<rparr>" c k ret "[]"]
      plain_reply [OF cmd(4)] cmd(2) by (simp add: server_new_def)
  then show ?thesis by (cases "func 1 cmd k v s") (auto simp: class_rpc_def turn simp del: One_nat_def)
qed

end

section \<open>The implementations\<close>

lemma recvToBuffer_laws:
  "\<forall>r \<in> set (clients sv). sv_inbox sv ! r \<noteq> [] \<Longrightarrow> recvToBuffer sv = Returns (map (\<lambda>r. hd (sv_inbox sv ! r)) (clients sv),
    sv\<lparr>sv_inbox := map (\<lambda>r. if r \<noteq> sv_rank sv then tl (sv_inbox sv ! r) else sv_inbox sv ! r) [0..<length (sv_inbox sv)]\<rparr>)"
  "r \<in> set (clients sv) \<Longrightarrow> sv_inbox sv ! r = [] \<Longrightarrow> recvToBuffer sv = Blocks"
  by (auto simp: recvToBuffer_def list_ex_iff)

interpretation mpi: reply_transport mpi_class
  by unfold_locales (simp_all add: mpi_class_def sendCommand_def recvToBuffer_laws recvCommand_def deSerialize_serialize)

interpretation adios: command_transport adios_class
  by unfold_locales (simp_all add: adios_class_def adios_sendCommand_mpi sendCommand_def adios_recvToBuffer_mpi recvToBuffer_laws)

text \<open>
  The manager's exchange, which \<open>Manager\<close> takes as one step, is that of the two sides over MPI. Over ADIOS2 it
  never gives a result, so that implementation does not keep the second contract.
\<close>

lemma mpi_rpc:
  assumes cmd: "plain cmd" "plain k" "cmd \<noteq> EOL_COMMAND" "reply_command cmd = Some c"
  shows "bind_outcome (class_rpc mpi_class (callbackForCollectiveIO ops cfg) 1 cmd k v (server_new 0 2 [[], []] agg)) (\<lambda>(x, sv). Returns (x, sv_lm sv))
    = rpc ops cfg 1 cmd k v agg"
  unfolding mpi.rpc_exchange [OF cmd] rpc_plain [OF cmd(1,2,4) plain_reply [OF cmd(4)]]
  by (cases "callbackForCollectiveIO ops cfg 1 cmd k v agg") (auto simp: server_new_def split: prod.split)

lemma adios_rpc_never: "class_rpc adios_class func r cmd k v sv \<noteq> Returns x"
  by (auto simp: class_rpc_def adios_class_def bind_outcome_Returns_iff adios_recvCommand_never)

lemma adios_no_replies: "\<not> reply_transport (adios_class :: 's client_class)"
proof
  assume "reply_transport (adios_class :: 's client_class)"
  from reply_transport.receives [OF this, of 0 "\<lparr>sv_rank = 0, sv_size = 1, sv_eol = [], sv_inbox = [],
      sv_outbox = [(0, serializeCmd [] [] [] [])], sv_lm = undefined\<rparr>" "[]" "[]" "[]" "[]"]
  show False by (simp add: adios_class_def adios_recvCommand_never)
qed

end
