(* ===== verification/Manager_Life.thy ===== *)
theory Manager_Life
  imports Rank_View
begin

text \<open>
  The public members of \<open>LSMIOManager\<close> (\<open>manager.hpp\<close>) as calls, and any sequence of them on a manager
  with a store of its own: it answers as a map with counters does.
\<close>

section \<open>The calls\<close>

text \<open>
  The third argument of \<open>C_put_chars\<close> is the length, those of \<open>C_put_block\<close> are size and count; what the
  caller's result holds before a lookup is an argument of the lookup.
\<close>

datatype manager_call =
    C_getDbPath
  | C_get key string
  | C_put key val bool
  | C_put_default key val
  | C_put_chars key string nat
  | C_put_block key string u64 u64
  | C_del key bool
  | C_del_default key
  | C_metaGet key string
  | C_metaGetAll "(string \<times> string) list" string
  | C_metaPut key val bool
  | C_readBarrier
  | C_writeBarrier
  | C_resetCounters
  | C_getCounters

datatype manager_reply = R_path string | R_value bool string | R_values bool "(string \<times> string) list" | R_done bool
  | R_counters "u64 \<times> u64 \<times> u64 \<times> u64" | R_nothing

definition reply_with :: "('a \<Rightarrow> manager_reply) \<Rightarrow> ('a \<times> 's peers) outcome \<Rightarrow> (manager_reply \<times> 's peers) outcome" where
  "reply_with f x = bind_outcome x (\<lambda>(a, p). Returns (f a, p))"

lemma reply_with_Returns [simp]: "reply_with f (Returns (a, p)) = Returns (f a, p)"
  by (simp add: reply_with_def)

fun manager_do :: "'s store_ops \<Rightarrow> lsmio_config \<Rightarrow> manager_call \<Rightarrow> 's peers \<Rightarrow> (manager_reply \<times> 's peers) outcome" where
  "manager_do ops cfg C_getDbPath p = Returns (R_path (getDbPath (fst p)), p)"
| "manager_do ops cfg (C_get k v0) p = reply_with (\<lambda>(b, v). R_value b v) (mg_get ops cfg k v0 p)"
| "manager_do ops cfg (C_put k v flush) p = reply_with R_done (mg_put ops cfg k v flush p)"
| "manager_do ops cfg (C_put_default k v) p = reply_with R_done (mg_put_default ops cfg k v p)"
| "manager_do ops cfg (C_put_chars k mem n) p = reply_with R_done (mg_put_chars ops cfg k mem n p)"
| "manager_do ops cfg (C_put_block k mem esize nelem) p = reply_with R_done (mg_put_block ops cfg k mem esize nelem p)"
| "manager_do ops cfg (C_del k flush) p = reply_with R_done (mg_del ops cfg k flush p)"
| "manager_do ops cfg (C_del_default k) p = reply_with R_done (mg_del_default ops cfg k p)"
| "manager_do ops cfg (C_metaGet k v0) p = reply_with (\<lambda>(b, v). R_value b v) (mg_metaGet ops cfg k v0 p)"
| "manager_do ops cfg (C_metaGetAll vs inFix) p = reply_with (\<lambda>(b, xs). R_values b xs) (mg_metaGetAll ops cfg inFix vs p)"
| "manager_do ops cfg (C_metaPut k v flush) p = reply_with R_done (mg_metaPut ops cfg k v flush p)"
| "manager_do ops cfg C_readBarrier p = reply_with R_done (mg_readBarrier ops cfg p)"
| "manager_do ops cfg C_writeBarrier p = reply_with R_done (mg_writeBarrier ops cfg p)"
| "manager_do ops cfg C_resetCounters p = Returns (R_nothing, (resetCounters (fst p), snd p))"
| "manager_do ops cfg C_getCounters p = Returns (R_counters (getCounters (fst p)), p)"

fun manager_run ::
  "'s store_ops \<Rightarrow> lsmio_config \<Rightarrow> manager_call list \<Rightarrow> 's peers \<Rightarrow> (manager_reply list \<times> 's peers) outcome" where
  "manager_run ops cfg [] p = Returns ([], p)"
| "manager_run ops cfg (c # cs) p = bind_outcome (manager_do ops cfg c p) (\<lambda>(r, p').
     bind_outcome (manager_run ops cfg cs p') (\<lambda>(rs, p''). Returns (r # rs, p'')))"

section \<open>A map with counters\<close>

text \<open>The counters are those of \<open>getCounters\<close>: bytes written and read, and the numbers of writes and reads.\<close>

record counted_map =
  cm_path :: string
  cm_map :: "key \<rightharpoonup> val"
  cm_counters :: "u64 \<times> u64 \<times> u64 \<times> u64"

definition cm_wrote :: "nat \<Rightarrow> counted_map \<Rightarrow> counted_map" where
  "cm_wrote n w = (case cm_counters w of (wb, rb, wo, ro) \<Rightarrow> w\<lparr>cm_counters := (wb + word_of_nat n, rb, wo + 1, ro)\<rparr>)"

definition cm_read :: "nat \<Rightarrow> counted_map \<Rightarrow> counted_map" where
  "cm_read n w = (case cm_counters w of (wb, rb, wo, ro) \<Rightarrow> w\<lparr>cm_counters := (wb, rb + word_of_nat n, wo, ro + 1)\<rparr>)"

definition cm_lookup :: "key \<Rightarrow> string \<Rightarrow> counted_map \<Rightarrow> manager_reply \<times> counted_map" where
  "cm_lookup k v0 w = (let v = found_value v0 (cm_map w k) in (R_value (cm_map w k \<noteq> None) v, cm_read (length v) w))"

definition cm_put :: "key \<Rightarrow> val \<Rightarrow> counted_map \<Rightarrow> manager_reply \<times> counted_map" where
  "cm_put k v w = (R_done True, (cm_wrote (length v) w)\<lparr>cm_map := (cm_map w)(k \<mapsto> v)\<rparr>)"

definition cm_del :: "key \<Rightarrow> counted_map \<Rightarrow> manager_reply \<times> counted_map" where
  "cm_del k w = (R_done True, w\<lparr>cm_map := (cm_map w)(k := None)\<rparr>)"

text \<open>Metadata is kept under its prefix in the same map. A listing is outside the calls below.\<close>

fun cm_do :: "manager_call \<Rightarrow> counted_map \<Rightarrow> manager_reply \<times> counted_map" where
  "cm_do C_getDbPath w = (R_path (cm_path w), w)"
| "cm_do (C_get k v0) w = cm_lookup k v0 w"
| "cm_do (C_put k v flush) w = cm_put k v w"
| "cm_do (C_put_default k v) w = cm_put k v w"
| "cm_do (C_put_chars k mem n) w = cm_put k (take n mem) w"
| "cm_do (C_put_block k mem esize nelem) w = cm_put k (take (unat (esize * nelem)) mem) w"
| "cm_do (C_del k flush) w = cm_del k w"
| "cm_do (C_del_default k) w = cm_del k w"
| "cm_do (C_metaGet k v0) w = cm_lookup (meta_prefix @ k) v0 w"
| "cm_do (C_metaGetAll vs inFix) w = (R_values False vs, w)"
| "cm_do (C_metaPut k v flush) w = cm_put (meta_prefix @ k) v w"
| "cm_do C_readBarrier w = (R_done True, w)"
| "cm_do C_writeBarrier w = (R_done True, w)"
| "cm_do C_resetCounters w = (R_nothing, w\<lparr>cm_counters := (0, 0, 0, 0)\<rparr>)"
| "cm_do C_getCounters w = (R_counters (cm_counters w), w)"

fun cm_run :: "manager_call list \<Rightarrow> counted_map \<Rightarrow> manager_reply list \<times> counted_map" where
  "cm_run [] w = ([], w)"
| "cm_run (c # cs) w = (case cm_do c w of (r, w') \<Rightarrow> case cm_run cs w' of (rs, w'') \<Rightarrow> (r # rs, w''))"

text \<open>Calls with the memory they name, and their mutations.\<close>

fun proper_call :: "manager_call \<Rightarrow> bool" where
  "proper_call (C_put_chars k mem n) \<longleftrightarrow> n \<le> length mem"
| "proper_call (C_put_block k mem esize nelem) \<longleftrightarrow> unat (esize * nelem) \<le> length mem"
| "proper_call (C_metaGetAll vs inFix) \<longleftrightarrow> False"
| "proper_call _ \<longleftrightarrow> True"

fun call_muts :: "manager_call \<Rightarrow> mutation list" where
  "call_muts (C_put k v flush) = [(Put, k, v)]"
| "call_muts (C_put_default k v) = [(Put, k, v)]"
| "call_muts (C_put_chars k mem n) = [(Put, k, take n mem)]"
| "call_muts (C_put_block k mem esize nelem) = [(Put, k, take (unat (esize * nelem)) mem)]"
| "call_muts (C_del k flush) = [(Del, k, [])]"
| "call_muts (C_del_default k) = [(Del, k, [])]"
| "call_muts (C_metaPut k v flush) = [(Put, meta_prefix @ k, v)]"
| "call_muts _ = []"

section \<open>The simulation\<close>

definition represents :: "(mutation list \<Rightarrow> 's \<Rightarrow> bool) \<Rightarrow> counted_map \<Rightarrow> mutation list \<Rightarrow> 's peers \<Rightarrow> bool" where
  "represents at w h p \<longleftrightarrow> alone (fst p) \<and> (\<exists>s. mg_store (fst p) = Some s \<and> at h s) \<and> cm_map w = muts_map h
     \<and> cm_path w = mg_dbPath (fst p) \<and> cm_counters w = getCounters (fst p)"

lemmas represents_defs = represents_def getCounters_def count_read_def count_write_def resetCounters_def

text \<open>What the local branches of \<open>manager.cpp\<close> do on a manager with a store of its own.\<close>

lemma alone_open: "alone m \<Longrightarrow> isOpenLocal m"
  by (simp add: alone_def)

lemma local_read_step:
  assumes at: "represents at w h (m, agg)" and look: "\<And>s. at h s \<Longrightarrow> look s = Returns (muts_map h k)"
  shows "\<exists>m'. local_read look v0 m = Returns ((cm_map w k \<noteq> None, found_value v0 (cm_map w k)), m')
    \<and> represents at (cm_read (length (found_value v0 (cm_map w k))) w) h (m', agg)"
proof -
  from at obtain s where s: "mg_store m = Some s" "at h s" and map: "cm_map w = muts_map h" by (auto simp: represents_def)
  show ?thesis using at s map by (auto simp: local_read_def look [OF s(2)] represents_defs cm_read_def alone_def role_defs)
qed

lemma local_update_step:
  assumes at: "represents at w h (m, agg)" and act: "\<And>s. at h s \<Longrightarrow> \<exists>s'. act s = Returns (True, s') \<and> at h' s'"
  shows "\<exists>m'. local_update act m = Returns (True, m') \<and> represents at (w\<lparr>cm_map := muts_map h'\<rparr>) h' (m', agg)"
proof -
  from at obtain s where s: "mg_store m = Some s" "at h s" by (auto simp: represents_def)
  from act [OF s(2)] obtain s' where "act s = Returns (True, s')" "at h' s'" by blast
  with at s show ?thesis by (auto simp: local_update_def represents_defs)
qed

lemma count_write_step: "represents at w h (m, agg) \<Longrightarrow> represents at (cm_wrote n w) h (count_write n m, agg)"
  by (auto simp: represents_defs cm_wrote_def alone_def role_defs)

locale flag_stores =
  fixes ops :: "'s store_ops"
    and fits :: "mutation list \<Rightarrow> bool"
    and at :: "mutation list \<Rightarrow> 's \<Rightarrow> bool"
  assumes logged: "logged_store ops flush fits at"
begin

lemma update_mutation:
  assumes at: "represents at w h (m, agg)" and fit: "fits (h @ [(t, k, v)])"
  shows "\<exists>m'. local_update (op_batchMutation ops t k v flush) m = Returns (True, m')
    \<and> represents at (w\<lparr>cm_map := apply_mutation t k v (cm_map w)\<rparr>) (h @ [(t, k, v)]) (m', agg)"
proof -
  have "cm_map w = muts_map h" using at by (simp add: represents_def)
  with local_update_step [OF at, of "op_batchMutation ops t k v flush", OF logged_store.mutate [OF logged _ fit]]
  show ?thesis by simp
qed

lemma store_eta:
  "store_put ops k v flush = op_batchMutation ops Put k v flush" "store_del ops k flush = op_batchMutation ops Del k [] flush"
  "store_metaPut ops k v flush = op_batchMutation ops Put (meta_prefix @ k) v flush"
  "store_metaGet ops k = op_get ops (meta_prefix @ k)"
  by (simp_all add: fun_eq_iff store_put_def store_del_def store_metaPut_def store_metaGet_def)

lemma cm_wrote_map [simp]: "cm_map (cm_wrote n w) = cm_map w"
  by (simp add: cm_wrote_def split: prod.split)

lemma do_put:
  assumes at: "represents at w h p" and fit: "fits (h @ [(Put, k, v)])"
  shows "\<exists>p'. mg_put ops cfg k v flush p = Returns (True, p') \<and> represents at (snd (cm_put k v w)) (h @ [(Put, k, v)]) p'"
proof -
  obtain m agg where p: "p = (m, agg)" by (cases p)
  from at have m: "alone (count_write (length v) m)" by (simp add: p represents_def)
  from update_mutation [OF count_write_step [OF at [unfolded p], of "length v"] fit, of flush] show ?thesis
    using alone_open [OF m] alone_key [OF m] by (auto simp: p mg_put_def Let_def store_eta cm_put_def apply_mutation_def)
qed

lemma do_metaPut:
  assumes at: "represents at w h p" and fit: "fits (h @ [(Put, meta_prefix @ k, v)])"
  shows "\<exists>p'. mg_metaPut ops cfg k v flush p = Returns (True, p')
    \<and> represents at (snd (cm_put (meta_prefix @ k) v w)) (h @ [(Put, meta_prefix @ k, v)]) p'"
proof -
  obtain m agg where p: "p = (m, agg)" by (cases p)
  from at have m: "alone (count_write (length v) m)" by (simp add: p represents_def)
  from update_mutation [OF count_write_step [OF at [unfolded p], of "length v"] fit, of flush] show ?thesis
    using alone_open [OF m] alone_key [OF m] by (auto simp: p mg_metaPut_def Let_def store_eta cm_put_def apply_mutation_def)
qed

lemma do_del:
  assumes at: "represents at w h p" and fit: "fits (h @ [(Del, k, [])])"
  shows "\<exists>p'. mg_del ops cfg k flush p = Returns (True, p') \<and> represents at (snd (cm_del k w)) (h @ [(Del, k, [])]) p'"
proof -
  obtain m agg where p: "p = (m, agg)" by (cases p)
  from at have m: "alone m" by (simp add: p represents_def)
  from update_mutation [OF at [unfolded p] fit, of flush] show ?thesis
    using alone_open [OF m] alone_key [OF m] by (auto simp: p mg_del_def store_eta cm_del_def apply_mutation_def)
qed

lemma do_get:
  assumes at: "represents at w h p" and fit: "fits h"
  shows "\<exists>p'. mg_get ops cfg k v0 p = Returns ((cm_map w k \<noteq> None, found_value v0 (cm_map w k)), p')
    \<and> represents at (cm_read (length (found_value v0 (cm_map w k))) w) h p'"
proof -
  obtain m agg where p: "p = (m, agg)" by (cases p)
  from at have m: "alone m" by (simp add: p represents_def)
  from local_read_step [OF at [unfolded p], of "op_get ops k" k v0, OF logged_store.look [OF logged _ fit]] show ?thesis
    using alone_open [OF m] alone_key [OF m] by (auto simp: p mg_get_def)
qed

lemma do_metaGet:
  assumes at: "represents at w h p" and fit: "fits h"
  shows "\<exists>p'. reply_with (\<lambda>(b, v). R_value b v) (mg_metaGet ops cfg k v0 p) = Returns (fst (cm_lookup (meta_prefix @ k) v0 w), p')
    \<and> represents at (snd (cm_lookup (meta_prefix @ k) v0 w)) h p'"
proof -
  obtain m agg where p: "p = (m, agg)" by (cases p)
  from at have m: "alone m" by (simp add: p represents_def)
  from local_read_step [OF at [unfolded p], of "op_get ops (meta_prefix @ k)" "meta_prefix @ k" v0, OF logged_store.look [OF logged _ fit]] show ?thesis
    using alone_open [OF m] alone_key [OF m] by (auto simp: p mg_metaGet_def store_eta cm_lookup_def Let_def)
qed

lemma do_barriers:
  assumes at: "represents at w h p" and fit: "fits h"
  shows "\<exists>p'. mg_readBarrier ops cfg p = Returns (True, p') \<and> represents at w h p'"
    and "\<exists>p'. mg_writeBarrier ops cfg p = Returns (True, p') \<and> represents at w h p'"
proof -
  obtain m agg where p: "p = (m, agg)" by (cases p)
  from at have m: "alone m" "w\<lparr>cm_map := muts_map h\<rparr> = w" by (auto simp: p represents_def)
  from local_update_step [OF at [unfolded p], of "op_readBarrier ops", OF logged_store.read_settle [OF logged _ fit]]
  show "\<exists>p'. mg_readBarrier ops cfg p = Returns (True, p') \<and> represents at w h p'"
    using alone_open [OF m(1)] m(2) by (auto simp: p mg_readBarrier_def)
  from local_update_step [OF at [unfolded p], of "op_writeBarrier ops", OF logged_store.settle [OF logged _ fit]]
  show "\<exists>p'. mg_writeBarrier ops cfg p = Returns (True, p') \<and> represents at w h p'"
    using alone_open [OF m(1)] m(2) by (auto simp: p mg_writeBarrier_def)
qed

text \<open>Every call answers as the map, and the run of a list of calls does.\<close>

lemma put_reply [simp]: "fst (cm_put k v w) = R_done True" "fst (cm_del k w) = R_done True"
  by (simp_all add: cm_put_def cm_del_def)

lemma do_refines:
  assumes at: "represents at w h p" and c: "proper_call c" and fit: "fits (h @ call_muts c)"
  shows "\<exists>p'. manager_do ops cfg c p = Returns (fst (cm_do c w), p') \<and> represents at (snd (cm_do c w)) (h @ call_muts c) p'"
proof (cases c)
  case (C_get k v0)
  then show ?thesis using do_get [OF at, of cfg k v0] fit by (auto simp: cm_lookup_def Let_def)
next
  case (C_put k v flush)
  with fit do_put [OF at, of k v cfg flush] show ?thesis by auto
next
  case (C_put_default k v)
  with fit do_put [OF at, of k v cfg "cfg_alwaysFlush cfg"] show ?thesis by (auto simp: mg_put_default_def)
next
  case (C_put_chars k mem n)
  with fit c do_put [OF at, of k "take n mem" cfg "cfg_alwaysFlush cfg"] show ?thesis by (auto simp: mg_put_chars_def)
next
  case (C_put_block k mem esize nelem)
  with fit c do_put [OF at, of k "take (unat (esize * nelem)) mem" cfg "cfg_alwaysFlush cfg"] show ?thesis
    by (auto simp: mg_put_block_def)
next
  case (C_del k flush)
  with fit do_del [OF at, of k cfg flush] show ?thesis by auto
next
  case (C_del_default k)
  with fit do_del [OF at, of k cfg "cfg_alwaysFlush cfg"] show ?thesis by (auto simp: mg_del_default_def)
next
  case (C_metaPut k v flush)
  with fit do_metaPut [OF at, of k v cfg flush] show ?thesis by auto
next
  case C_resetCounters
  then show ?thesis using at by (auto simp: represents_defs alone_def role_defs)
qed (use fit c do_metaGet [OF at] do_barriers [OF at, of cfg] at in \<open>auto simp: represents_def getDbPath_def\<close>)

lemma run_refines:
  "represents at w h p \<Longrightarrow> \<forall>c \<in> set cs. proper_call c \<Longrightarrow> fits (h @ concat (map call_muts cs)) \<Longrightarrow>
    \<exists>p'. manager_run ops cfg cs p = Returns (fst (cm_run cs w), p')
      \<and> represents at (snd (cm_run cs w)) (h @ concat (map call_muts cs)) p'"
proof (induction cs arbitrary: w h p)
  case (Cons c cs)
  have fit: "fits ((h @ call_muts c) @ concat (map call_muts cs))" using Cons.prems(3) by simp
  from do_refines [OF Cons.prems(1) _ logged_store.fits_prefix [OF logged fit], of cfg] Cons.prems(2) obtain p1 where
    1: "manager_do ops cfg c p = Returns (fst (cm_do c w), p1)" "represents at (snd (cm_do c w)) (h @ call_muts c) p1" by auto
  from Cons.IH [OF 1(2) _ fit] Cons.prems(2) obtain p2 where
    "manager_run ops cfg cs p1 = Returns (fst (cm_run cs (snd (cm_do c w))), p2)"
    "represents at (snd (cm_run cs (snd (cm_do c w)))) ((h @ call_muts c) @ concat (map call_muts cs)) p2" by auto
  then show ?case using 1(1) by (auto split: prod.splits)
qed simp

end

text \<open>The native store keeps the contract within its limits, and RocksDB always.\<close>

interpretation native_calls: flag_stores "native_ops good_io" native_muts_fit "native_logged db" for db
  by (rule flag_stores.intro) (rule native_log.logged_store_axioms)

lemma rdb_calls:
  "kv_db_laws db repr \<Longrightarrow> flag_stores (rdb_ops db) (\<lambda>_. True) (store_at rdb_ok (rdb_content repr) (\<lambda>_. True))"
  by (rule flag_stores.intro) (rule rdb_logged)

interpretation rocksdb_calls: flag_stores "rdb_ops mem_db" "\<lambda>_. True" "store_at rdb_ok (rdb_content mem_repr) (\<lambda>_. True)"
  by (rule rdb_calls [OF mem_db_laws])

text \<open>Over RocksDB, for every library that keeps its documented contract, the same holds without any limit.\<close>

lemma rocksdb_manager_run:
  assumes laws: "kv_db_laws db repr" and at: "represents (store_at rdb_ok (rdb_content repr) (\<lambda>_. True)) w h p"
    and calls: "\<forall>c \<in> set cs. proper_call c"
  shows "\<exists>p'. manager_run (rdb_ops db) cfg cs p = Returns (fst (cm_run cs w), p')"
  using flag_stores.run_refines [OF rdb_calls [OF laws] at calls TrueI, of cfg] by blast

section \<open>Properties\<close>

abbreviation db_path :: "string \<Rightarrow> string \<Rightarrow> string" where
  "db_path dir name \<equiv> if dir = [] then name else dir @ ''/'' @ name"

definition new_map :: "string \<Rightarrow> counted_map" where
  "new_map path = \<lparr>cm_path = path, cm_map = Map.empty, cm_counters = (0, 0, 0, 0)\<rparr>"

lemma layout_represents:
  fixes m :: "'s manager"
  assumes env: "\<not> me_mpi env" "me_adios env = None"
    and m: "m = (manager_layout cfg env name dir ow)\<lparr>mg_has_client := b, mg_store := Some s\<rparr>" and s: "at [] s"
  shows "represents at (new_map (db_path dir name)) [] (m, agg)"
proof -
  let ?l = "manager_layout cfg env name dir ow :: 's manager"
  have "mg_dbPath ?l = (if dir = [] then name else dir @ ''/'' @ name)" "getCounters ?l = (0, 0, 0, 0)"
    by (simp_all add: manager_layout_def env getCounters_def)
  then show ?thesis using alone_layout [where 'a = 's, OF env, of cfg name dir ow] s
    by (cases "dir = []") (simp_all add: represents_def getCounters_def m new_map_def)
qed

lemma init_native_alone:
  assumes env: "\<not> me_mpi env" "me_adios env = None" and cfg: "cfg_storageType cfg = NativeDB" "int_settings cfg" "\<not> cfg_preAllocate cfg"
    and disk: "native_disk f" and new: "ow \<or> remove_all (db_path dir name) f = f"
  shows "\<exists>m. manager_init (make_native cfg mg f) cfg env name dir ow = Returns m \<and>
    represents (native_logged (db_path dir name)) (new_map (db_path dir name)) [] (m, agg)"
proof -
  let ?db = "db_path dir name"
  let ?l = "manager_layout cfg env name dir ow :: native_state manager"
  let ?s = "native_new cfg ?db ow mg f"
  let ?m = "?l\<lparr>mg_has_client := isOpenRemote ?l \<or> isServeLocal ?l, mg_store := Some ?s\<rparr>"
  have open_local: "isOpenLocal ?l" using alone_layout [OF env] by (rule alone_open)
  have db: "mg_dbPath ?l = ?db" by (simp add: manager_layout_def env)
  have same: "?s = native_new cfg ?db True mg f" using new by (auto simp: native_new_def)
  have at: "native_logged ?db [] ?s" unfolding same
    using native_fresh_at [of f 0 cfg ?db mg] disk cfg(2,3)
    by (simp add: native_logged_def native_disk_def int_settings_def prealloc_ok_def)
  have "manager_init (make_native cfg mg f) cfg env name dir ow = Returns ?m"
    using open_local cfg(1) env(2) by (simp add: manager_init_def Let_def db make_native_def)
  moreover have "represents (native_logged ?db) (new_map ?db) [] (?m, agg)" 
    using layout_represents [where at = "native_logged ?db" and m = ?m, OF env refl at] .
  ultimately show ?thesis by blast
qed


definition sample_calls :: "manager_call list" where
  "sample_calls = [C_put ''k'' ''abc'' True, C_put_chars ''j'' ''wxyz'' 2, C_get ''k'' [], C_del_default ''k'', C_get ''k'' ''old'',
     C_metaPut ''j'' ''m'' False, C_get ''j'' [], C_writeBarrier, C_metaGet ''j'' [], C_getCounters, C_getDbPath]"

definition solo_env :: mpi_env where
  "solo_env = \<lparr>me_adios = None, me_mpi = False, me_rank = 0, me_size = 1, me_node = (\<lambda>_. 0)\<rparr>"

lemma sample_calls_run: "fst (cm_run sample_calls (new_map ''t/d'')) =
    [R_done True, R_done True, R_value True ''abc'', R_done True, R_value False ''old'', R_done True, R_value True ''wx'',
     R_done True, R_value True ''m'', R_counters (6, 9, 3, 4), R_path ''t/d'']"
  by code_simp


end
