(* ===== verification/Stream_Life.thy ===== *)
theory Stream_Life
  imports Manager_Life Posix
begin

text \<open>
  The calls of \<open>LSMIOStream\<close> (\<open>posix.hpp\<close>), from any number of stream objects in any order, and what
  they promise: a map from paths and offsets to chunks, and an offset for every path that all streams
  on the path share.
\<close>

section \<open>The calls\<close>

text \<open>
  Every call but \<open>open\<close> and the barrier is on a stream object, whose only state is the path it has been
  opened with: the first argument. \<open>S_write_chars\<close> names the memory from its pointer on, and the length.
\<close>

datatype stream_call =
    S_open string "ios_flag set"
  | S_read string int
  | S_write_chars string string nat
  | S_write string string
  | S_seekp string u64 seekdir
  | S_tellp string
  | S_rdbuf string
  | S_fail string
  | S_good string
  | S_flush string
  | S_close string
  | S_writeBarrier

datatype stream_reply = SR_path string | SR_bytes string | SR_offset int | SR_flag bool | SR_buffer | SR_stream

text \<open>\<open>rdbuf\<close> answers the buffer of \<open>_buf\<close>, which no call ever opens.\<close>

fun px_do :: "'s store_ops \<Rightarrow> lsmio_config \<Rightarrow> stream_call \<Rightarrow> 's posix \<Rightarrow> (stream_reply \<times> 's posix) outcome" where
  "px_do ops cfg (S_open f mode) st = (case px_open f mode st of (path, st') \<Rightarrow> Returns (SR_path path, st'))"
| "px_do ops cfg (S_read path n) st = bind_outcome (px_read ops cfg path n st) (\<lambda>(v, st'). Returns (SR_bytes v, st'))"
| "px_do ops cfg (S_write_chars path mem n) st =
     bind_outcome (px_write_chars ops cfg path mem n st) (\<lambda>st'. Returns (SR_stream, st'))"
| "px_do ops cfg (S_write path s) st = bind_outcome (px_write ops cfg path s st) (\<lambda>st'. Returns (SR_stream, st'))"
| "px_do ops cfg (S_seekp path off way) st = bind_outcome (px_seekp path off way st) (\<lambda>st'. Returns (SR_stream, st'))"
| "px_do ops cfg (S_tellp path) st = (case px_tellp path st of (off, st') \<Rightarrow> Returns (SR_offset off, st'))"
| "px_do ops cfg (S_rdbuf path) st = Returns (SR_buffer, st)"
| "px_do ops cfg (S_fail path) st = Returns (SR_flag (px_fail st), st)"
| "px_do ops cfg (S_good path) st = Returns (SR_flag (px_good st), st)"
| "px_do ops cfg (S_flush path) st = Returns (SR_stream, px_flush st)"
| "px_do ops cfg (S_close path) st = Returns (SR_stream, px_close path st)"
| "px_do ops cfg S_writeBarrier st = bind_outcome (px_writeBarrier ops cfg st) (\<lambda>(b, st'). Returns (SR_flag b, st'))"

fun px_run ::
  "'s store_ops \<Rightarrow> lsmio_config \<Rightarrow> stream_call list \<Rightarrow> 's posix \<Rightarrow> (stream_reply list \<times> 's posix) outcome" where
  "px_run ops cfg [] st = Returns ([], st)"
| "px_run ops cfg (c # cs) st = bind_outcome (px_do ops cfg c st) (\<lambda>(r, st').
     bind_outcome (px_run ops cfg cs st') (\<lambda>(rs, st''). Returns (r # rs, st'')))"

section \<open>Files of chunks\<close>

record chunk_files =
  ck_chunk :: "string \<Rightarrow> u64 \<rightharpoonup> string"
  ck_offset :: "string \<Rightarrow> u64"

definition no_chunks :: chunk_files where
  "no_chunks = \<lparr>ck_chunk = (\<lambda>_. Map.empty), ck_offset = (\<lambda>_. 0)\<rparr>"

definition ck_set :: "string \<Rightarrow> u64 \<Rightarrow> chunk_files \<Rightarrow> chunk_files" where
  "ck_set path off w = w\<lparr>ck_offset := (ck_offset w)(path := off)\<rparr>"

definition ck_write :: "string \<Rightarrow> string \<Rightarrow> chunk_files \<Rightarrow> chunk_files" where
  "ck_write path s w = ck_set path (ck_offset w path + word_of_nat (length s))
     (w\<lparr>ck_chunk := (ck_chunk w)(path := (ck_chunk w path)(ck_offset w path \<mapsto> s))\<rparr>)"

definition ck_read :: "string \<Rightarrow> int \<Rightarrow> chunk_files \<Rightarrow> (stream_reply \<times> chunk_files) outcome" where
  "ck_read path n w = (let v = found_value [] (ck_chunk w path (ck_offset w path)) in
     if int (length v) \<noteq> n mod 2 ^ 64 then Throws ''ERROR: LSMIOStream::read unexpected length of data''
     else if sint (ck_offset w path) + n \<ge> 2 ^ 63 then Undefined
     else Returns (SR_bytes v, ck_set path (ck_offset w path + word_of_int n) w))"

fun ck_do :: "stream_call \<Rightarrow> chunk_files \<Rightarrow> (stream_reply \<times> chunk_files) outcome" where
  "ck_do (S_open f mode) w = Returns (SR_path f, if mode = {Ios_trunc} then ck_set f 0 w else w)"
| "ck_do (S_read path n) w = ck_read path n w"
| "ck_do (S_write_chars path mem n) w =
     (if length mem < n then Undefined else Returns (SR_stream, ck_write path (take n mem) w))"
| "ck_do (S_write path s) w = Returns (SR_stream, ck_write path s w)"
| "ck_do (S_seekp path off way) w = (if way = Seek_beg then Returns (SR_stream, ck_set path off w)
     else Throws ''ERROR: LSMIOStream::seekp is not called from beginning'')"
| "ck_do (S_tellp path) w = Returns (SR_offset (sint (ck_offset w path)), w)"
| "ck_do (S_rdbuf path) w = Returns (SR_buffer, w)"
| "ck_do (S_fail path) w = Returns (SR_flag False, w)"
| "ck_do (S_good path) w = Returns (SR_flag True, w)"
| "ck_do (S_flush path) w = Returns (SR_stream, w)"
| "ck_do (S_close path) w = Returns (SR_stream, ck_set path 0 w)"
| "ck_do S_writeBarrier w = Returns (SR_flag True, w)"

fun ck_run :: "stream_call list \<Rightarrow> chunk_files \<Rightarrow> (stream_reply list \<times> chunk_files) outcome" where
  "ck_run [] w = Returns ([], w)"
| "ck_run (c # cs) w = bind_outcome (ck_do c w) (\<lambda>(r, w').
     bind_outcome (ck_run cs w') (\<lambda>(rs, w''). Returns (r # rs, w'')))"

text \<open>What a call, and a run, writes to the store.\<close>

fun chunk_muts :: "stream_call \<Rightarrow> chunk_files \<Rightarrow> mutation list" where
  "chunk_muts (S_write path s) w = [(Put, chunk_key path (ck_offset w path), s)]"
| "chunk_muts (S_write_chars path mem n) w =
     (if length mem < n then [] else [(Put, chunk_key path (ck_offset w path), take n mem)])"
| "chunk_muts _ w = []"

fun run_muts :: "stream_call list \<Rightarrow> chunk_files \<Rightarrow> mutation list" where
  "run_muts [] w = []"
| "run_muts (c # cs) w = chunk_muts c w @ (case ck_do c w of Returns (r, w') \<Rightarrow> run_muts cs w' | _ \<Rightarrow> [])"

section \<open>The simulation\<close>

text \<open>Two outcomes that are the same, up to a relation between the states behind them.\<close>

definition same_outcome :: "('w \<Rightarrow> 't \<Rightarrow> bool) \<Rightarrow> ('r \<times> 'w) outcome \<Rightarrow> ('r \<times> 't) outcome \<Rightarrow> bool" where
  "same_outcome R x y \<longleftrightarrow> (case x of Returns (r, w) \<Rightarrow> \<exists>t. y = Returns (r, t) \<and> R w t
     | Blocks \<Rightarrow> y = Blocks | Throws e \<Rightarrow> y = Throws e | Undefined \<Rightarrow> y = Undefined | Exits c \<Rightarrow> y = Exits c)"

lemma same_outcome_simps [simp]:
  "same_outcome R (Returns (r, w)) (Returns (r', t)) \<longleftrightarrow> r = r' \<and> R w t"
  "same_outcome R (Throws e) y \<longleftrightarrow> y = Throws e" "same_outcome R Undefined y \<longleftrightarrow> y = Undefined"
  by (auto simp: same_outcome_def)

lemma same_outcome_bind:
  assumes "same_outcome R x y" and "\<And>r w t. x = Returns (r, w) \<Longrightarrow> R w t \<Longrightarrow> same_outcome Q (f (r, w)) (g (r, t))"
  shows "same_outcome Q (bind_outcome x f) (bind_outcome y g)"
proof (cases x)
  case (Returns a)
  obtain r w where a: "a = (r, w)" by (cases a)
  from assms(1) obtain t where "y = Returns (r, t)" "R w t" by (auto simp: Returns a same_outcome_def)
  with assms(2) [of r w t] show ?thesis by (simp add: Returns a)
qed (use assms(1) in \<open>simp_all add: same_outcome_def\<close>)

definition answers :: "('r \<times> 'w) outcome \<Rightarrow> 'r outcome" where
  "answers x = bind_outcome x (\<lambda>(r, w). Returns r)"

lemma same_answers: "same_outcome R x y \<Longrightarrow> answers y = answers x"
  by (auto simp: same_outcome_def answers_def split: outcome.splits)

text \<open>The stream layer is up over a store that has accepted the mutations \<open>h\<close>, and stands for the files \<open>w\<close>.\<close>

definition files_at :: "(mutation list \<Rightarrow> 's \<Rightarrow> bool) \<Rightarrow> mutation list \<Rightarrow> chunk_files \<Rightarrow> 's posix \<Rightarrow> bool" where
  "files_at at h w st \<longleftrightarrow> lm_initialized (px_static st) \<and> (\<forall>path. file_offset path st = ck_offset w path)
     \<and> (\<exists>p v. lm_instance (px_static st) = Some p \<and> represents at v h p
       \<and> (\<forall>path off. cm_map v (chunk_key path off) = ck_chunk w path off))"

lemma files_offset: "files_at at h w st \<Longrightarrow> file_offset path st = ck_offset w path"
  by (simp add: files_at_def)

lemma files_set: "files_at at h w st \<Longrightarrow> files_at at h (ck_set path off w) (set_offset path off st)"
  by (auto simp: files_at_def px_state_defs ck_set_def)

lemma files_genKey:
  assumes "files_at at h w st"
  obtains st1 where "genKey path st = (chunk_key path (ck_offset w path), st1)" "files_at at h w st1"
proof -
  have "ck_set path (ck_offset w path) w = w" by (simp add: ck_set_def)
  then show ?thesis using that files_set [OF assms, of path "ck_offset w path"] files_offset [OF assms, of path]
    by (simp add: genKey_def)
qed

context flag_stores
begin

lemma files_write:
  assumes at: "files_at at h w st" and fit: "fits (h @ [(Put, chunk_key path (ck_offset w path), s)])"
  shows "\<exists>st'. px_write ops cfg path s st = Returns st'
    \<and> files_at at (h @ [(Put, chunk_key path (ck_offset w path), s)]) (ck_write path s w) st'"
proof -
  let ?k = "chunk_key path (ck_offset w path)" and ?w = "w\<lparr>ck_chunk := (ck_chunk w)(path := (ck_chunk w path)(ck_offset w path \<mapsto> s))\<rparr>"
  from at obtain p v where up: "lm_initialized (px_static st)" and p: "lm_instance (px_static st) = Some p" "represents at v h p"
    "\<forall>path off. cm_map v (chunk_key path off) = ck_chunk w path off" by (auto simp: files_at_def)
  from files_genKey [OF at, of path] obtain st1 where k: "genKey path st = (?k, st1)" and st1: "files_at at h w st1" .
  from do_put [OF p(2) fit, of cfg "cfg_alwaysFlush cfg"] obtain p' where
    p': "mg_put_default ops cfg ?k s p = Returns (True, p')" "represents at (snd (cm_put ?k s v)) (h @ [(Put, ?k, s)]) p'"
    by (auto simp: mg_put_default_def)
  have "files_at at (h @ [(Put, ?k, s)]) ?w (set_peers p' st1)"
    using st1 p'(2) p(3) unfolding files_at_def
    by (intro conjI exI [of _ p'] exI [of _ "snd (cm_put ?k s v)"])
      (auto simp: px_state_defs cm_put_def chunk_key_inj)
  from files_set [OF this, of path "ck_offset w path + word_of_nat (length s)"] show ?thesis
    by (simp add: px_write_def up p(1) k p'(1) files_offset [OF st1] ck_write_def)
qed

lemma files_read:
  assumes at: "files_at at h w st" and fit: "fits h"
  shows "same_outcome (files_at at h) (ck_read path n w)
    (bind_outcome (px_read ops cfg path n st) (\<lambda>(v, st'). Returns (SR_bytes v, st')))"
proof -
  let ?k = "chunk_key path (ck_offset w path)"
  from at obtain p v where up: "lm_initialized (px_static st)" and p: "lm_instance (px_static st) = Some p" "represents at v h p"
    "\<forall>path off. cm_map v (chunk_key path off) = ck_chunk w path off" by (auto simp: files_at_def)
  from files_genKey [OF at, of path] obtain st1 where k: "genKey path st = (?k, st1)" and st1: "files_at at h w st1" .
  let ?x = "found_value [] (ck_chunk w path (ck_offset w path))"
  from do_get [OF p(2) fit, of cfg ?k "[]"] p(3) obtain b p' where
    p': "mg_get ops cfg ?k [] p = Returns ((b, ?x), p')" "represents at (cm_read (length ?x) v) h p'" by auto
  have "cm_map (cm_read (length ?x) v) = cm_map v" by (simp add: cm_read_def split: prod.split)
  then have "files_at at h w (set_peers p' st1)"
    using st1 p'(2) p(3) unfolding files_at_def
    by (intro conjI exI [of _ p'] exI [of _ "cm_read (length ?x) v"]) (auto simp: px_state_defs)
  note set = files_set [OF this, of path "ck_offset w path + word_of_int n"]
  show ?thesis
  proof (cases "int (length ?x) = n mod 2 ^ 64")
    case True
    then show ?thesis using set
      by (cases "sint (ck_offset w path) + n \<ge> 2 ^ 63")
        (simp_all add: ck_read_def px_read_def up p(1) k p'(1) files_offset [OF st1] Let_def)
  qed (simp add: ck_read_def px_read_def up p(1) k p'(1) Let_def)
qed

lemma files_barrier:
  assumes at: "files_at at h w st" and fit: "fits h"
  shows "\<exists>st'. px_writeBarrier ops cfg st = Returns (True, st') \<and> files_at at h w st'"
proof -
  from at obtain p v where up: "lm_initialized (px_static st)" and p: "lm_instance (px_static st) = Some p" "represents at v h p"
    by (auto simp: files_at_def)
  from do_barriers(2) [OF p(2) fit, of cfg] obtain p' where p': "mg_writeBarrier ops cfg p = Returns (True, p')" "represents at v h p'"
    by blast
  have "files_at at h w (set_peers p' st)"
    using at p p'(2) by (auto simp: files_at_def px_state_defs represents_def)
  then show ?thesis by (simp add: px_writeBarrier_def up p(1) p'(1))
qed

lemma stream_step:
  assumes at: "files_at at h w st" and fit: "fits (h @ chunk_muts c w)"
  shows "same_outcome (files_at at (h @ chunk_muts c w)) (ck_do c w) (px_do ops cfg c st)"
proof (cases c)
  case (S_open f mode)
  have new: "file_offset f (set_offset f 0 st) = 0" by (simp add: px_state_defs)
  have "files_at at h (ck_set f 0 w) (set_offset f 0 st)" by (rule files_set [OF at])
  moreover have "files_at at h w (set_offset f 0 st)" if "px_fileMap st f = None"
  proof -
    have "ck_offset w f = 0" using that files_offset [OF at, of f] by (simp add: file_offset_def)
    then have "ck_set f 0 w = w" by (simp add: ck_set_def fun_upd_idem)
    with files_set [OF at, of f 0] show ?thesis by simp
  qed
  ultimately show ?thesis using at by (auto simp: S_open px_open_def)
next
  case (S_read path n)
  then show ?thesis using files_read [OF at, of path n cfg] fit by simp
next
  case (S_write_chars path mem n)
  then show ?thesis using files_write [OF at, of path "take n mem" cfg] fit
    by (cases "length mem < n") (auto simp: px_write_chars_def)
next
  case (S_write path s)
  then show ?thesis using files_write [OF at, of path s cfg] fit by auto
next
  case (S_seekp path off way)
  then show ?thesis using files_set [OF at, of path off] by (auto simp: px_seekp_def)
next
  case (S_tellp path)
  have "ck_set path (ck_offset w path) w = w" by (simp add: ck_set_def)
  then show ?thesis using files_set [OF at, of path "ck_offset w path"] files_offset [OF at, of path]
    by (simp add: S_tellp px_tellp_def)
next
  case S_writeBarrier
  then show ?thesis using files_barrier [OF at, of cfg] fit by auto
next
  case (S_close path)
  then show ?thesis using files_set [OF at, of path 0] by (simp add: px_close_def)
qed (use at in \<open>auto simp: px_fail_def px_good_def px_flush_def files_at_def\<close>)

lemma stream_run:
  "files_at at h w st \<Longrightarrow> fits (h @ run_muts cs w) \<Longrightarrow>
    same_outcome (\<lambda>w' st'. \<exists>h'. files_at at h' w' st') (ck_run cs w) (px_run ops cfg cs st)"
proof (induction cs arbitrary: h w st)
  case (Cons c cs)
  from Cons.prems(2) have "fits ((h @ chunk_muts c w) @ (case ck_do c w of Returns (r, w') \<Rightarrow> run_muts cs w' | _ \<Rightarrow> []))" by simp
  note step = stream_step [OF Cons.prems(1) logged_store.fits_prefix [OF logged this], of cfg]
  show ?case unfolding ck_run.simps px_run.simps
  proof (rule same_outcome_bind [OF step], goal_cases)
    case (1 r w' st')
    have "fits ((h @ chunk_muts c w) @ run_muts cs w')" using Cons.prems(2) 1(1) by simp
    from Cons.IH [OF 1(2) this] show ?case unfolding prod.case by (rule same_outcome_bind) simp
  qed
qed auto

end

section \<open>Properties\<close>

lemma start_files:
  assumes "represents at (new_map path) [] p" and "px_initialize (Returns p) px_start = (Returns True, st)"
  shows "files_at at [] no_chunks st"
proof -
  have st: "px_fileMap st = Map.empty" "lm_initialized (px_static st)" "lm_instance (px_static st) = Some p"
    using assms(2) by (auto simp: px_initialize_def px_start_def lm_start_def Let_def)
  show ?thesis unfolding files_at_def
    using st assms(1) by (intro conjI exI [of _ p] exI [of _ "new_map path"]) (auto simp: file_offset_def no_chunks_def new_map_def)
qed


definition sample_stream :: "stream_call list" where
  "sample_stream = [S_open ''a'' {Ios_out}, S_open ''b'' {Ios_out}, S_write ''a'' ''one'', S_write_chars ''b'' ''twooo'' 3,
     S_write ''a'' ''three'', S_tellp ''a'', S_seekp ''a'' 0 Seek_beg, S_writeBarrier, S_read ''a'' 3, S_read ''a'' 5,
     S_close ''b'', S_write ''b'' ''xyz'', S_open ''b'' {Ios_trunc}, S_read ''b'' 3, S_good ''a'', S_tellp ''b'']"

lemma sample_stream_run: "answers (ck_run sample_stream no_chunks) =
    Returns [SR_path ''a'', SR_path ''b'', SR_stream, SR_stream, SR_stream, SR_offset 8, SR_stream, SR_flag True,
      SR_bytes ''one'', SR_bytes ''three'', SR_stream, SR_stream, SR_path ''b'', SR_bytes ''xyz'', SR_flag True, SR_offset 3]"
  by code_simp

lemma sample_stream_muts: "run_muts sample_stream no_chunks =
    [(Put, ''a::0'', ''one''), (Put, ''b::0'', ''two''), (Put, ''a::3'', ''three''), (Put, ''b::0'', ''xyz'')]"
  by code_simp


end
