(* ===== verification/Benchmark_Life.thy ===== *)
theory Benchmark_Life
  imports Benchmark
begin

text \<open>
  The calls of a \<open>Benchmark\<close> object (\<open>benchmark.hpp\<close>) in any order, errors included, and what the
  object promises: a stopwatch, and a list of the iterations in the order in which they were added since
  the last \<open>clearIterations\<close>. A call that throws leaves the object as it was.
\<close>

section \<open>The calls\<close>

text \<open>The calls that look at the clock name its reading.\<close>

datatype 'd bm_call =
    B_start int
  | B_stop bool int
  | B_sofar int
  | B_duration
  | B_addIteration string int 'd 'd
  | B_summaryIteration string
  | B_formatIterations string
  | B_formatSummary string string
  | B_clearIterations

datatype 'd bm_reply = BR_none | BR_time int | BR_summary "'d summary" | BR_text string

type_synonym 'd benchmark = "bm_timer \<times> 'd iteration list"

definition bench_new :: "'d benchmark" where
  "bench_new = (bt_new, [])"

text \<open>The timer after a call, or the timer before it when the call throws.\<close>

definition timer_after :: "bm_timer outcome \<Rightarrow> 'd benchmark \<Rightarrow> 'd bm_reply outcome \<times> 'd benchmark" where
  "timer_after x b = (case x of Returns t \<Rightarrow> (Returns BR_none, (t, snd b))
     | Throws e \<Rightarrow> (Throws e, b) | Blocks \<Rightarrow> (Blocks, b) | Undefined \<Rightarrow> (Undefined, b) | Exits c \<Rightarrow> (Exits c, b))"

definition timed :: "int outcome \<Rightarrow> 'd bm_reply outcome" where
  "timed x = bind_outcome x (\<lambda>t. Returns (BR_time t))"

fun bench_do :: "'d fp \<Rightarrow> 'd bm_call \<Rightarrow> 'd benchmark \<Rightarrow> 'd bm_reply outcome \<times> 'd benchmark" where
  "bench_do A (B_start now) b = timer_after (bm_start now (fst b)) b"
| "bench_do A (B_stop idempotent now) b = timer_after (bm_stop idempotent now (fst b)) b"
| "bench_do A (B_sofar now) b = (timed (bm_sofar now (fst b)), b)"
| "bench_do A B_duration b = (timed (bm_duration (fst b)), b)"
| "bench_do A (B_addIteration n d x y) b = (Returns BR_none, (fst b, addIteration n d x y (snd b)))"
| "bench_do A (B_summaryIteration n) b = (Returns (BR_summary (summaryIteration A n (snd b))), b)"
| "bench_do A (B_formatIterations n) b = (Returns (BR_text (formatIterations A n (snd b))), b)"
| "bench_do A (B_formatSummary n opt) b = (Returns (BR_text (formatSummary A n opt (snd b))), b)"
| "bench_do A B_clearIterations b = (Returns BR_none, (fst b, clearIterations (snd b)))"

fun bench_run :: "'d fp \<Rightarrow> 'd bm_call list \<Rightarrow> 'd benchmark \<Rightarrow> 'd bm_reply outcome list" where
  "bench_run A [] b = []"
| "bench_run A (c # cs) b = (case bench_do A c b of (r, b') \<Rightarrow> r # bench_run A cs b')"

section \<open>A stopwatch and a list\<close>

text \<open>
  The stopwatch runs since a time, or has measured a time; the summary of a list is computed from the
  entries themselves, without a map.
\<close>

datatype stopwatch = Running int | Measured int

definition list_summary :: "'d fp \<Rightarrow> (int \<times> 'd \<times> 'd) list \<Rightarrow> 'd summary" where
  "list_summary A xs = (let s = foldl (\<lambda>s x. summary_entry A x s) (summary_start A) xs in
     if xs = [] then s else s\<lparr>su_mean := fp_div A (su_totalBW s) (fp_of_int A (int (length xs)))\<rparr>)"

definition list_table :: "'d fp \<Rightarrow> string \<Rightarrow> (int \<times> 'd \<times> 'd) list \<Rightarrow> string" where
  "list_table A n xs = colons_to_commas (drop_commas (BM_HEADER @ concat (map (iteration_row A n) xs)))"

definition list_line :: "'d fp \<Rightarrow> string \<Rightarrow> string \<Rightarrow> (int \<times> 'd \<times> 'd) list \<Rightarrow> string" where
  "list_line A n label xs = (let s = list_summary A xs in
     if n = [] then BM_HEADER
     else if fp_le A (su_totalBytes s) (fp_of_int A 0) then n @ '', FAILED'' @ [CHR 0x0A]
     else colons_to_commas (drop_commas ((if label = [] then n else label) @ '':'' @ fp_fixed A 2 (su_max s) @ '':''
       @ fp_fixed A 2 (su_min s) @ '':'' @ fp_fixed A 2 (su_mean s) @ '':'' @ fp_fixed A 2 (mebibytes A (su_totalBytes s))
       @ '':'' @ fp_fixed A 0 (su_totalOps s) @ '':'' @ to_string_int (su_iterations s))))"

fun watch_do :: "'d fp \<Rightarrow> 'd bm_call \<Rightarrow> stopwatch \<times> 'd iteration list \<Rightarrow> 'd bm_reply outcome \<times> stopwatch \<times> 'd iteration list" where
  "watch_do A (B_start now) (w, es) = (case w of
       Running t \<Rightarrow> (Throws ''ERROR: lsmio::Benchmark::start: method ran but it is already started.'', w, es)
     | Measured d \<Rightarrow> (Returns BR_none, Running now, es))"
| "watch_do A (B_stop idempotent now) (w, es) = (case w of
       Running t \<Rightarrow> (Returns BR_none, Measured (now - t), es)
     | Measured d \<Rightarrow> (if idempotent then Returns BR_none
         else Throws ''ERROR: lsmio::Benchmark::stop: method ran without starting.'', w, es))"
| "watch_do A (B_sofar now) (w, es) = (case w of
       Running t \<Rightarrow> Returns (BR_time (to_microseconds (now - t)))
     | Measured d \<Rightarrow> Throws ''ERROR: lsmio::Benchmark::stop: method ran without starting.'', w, es)"
| "watch_do A B_duration (w, es) = (case w of
       Running t \<Rightarrow> Throws ''ERROR: lsmio::Benchmark::stop: method ran while running.''
     | Measured d \<Rightarrow> Returns (BR_time (to_microseconds d)), w, es)"
| "watch_do A (B_addIteration n d x y) (w, es) = (Returns BR_none, w, es @ [(n, d, x, y)])"
| "watch_do A (B_summaryIteration n) (w, es) = (Returns (BR_summary (list_summary A (named n es))), w, es)"
| "watch_do A (B_formatIterations n) (w, es) = (Returns (BR_text (list_table A n (named n es))), w, es)"
| "watch_do A (B_formatSummary n opt) (w, es) = (Returns (BR_text (list_line A n opt (named n es))), w, es)"
| "watch_do A B_clearIterations (w, es) = (Returns BR_none, w, [])"

fun watch_run :: "'d fp \<Rightarrow> 'd bm_call list \<Rightarrow> stopwatch \<times> 'd iteration list \<Rightarrow> 'd bm_reply outcome list" where
  "watch_run A [] w = []"
| "watch_run A (c # cs) w = (case watch_do A c w of (r, w') \<Rightarrow> r # watch_run A cs w')"

section \<open>The object is a stopwatch and a list\<close>

definition watch_of :: "bm_timer \<Rightarrow> stopwatch" where
  "watch_of t = (if bt_isStarted t then Running (bt_start t) else Measured (bt_stop t - bt_start t))"

definition shows_as :: "'d benchmark \<Rightarrow> stopwatch \<times> 'd iteration list \<Rightarrow> bool" where
  "shows_as b w \<longleftrightarrow> fst w = watch_of (fst b) \<and> sorted (map fst (snd b)) \<and> (\<forall>n. named n (snd b) = named n (snd w))"

lemma named_append [simp]: "named n (es @ fs) = named n es @ named n fs"
  by (simp add: named_def)

lemma summary_of_named: "summaryIteration A n es = list_summary A (named n es)"
proof -
  let ?s = "foldl (\<lambda>s x. summary_entry A x s) (summary_start A) (named n es)"
  have "su_iterations ?s = int (length (named n es))" using summary_sums(1) [of A "summary_start A" "named n es"]
    by (simp add: summary_start_def)
  then show ?thesis by (simp add: summaryIteration_def list_summary_def summary_loop_named Let_def)
qed

lemma bench_step:
  assumes "shows_as b w"
  shows "fst (bench_do A c b) = fst (watch_do A c w) \<and> shows_as (snd (bench_do A c b)) (snd (watch_do A c w))"
proof -
  obtain t es where b: "b = (t, es)" by (cases b)
  obtain fs where w: "w = (watch_of t, fs)" and es: "sorted (map fst es)" "\<And>n. named n es = named n fs"
    using assms by (cases w) (auto simp: shows_as_def b)
  note defs = b w timer_defs watch_of_def shows_as_def timer_after_def timed_def
  show ?thesis
  proof (cases c)
    case (B_addIteration n d x y)
    then show ?thesis using es by (simp add: defs sorted_addIteration named_addIteration)
  next
    case (B_summaryIteration n)
    then show ?thesis using es by (simp add: defs summary_of_named)
  next
    case (B_formatIterations n)
    then show ?thesis using es by (simp add: defs formatIterations_def list_table_def)
  next
    case (B_formatSummary n opt)
    then show ?thesis using es by (simp add: defs formatSummary_def list_line_def summary_of_named Let_def)
  qed (use es in \<open>simp_all add: defs clearIterations_def\<close>)
qed

text \<open>
  C39. A \<open>Benchmark\<close> object is a stopwatch and a list. Whatever calls come in whatever order, with
  starts and stops out of turn among them, each answers or throws as the stopwatch and the list do: the
  multimap does not show, a summary or table of a name is that of the iterations added under it since
  the last clearing, and a call that throws leaves no trace. This holds for every arithmetic of \<open>double\<close>.
\<close>

theorem benchmark_refines_log: "bench_run A cs bench_new = watch_run A cs (Measured 0, [])"
proof -
  have "shows_as b w \<Longrightarrow> bench_run A cs b = watch_run A cs w" for b w
  proof (induction cs arbitrary: b w)
    case (Cons c cs)
    from bench_step [OF Cons.prems, of A c] Cons.IH show ?case by (auto split: prod.split)
  qed simp
  moreover have "shows_as bench_new (Measured 0, [])" by (simp add: shows_as_def bench_new_def watch_of_def bt_new_def)
  ultimately show ?thesis by blast
qed

end
