(* ===== verification/Spec2Isabelle.thy ===== *)
theory Spec2Isabelle
  imports Native_Laws Store_Ldb Store_Rdb Posix Bm_Programs Plugin_Laws Transport Durable_Db Bm_Main Native_Life Shutdown Group_Private Client_Class Stream_Life Benchmark_Life
begin

text \<open>
  LSMIO is an I/O library for parallel programs that keeps the data of every process in a log
  structured store: values are appended under keys, and a file format, a stream, an engine of ADIOS2
  and a set of benchmarks are built over that. These theories model the C++ sources under \<open>src/\<close> (paths
  below are relative to it and to \<open>lib/\<close>, headers to \<open>include/lsmio/\<close>) and prove what makes its layers
  correct, from the bytes of a table up to the variables that an application writes and reads back.

  The parts and how they interact, from the bottom.

  Vocabulary. \<open>Lsm_Prelude\<close>: the types of C++ the sources use, the type \<open>outcome\<close> of a call that returns,
  throws, waits, runs into undefined behaviour or ends the process (\<open>LOG(FATAL)\<close> and \<open>exit\<close>), \<open>std::map\<close> as a sorted list, and the map that a log of
  mutations stands for (\<open>entries_map\<close>, \<open>live\<close>). \<open>Std_Io\<close>: files and file streams. \<open>Std_Text\<close>: string
  streams, \<open>std::getline\<close>, \<open>std::stoi\<close>, decimal numbers. \<open>Config\<close>: the settings, flags and logging of
  \<open>lsmio.hpp\<close> and \<open>lsmio.cpp\<close>.

  The native store (\<open>manager/store/native\<close>). \<open>Memtable\<close>: \<open>memtable.cpp\<close>. \<open>Sst_Index\<close> and \<open>Sst_Format\<close>:
  the index and the bytes of a table. \<open>File_Pool\<close> and \<open>File_Closer\<close>: the threads that open files ahead
  and close them later. \<open>Sst_Manager\<close>: flush, lookup and scan over the list of tables. \<open>Sst_Recovery\<close>: the
  tables found again at a start. \<open>Store_Native\<close>: \<open>store_native.cpp\<close> with its flush thread, as the step
  relation \<open>nt_step\<close> of all its threads; \<open>Native_Inv\<close>: the invariant of its runs; \<open>Native_Ops\<close>: the calls
  of one client, run to their return (\<open>seq_*\<close>), each of which is a run of \<open>nt_step\<close>; \<open>Native_Laws\<close>: what
  the store promises; \<open>Native_Life\<close>: a whole life of mutations, barriers and restarts;
  \<open>Shutdown\<close>: how the threads of the store are told to end, with mutex and condition variable. A lookup goes from the active memtable over the queued ones, the youngest first,
  to the tables; a full memtable is queued, flushed to a file of the pool, and linked as a table.

  Stores in general (\<open>manager/store\<close>). \<open>Store\<close>: the virtual operations as the record \<open>store_ops\<close> and the
  locale \<open>lsmio_store\<close> of their laws. \<open>Store_Ldb\<close> and \<open>Store_Rdb\<close>: \<open>store_ldb.cpp\<close> and \<open>store_rdb.cpp\<close> over
  a database that is a parameter (\<open>Kv_Db\<close>). \<open>Durable_Store\<close>: the locale \<open>durable_store\<close> of a store that
  survives its close, and \<open>resumable_store\<close> of one that then goes on. \<open>Durable_Db\<close>: the constructors and the
  close of the two stores over a library that opens and deletes databases on a disk (\<open>db_lib\<close>).

  Processes (\<open>manager\<close>). \<open>Client\<close>: the commands between ranks and the loop of the serving rank; \<open>Transport\<close>:
  the messages below them, and a client and a server as the step relation \<open>gr_step\<close>; \<open>Group_Life\<close> and
  \<open>Group_Ends\<close>: a group of any size from its start to its end (\<open>team_step\<close>), with the thread of the server and
  the two barriers, while both threads of the serving rank use its store; \<open>Rank_View\<close> and \<open>Group_Private\<close>: what each rank of a
  group sees of the shared store, with the locale \<open>logged_store\<close> that all three stores interpret; \<open>Client_Adios\<close>: the client objects, and the transport over ADIOS2;
  \<open>Client_Class\<close>: the virtual functions of the client, with the locales \<open>command_transport\<close> and
  \<open>reply_transport\<close>. \<open>Manager\<close>:
  \<open>manager.cpp\<close>, its layout of ranks, its operations on a store of its own or through the serving rank;
  \<open>Manager_Laws\<close>: its laws and the instance of the process; \<open>Manager_Life\<close>: any sequence of its public calls.

  Users. \<open>Posix\<close>: the stream of \<open>posix/posix.cpp\<close>; \<open>Stream_Life\<close>: any sequence of
  calls of any number of streams. \<open>Plugin\<close>: the engine of \<open>adios-plugin\<close>; \<open>Plugin_Text\<close>
  and \<open>Plugin_Laws\<close>: its texts and its sessions. \<open>Benchmark\<close>: \<open>benchmark.cpp\<close>; \<open>Benchmark_Life\<close>: any
  sequence of calls of its object. \<open>Bm_Base\<close> and \<open>Bm_Programs\<close>:
  the passes and suites of the programs under \<open>benchmark/\<close>, \<open>Bm_Adios\<close>: the one over an engine of ADIOS2,
  with the engine of this repository, \<open>Bm_Main\<close>: all of them from the command line to the exit code.

  Interfaces. \<open>kv_level\<close> is one level of the tree, interpreted by the memtable and by the table;
  \<open>lsmio_store\<close> is an open store, interpreted by the three stores; \<open>durable_store\<close> and \<open>resumable_store\<close> add
  close and reopen, interpreted by the native store; \<open>bench_program\<close> is what the passes of a benchmark need,
  which every \<open>durable_store\<close> gives directly and through a manager (\<open>managed_store\<close>), and a \<open>resumable_store\<close>
  below the plug-in (\<open>plugin_program\<close>); \<open>main_program\<close> is a \<open>bench_program\<close> for all settings of the loop; \<open>wake_protocol\<close> is what a
  waiting thread needs to miss no work, interpreted by the flush thread and by the file closer; \<open>flag_stores\<close> is a
  \<open>logged_store\<close> under every flush flag, interpreted by the native store and RocksDB, over which a manager is a
  map with counters and the streams are a map of chunks; \<open>command_transport\<close> is kept by both client classes,
  \<open>reply_transport\<close> by that of MPI alone.

  What the groups of lemmas show. No mutation is lost or stored twice by the threads of the native
  store, a write barrier makes everything before it durable, and what is closed is found again when it
  is opened (\<open>Native_Laws\<close>); indexed lookup is lookup of the latest entry (\<open>Sst_Index\<close>), a table reads back
  as it was written (\<open>Sst_Format\<close>, \<open>Sst_Recovery\<close>); queue, memtable and pool keep their bounds; the runs of
  client and server end and are those of a client that calls the store itself (\<open>Transport\<close>); every rank of
  a group gets the answers of a store of its own (\<open>Group_Private\<close>); the layers above keep the contract they are given. Where the code does not keep what it promises, a theorem shows
  the case, as for the scan of queued memtables or the lookup during a flush.

  Bounds and fuel. \<open>waitForCommand\<close> takes the number of messages in the inboxes as fuel, and every round
  takes one of every client; \<open>settle\<close> and \<open>close_drain\<close> take the length of the queue, of which every turn
  removes one; a run of a group of two has at most three steps a command and three more, one of a group of any size
  twelve more for each rank and five. File contents are
  shorter than \<open>2^63\<close> bytes and entries shorter than \<open>2^32\<close>, the widths of the offsets and of the stored
  lengths; nothing else bounds the data.

  Not modelled: the text of log messages and the frames of a backtrace; the calls of CLI11, MPI and ADIOS2
  themselves, which are arguments of the definitions or enter with their documented behaviour (messages
  of a rank arrive in order, a barrier opens when all ranks have come); how the calls of the two threads
  of a serving rank overlap inside a call, which the mutex of the store prevents but for waits; the
  barriers between the passes of a benchmark; tests, and the Python and shell tools.
\<close>

section \<open>Ranks that share a store\<close>

lemma sample_remote:
  "isOpenRemote (sample_member 1 None :: native_state manager)"
  "mg_aggRank (sample_member 1 None :: native_state manager) = 1"
proof -
  show "isOpenRemote (sample_member 1 None :: native_state manager)"
    unfolding sample_member_def roles_simps by (rule sample_roles)
  show "mg_aggRank (sample_member 1 None :: native_state manager) = 1"
    by (simp add: sample_member_def manager_layout_def sample_env_def split_rank_def group_color_def default_config_def Let_def)
qed

lemma sample_serve:
  "isServeLocal (sample_member 0 s)" "isOpenLocal (sample_member 0 s)" "mg_aggRank (sample_member 0 s) = 0"
  "mg_store (sample_member 0 s) = s" "(sample_member 0 s)\<lparr>mg_store := s'\<rparr> = sample_member 0 s'"
proof -
  show "mg_aggRank (sample_member 0 s) = 0" "mg_store (sample_member 0 s) = s" "(sample_member 0 s)\<lparr>mg_store := s'\<rparr> = sample_member 0 s'"
    by (simp_all add: sample_member_def manager_layout_def sample_env_def split_rank_def Let_def)
  then show "isServeLocal (sample_member 0 s)" "isOpenLocal (sample_member 0 s)"
    by (simp_all add: role_defs) (simp add: sample_member_def manager_layout_def sample_env_def split_size_def
      split_rank_def group_color_def default_config_def Let_def)
qed

lemma sample_keys: "rankedKey (sample_member 0 s) 1 k = ''1::'' @ k" "rankedKey (sample_member 0 s) 0 k = ''0::'' @ k"
proof -
  have "to_string_int 1 = ''1''" "to_string_int 0 = ''0''" by code_simp+
  then show "rankedKey (sample_member 0 s) 1 k = ''1::'' @ k" "rankedKey (sample_member 0 s) 0 k = ''0::'' @ k"
    by (simp_all add: rankedKey_def sample_serve(1))
qed

lemma sample_absent: "op_get (native_ops good_io) q sample_native = Returns None"
  using native.get [OF sample_ok, of q] native_content_log [of 0 "[]" "[]" "[]" "fst sample_native" "snd sample_native"]
    sample_inv by simp



text \<open>
  A lookup through the serving rank of a key that is not there reports success with the empty
  string, where a lookup in a store of one's own reports failure and leaves the result alone.
\<close>

theorem remote_missing_key:
  assumes s: "mg_store agg = Some s" and ok: "native_ok pre s" and m: "isOpenRemote m" and k: "plain k"
    and agg: "isOpenLocal agg"
    and none: "op_get (native_ops good_io) (rankedKey agg (mg_aggRank m) k) s = Returns None"
      "op_get (native_ops good_io) (rankedKey agg (mg_aggRank agg) k) s = Returns None"
  shows "(\<exists>p. mg_get (native_ops good_io) cfg k v0 (m, agg) = Returns ((True, []), p))
    \<and> (\<exists>p. mg_get (native_ops good_io) cfg k v0 (agg, x) = Returns ((False, v0), p))"
proof -
  have "native_content s (rankedKey agg (mg_aggRank m) k) = None" "native_content s (rankedKey agg (mg_aggRank agg) k) = None"
    using none native.get [OF ok] by simp_all
  then show ?thesis
    using lsmio_store.remote_get [OF native.lsmio_store_axioms s ok TrueI m k]
      lsmio_store.local_get [OF native.lsmio_store_axioms s ok TrueI agg]
    by (simp add: found_value_def)
qed

theorem remote_missing_key_witness:
  "\<exists>p. mg_get (native_ops good_io) default_config ''k'' ''old'' (sample_member 1 None, sample_member 0 (Some sample_native))
    = Returns ((True, []), p)"
proof -
  have "plain ''k''" by simp
  from remote_missing_key [OF sample_serve(4) sample_ok sample_remote(1) this sample_serve(2) sample_absent sample_absent]
  show ?thesis by blast
qed

text \<open>
  A read barrier of a forwarding rank succeeds and changes nothing at the serving rank, whose
  callback has no branch for it; the same barrier called at the serving rank hands the pending batch of
  its LevelDB store to the database.
\<close>

theorem remote_read_barrier_ignored:
  assumes laws: "kv_db_laws db repr" and m: "isOpenRemote m" and agg: "isOpenLocal agg"
    and s: "mg_store agg = Some s" "ldb_ok s"
  shows "mg_readBarrier (ldb_ops db) cfg (m, agg) = Returns (True, (m, agg))
    \<and> (\<exists>s1. mg_readBarrier (ldb_ops db) cfg (agg, x) = Returns (True, (agg\<lparr>mg_store := Some s1\<rparr>, x))
         \<and> pending_ops s1 = [] \<and> ldb_content repr s1 = ldb_content repr s)"
proof -
  from ldb_stopBatch_spec [OF laws s(2)] obtain b s1 where "ldb_stopBatch db s = Returns (b, s1)"
    "pending_ops s1 = []" "ldb_content repr s1 = ldb_content repr s" by blast
  then have "mg_readBarrier (ldb_ops db) cfg (agg, x) = Returns (True, (agg\<lparr>mg_store := Some s1\<rparr>, x))"
    "pending_ops s1 = []" "ldb_content repr s1 = ldb_content repr s"
    using agg s(1) by (simp_all add: mg_readBarrier_def local_update_def ldb_ops_def ldb_readBarrier_def)
  moreover have "mg_readBarrier (ldb_ops db) cfg (m, agg) = Returns (True, (m, agg))"
    using m s(1) remote_not_local [OF m]
    by (simp add: mg_readBarrier_def remote_barrier_def rpc_plain callback_read_barrier)
  ultimately show ?thesis by blast
qed

theorem remote_read_barrier_ignored_witness:
  "mg_readBarrier (ldb_ops mem_db) default_config (sample_member 1 None, sample_member 0 (Some sample_ldb))
      = Returns (True, (sample_member 1 None, sample_member 0 (Some sample_ldb)))
    \<and> pending_ops sample_ldb \<noteq> []"
proof -
  have "isOpenRemote (sample_member 1 None :: write_op list ldb_store manager)"
    unfolding sample_member_def roles_simps by (rule sample_roles)
  moreover have "ldb_ok sample_ldb" "pending_ops sample_ldb \<noteq> []"
    by (simp_all add: ldb_ok_def pending_ops_def sample_ldb_def)
  ultimately show ?thesis
    using remote_read_barrier_ignored [OF mem_db_laws _ sample_serve(2) sample_serve(4)] by blast
qed

text \<open>
  A key with a separator is cut there: the serving rank stores the rest of the key, the separator
  and the value under the first part of the key.
\<close>

theorem remote_key_separator:
  assumes s: "mg_store agg = Some s" and ok: "native_ok pre s" and m: "isOpenRemote m" and k: "plain k1"
    and room: "native_room pre Put (rankedKey agg (mg_aggRank m) k1) (k2 @ CHR '';'' # v) s"
  shows "\<exists>m1 s1. mg_put (native_ops good_io) cfg (k1 @ CHR '';'' # k2) v flush (m, agg)
      = Returns (True, (m1, agg\<lparr>mg_store := Some s1\<rparr>))
    \<and> op_get (native_ops good_io) (rankedKey agg (mg_aggRank m) k1) s1 = Returns (Some (k2 @ CHR '';'' # v))"
proof -
  from native.put_spec [OF ok room] obtain s1 where p: "store_put (native_ops good_io) (rankedKey agg (mg_aggRank m) k1)
      (k2 @ CHR '';'' # v) (cfg_alwaysFlush cfg) s = Returns (True, s1)" and s1: "native_ok pre s1"
    "native_content s1 = (native_content s)(rankedKey agg (mg_aggRank m) k1 \<mapsto> k2 @ CHR '';'' # v)" .
  have "mg_put (native_ops good_io) cfg (k1 @ CHR '';'' # k2) v flush (m, agg)
      = Returns (True, (count_write (length v) m, agg\<lparr>mg_store := Some s1\<rparr>))"
    using m k s p remote_not_local [OF m]
    by (simp add: mg_put_def remote_update_def send_command_def deSerialize_separator callback_put)
  moreover have "op_get (native_ops good_io) (rankedKey agg (mg_aggRank m) k1) s1 = Returns (Some (k2 @ CHR '';'' # v))"
    using native.get [OF s1(1)] s1(2) by simp
  ultimately show ?thesis by blast
qed

theorem remote_key_separator_witness:
  "\<exists>m1 s1. mg_put (native_ops good_io) default_config ''k;x'' ''v'' False (sample_member 1 None, sample_member 0 (Some sample_native))
      = Returns (True, (m1, sample_member 0 (Some s1)))
    \<and> op_get (native_ops good_io) ''1::k'' s1 = Returns (Some ''x;v'')"
proof -
  have room: "native_room 0 Put (rankedKey (sample_member 0 (Some sample_native)) (mg_aggRank (sample_member 1 None :: native_state manager)) ''k'')
      (''x'' @ CHR '';'' # ''v'') sample_native"
    unfolding sample_remote(2) sample_keys by (rule sample_room) (simp_all add: MEMTABLE_TOMBSTONE_def wf_entry_def)
  have "plain ''k''" by simp
  from remote_key_separator [OF sample_serve(4) sample_ok sample_remote(1) this room, of default_config False]
  have "\<exists>m1 s1. mg_put (native_ops good_io) default_config (''k'' @ CHR '';'' # ''x'') ''v'' False (sample_member 1 None, sample_member 0 (Some sample_native))
      = Returns (True, (m1, sample_member 0 (Some s1)))
    \<and> op_get (native_ops good_io) (''1::'' @ ''k'') s1 = Returns (Some (''x'' @ CHR '';'' # ''v''))"
    unfolding sample_remote(2) sample_keys sample_serve(5) .
  then show ?thesis unfolding append.simps .
qed

section \<open>Streams\<close>

text \<open>
  C34. A file written through the stream interface in non-empty chunks, over the LevelDB store, reads
  back chunk by chunk after a barrier and a seek to the start.
\<close>

theorem stream_chunks_roundtrip:
  assumes laws: "kv_db_laws db repr" and up: "lm_initialized (px_static st)"
    and lm: "lm_instance (px_static st) = Some (m, agg)" "mg_store m = Some s" "ldb_ok s" "isOpenLocal m"
    and off: "px_fileMap st path = Some 0" and cs: "[] \<notin> set cs" "total_length cs < 2 ^ 63"
  shows "\<exists>st1 st2 st3 st4. px_write_all (ldb_ops db) cfg path cs st = Returns st1
    \<and> px_writeBarrier (ldb_ops db) cfg st1 = Returns (True, st2)
    \<and> px_seekp path 0 Seek_beg st2 = Returns st3
    \<and> px_read_all (ldb_ops db) cfg path (map length cs) st3 = Returns (cs, st4)"
proof -
  note c = ldb_store_contract [OF laws]
  have "lsmio_store.stands ldb_ok (rankedKey m (mg_aggRank m)) path 0 s st"
    using up lm off by (simp add: lsmio_store.stands_def [OF c])
  from lsmio_store.stream_roundtrip [OF c this _ cs TrueI] show ?thesis by (simp add: inj_def)
qed

definition sample_posix :: "write_op list ldb_store posix" where
  "sample_posix = \<lparr>px_fileMap = [''f'' \<mapsto> 0],
     px_static = \<lparr>lm_instance = Some (sample_member 0 (Some sample_ldb), sample_member 0 None),
       lm_initialized = True, lm_initializing = False, lm_cleaning = False\<rparr>\<rparr>"

theorem stream_chunks_roundtrip_witness:
  "\<exists>st1 st2 st3 st4. px_write_all (ldb_ops mem_db) default_config ''f'' [''ab'', ''c''] sample_posix = Returns st1
    \<and> px_writeBarrier (ldb_ops mem_db) default_config st1 = Returns (True, st2)
    \<and> px_seekp ''f'' 0 Seek_beg st2 = Returns st3
    \<and> px_read_all (ldb_ops mem_db) default_config ''f'' [2, 1] st3 = Returns ([''ab'', ''c''], st4)"
proof -
  have "lm_initialized (px_static sample_posix)" "px_fileMap sample_posix ''f'' = Some 0"
    "lm_instance (px_static sample_posix) = Some (sample_member 0 (Some sample_ldb), sample_member 0 None)"
    by (simp_all add: sample_posix_def)
  moreover have "ldb_ok sample_ldb" by (simp add: ldb_ok_def sample_ldb_def)
  moreover have "[] \<notin> set [''ab'', ''c'']" "total_length [''ab'', ''c''] < 2 ^ 63" "map length [''ab'', ''c''] = [2, 1]"
    by simp_all
  ultimately show ?thesis
    using stream_chunks_roundtrip [OF mem_db_laws, of sample_posix _ _ _ "''f''" "[''ab'', ''c'']" default_config]
      sample_serve(2,4) by metis
qed

text \<open>
  A read that asks for another number of bytes than were written at the position throws: a file can
  only be read back in the chunks in which it was written.
\<close>

theorem stream_other_size:
  assumes laws: "kv_db_laws db repr" and up: "lm_initialized (px_static st)"
    and lm: "lm_instance (px_static st) = Some (m, agg)" "mg_store m = Some s" "ldb_ok s" "isOpenLocal m"
    and off: "px_fileMap st path = Some (word_of_nat off)" and r: "pending_ops s = []"
    and c: "ldb_content repr s (rankedKey m (mg_aggRank m) (chunk_key path (word_of_nat off))) = Some c"
    and n: "n \<noteq> length c" "n < 2 ^ 64" and small: "off + length c < 2 ^ 63"
  shows "px_read (ldb_ops db) cfg path (int n) st = Throws ''ERROR: LSMIOStream::read unexpected length of data''"
proof -
  note k = ldb_store_contract [OF laws]
  have "lsmio_store.stands ldb_ok (rankedKey m (mg_aggRank m)) path off s st"
    using up lm off by (simp add: lsmio_store.stands_def [OF k])
  from lsmio_store.stands_read_other_size [OF k this _ c n small] r show ?thesis by (simp add: ldb_readable_def)
qed

definition sample_chunk :: "write_op list ldb_store posix" where
  "sample_chunk = sample_posix\<lparr>px_static := (px_static sample_posix)\<lparr>lm_instance :=
     Some (sample_member 0 (Some (sample_ldb\<lparr>ldb_db := Some [WPut ''0::f::0'' ''abc''], ldb_batch := None\<rparr>)), sample_member 0 None)\<rparr>\<rparr>"

theorem stream_other_size_witness:
  "px_read (ldb_ops mem_db) default_config ''f'' 2 sample_chunk = Throws ''ERROR: LSMIOStream::read unexpected length of data''"
proof -
  let ?s = "sample_ldb\<lparr>ldb_db := Some [WPut ''0::f::0'' ''abc''], ldb_batch := None\<rparr>"
  have "chunk_key ''f'' 0 = ''f::0''" by code_simp
  then have c: "ldb_content mem_repr ?s (rankedKey (sample_member 0 (Some ?s)) 0 (chunk_key ''f'' 0)) = Some ''abc''"
    by (simp add: sample_keys ldb_content_def pending_ops_def mem_repr_def)
  show ?thesis
    using stream_other_size [OF mem_db_laws, of sample_chunk "sample_member 0 (Some ?s)" "sample_member 0 None" ?s "''f''" 0 "''abc''" 2 default_config] c
    by (simp add: sample_chunk_def sample_posix_def sample_serve ldb_ok_def pending_ops_def sample_ldb_def)
qed

end
